(* ===== verification/Prelude.thy ===== *)
theory Prelude
  imports Main "HOL-Library.Word" "HOL-Library.Signed_Division"
begin

text \<open>
  What every component shares: the machine types, the faults a C++ statement can end in, the
  plumbing of fallible results, and the loop combinator that all \<open>while\<close> loops of the sources
  are written with.

  \<^item> \<^bold>\<open>Faults.\<close> The sources copy into fixed arrays and dereference results of library calls
    without a check. Where the code has undefined behaviour the model ends in an explicit \<open>fault\<close>;
    a result of type \<open>fault + 'a\<close> is \<open>Inl\<close> the fault or \<open>Inr\<close> the value.
  \<^item> \<^bold>\<open>Loops.\<close> \<open>run_loop body s\<close> repeats the loop body: \<open>Inl s'\<close> goes round again with
    state \<open>s'\<close>, \<open>Inr r\<close> leaves the loop with \<open>r\<close>; the value \<open>None\<close> means that the loop
    never leaves. The rules below give total correctness (a measure), divergence (an invariant
    under which the body always goes round) and one-step unfolding.
\<close>

unbundle bit_operations_syntax

named_theorems codes "the numeric codes of the header files, as simp rules"
named_theorems frame "fields an operation leaves alone"

subsection \<open>Machine types\<close>

type_synonym byte = "8 word"
type_synonym u32 = "32 word"
type_synonym u64 = "64 word"

subsection \<open>Faults and fallible results\<close>

datatype fault =
    BufferOverflow   \<comment> \<open>a copy past the end of an array\<close>
  | OutOfBounds      \<comment> \<open>a read past the end of an array\<close>
  | NullDeref        \<comment> \<open>a null pointer used\<close>
  | Uninitialised    \<comment> \<open>a variable read before it is written\<close>
  | UseAfterFree     \<comment> \<open>freed memory used or freed again\<close>
  | Aborted          \<comment> \<open>an assertion failed\<close>

definition bindE :: "'e + 'a \<Rightarrow> ('a \<Rightarrow> 'e + 'b) \<Rightarrow> 'e + 'b" where
  "bindE m f = (case m of Inl e \<Rightarrow> Inl e | Inr x \<Rightarrow> f x)"

lemma bindE_simps [simp]:
  "bindE (Inl e) f = Inl e"
  "bindE (Inr x) f = f x"
  by (simp_all add: bindE_def)

lemma bindE_Inr_iff: "bindE m f = Inr y \<longleftrightarrow> (\<exists>x. m = Inr x \<and> f x = Inr y)"
  by (cases m) auto

lemma bindE_Inl_iff: "bindE m f = Inl e \<longleftrightarrow> m = Inl e \<or> (\<exists>x. m = Inr x \<and> f x = Inl e)"
  by (cases m) auto

lemma bindE_Inr_right [simp]: "bindE m Inr = m"
  by (cases m) simp_all

lemma bindE_assoc: "bindE (bindE m f) g = bindE m (\<lambda>x. bindE (f x) g)"
  by (cases m) auto

text \<open>\<open>guardE b e\<close> lets the code go on where \<open>b\<close> holds and faults with \<open>e\<close> otherwise.\<close>

definition guardE :: "bool \<Rightarrow> 'e \<Rightarrow> 'e + unit" where
  "guardE b e = (if b then Inr () else Inl e)"

lemma guardE_simps [simp]:
  "guardE True e = Inr ()"
  "guardE False e = Inl e"
  by (simp_all add: guardE_def)

lemma guardE_Inr_iff [simp]: "guardE b e = Inr u \<longleftrightarrow> b"
  by (simp add: guardE_def)

fun mapE :: "('a \<Rightarrow> 'e + 'b) \<Rightarrow> 'a list \<Rightarrow> 'e + 'b list" where
  "mapE f [] = Inr []"
| "mapE f (x # xs) = bindE (f x) (\<lambda>y. bindE (mapE f xs) (\<lambda>ys. Inr (y # ys)))"

subsection \<open>Loops\<close>

partial_function (option) run_loop :: "('s \<Rightarrow> 's + 'r) \<Rightarrow> 's \<Rightarrow> 'r option" where
  "run_loop body s = (case body s of Inl s' \<Rightarrow> run_loop body s' | Inr r \<Rightarrow> Some r)"

lemma run_loop_again: "body s = Inl s' \<Longrightarrow> run_loop body s = run_loop body s'"
  by (subst run_loop.simps) simp

lemma run_loop_exit: "body s = Inr r \<Longrightarrow> run_loop body s = Some r"
  by (subst run_loop.simps) simp

lemma run_loop_total:
  fixes m :: "'s \<Rightarrow> nat"
  assumes inv: "I s"
    and step: "\<And>s. I s \<Longrightarrow> (case body s of Inl s' \<Rightarrow> I s' \<and> m s' < m s | Inr r \<Rightarrow> Q r)"
  shows "\<exists>r. run_loop body s = Some r \<and> Q r"
  using inv
proof (induction "m s" arbitrary: s rule: less_induct)
  case less
  show ?case
  proof (cases "body s")
    case (Inl s')
    with step [OF less.prems] have "I s'" and "m s' < m s" by simp_all
    with less.hyps have "\<exists>r. run_loop body s' = Some r \<and> Q r" by blast
    with Inl show ?thesis by (simp add: run_loop_again)
  next
    case (Inr r)
    with step [OF less.prems] show ?thesis by (simp add: run_loop_exit)
  qed
qed

lemma run_loop_partial:
  assumes ret: "run_loop body s = Some r"
    and inv: "I s"
    and step: "\<And>s s'. I s \<Longrightarrow> body s = Inl s' \<Longrightarrow> I s'"
    and exit: "\<And>s r. I s \<Longrightarrow> body s = Inr r \<Longrightarrow> Q r"
  shows "Q r"
proof -
  have "\<forall>J. (\<forall>s s'. J s \<longrightarrow> body s = Inl s' \<longrightarrow> J s')
      \<longrightarrow> (\<forall>s r. J s \<longrightarrow> body s = Inr r \<longrightarrow> Q r) \<longrightarrow> J s \<longrightarrow> Q r"
  proof (rule run_loop.raw_induct [where P = "\<lambda>body s r. \<forall>J. (\<forall>s s'. J s \<longrightarrow> body s = Inl s' \<longrightarrow> J s')
      \<longrightarrow> (\<forall>s r. J s \<longrightarrow> body s = Inr r \<longrightarrow> Q r) \<longrightarrow> J s \<longrightarrow> Q r", OF _ ret], intro allI impI)
    fix f body s r J
    assume IH: "\<And>body s r. f body s = Some r \<Longrightarrow> \<forall>J. (\<forall>s s'. J s \<longrightarrow> body s = Inl s' \<longrightarrow> J s')
        \<longrightarrow> (\<forall>s r. J s \<longrightarrow> body s = Inr r \<longrightarrow> Q r) \<longrightarrow> J s \<longrightarrow> Q r"
      and eq: "(case body s of Inl s' \<Rightarrow> f body s' | Inr r \<Rightarrow> Some r) = Some r"
      and st: "\<forall>s s'. J s \<longrightarrow> body s = Inl s' \<longrightarrow> J s'"
      and ex: "\<forall>s r. J s \<longrightarrow> body s = Inr r \<longrightarrow> Q r" and J: "J s"
    show "Q r"
    proof (cases "body s")
      case (Inl s')
      with eq have "f body s' = Some r" by simp
      with Inl IH st ex J show ?thesis by blast
    next
      case (Inr r')
      with eq ex J show ?thesis by auto
    qed
  qed
  with inv step exit show ?thesis by metis
qed

lemma run_loop_diverges:
  assumes inv: "I s"
    and step: "\<And>s. I s \<Longrightarrow> \<exists>s'. body s = Inl s' \<and> I s'"
  shows "run_loop body s = None"
proof (rule ccontr)
  assume "run_loop body s \<noteq> None"
  then obtain r where "run_loop body s = Some r" by blast
  moreover have "\<And>s s'. I s \<Longrightarrow> body s = Inl s' \<Longrightarrow> I s'" using step by fastforce
  moreover have "\<And>s r. I s \<Longrightarrow> body s = Inr r \<Longrightarrow> False" using step by fastforce
  ultimately show False using run_loop_partial [where Q = "\<lambda>_. False"] inv by metis
qed

subsection \<open>Lists\<close>

lemma takeWhile_id [simp]: "\<forall>x \<in> set xs. P x \<Longrightarrow> takeWhile P xs = xs"
  by (induction xs) auto

lemma map2_take: "map2 f (take n xs) (take n ys) = take n (map2 f xs ys)"
  by (simp add: take_map take_zip)

lemma map2_drop: "map2 f (drop n xs) (drop n ys) = drop n (map2 f xs ys)"
  by (simp add: drop_map drop_zip)

lemma nth_map2: "i < length xs \<Longrightarrow> i < length ys \<Longrightarrow> map2 f xs ys ! i = f (xs ! i) (ys ! i)"
  by simp

lemma take_Suc_drop: "i < length xs \<Longrightarrow> take (Suc k) (drop i xs) = xs ! i # take k (drop (Suc i) xs)"
  by (simp add: Cons_nth_drop_Suc [symmetric])

lemma take_add_drop: "take (m + n) xs = take m xs @ take n (drop m xs)"
  by (rule take_add)

end
