(* ===== verification/XorSpec.thy ===== *)
theory XorSpec
  imports Prelude
begin

text \<open>
  The abstract specification of the program: the parity of a group of files, byte by byte, and
  the interface \<open>xor_kernel\<close> that both XOR routines of the sources provide.

  \<^item> \<open>parity fs\<close> is the specification: byte \<open>i\<close> is the XOR of the bytes \<open>i\<close> of all files.
  \<^item> \<open>le_word\<close> and \<open>le_bytes\<close> read and write an \<open>unsigned int\<close> in the byte order of the
    machine (little endian), \<open>words_of\<close> and \<open>bytes_of\<close> do the same for a buffer.
  \<^item> \<open>xor_words\<close> is the double loop both routines run over their word buffers.
  \<^item> The locale \<open>xor_kernel\<close> states what a routine promises its client, and derives from it
    what the client wants a parity file for: the file that is lost can be computed back.
\<close>

subsection \<open>Parity\<close>

definition column :: "byte list list \<Rightarrow> nat \<Rightarrow> byte" where
  "column fs i = foldr (\<lambda>f a. f ! i XOR a) fs 0"

definition parity :: "byte list list \<Rightarrow> byte list" where
  "parity fs = map (column fs) [0..<length (hd fs)]"

definition same_length :: "nat \<Rightarrow> 'a list list \<Rightarrow> bool" where
  "same_length n fs \<longleftrightarrow> (\<forall>f \<in> set fs. length f = n)"

lemma same_length_Cons [simp]: "same_length n (f # fs) \<longleftrightarrow> length f = n \<and> same_length n fs"
  by (simp add: same_length_def)

lemma same_length_Nil [simp]: "same_length n []"
  by (simp add: same_length_def)

lemma same_length_append [simp]: "same_length n (fs @ gs) \<longleftrightarrow> same_length n fs \<and> same_length n gs"
  by (auto simp: same_length_def)

lemma same_length_take_drop:
  "same_length n fs \<Longrightarrow> m + k \<le> n \<Longrightarrow> same_length k (map (\<lambda>f. take k (drop m f)) fs)"
  by (auto simp: same_length_def)

lemma column_Nil [simp]: "column [] i = 0"
  and column_Cons [simp]: "column (f # fs) i = f ! i XOR column fs i"
  by (simp_all add: column_def)

lemma column_append: "column (fs @ gs) i = column fs i XOR column gs i"
  by (induction fs) (simp_all add: xor.assoc)

lemma length_parity_hd [simp]: "length (parity fs) = length (hd fs)"
  by (simp add: parity_def)

lemma same_length_hd: "fs \<noteq> [] \<Longrightarrow> same_length n fs \<Longrightarrow> length (hd fs) = n"
  by (cases fs) simp_all

lemma length_parity: "fs \<noteq> [] \<Longrightarrow> same_length n fs \<Longrightarrow> length (parity fs) = n"
  by (cases fs) (simp_all add: parity_def)

lemma parity_nth: "fs \<noteq> [] \<Longrightarrow> same_length n fs \<Longrightarrow> i < n \<Longrightarrow> parity fs ! i = column fs i"
  by (cases fs) (simp_all add: parity_def)

lemma parity_single: "parity [f] = f"
  by (rule nth_equalityI) (simp_all add: parity_def)

lemma column_take_drop:
  "same_length n fs \<Longrightarrow> m + k \<le> n \<Longrightarrow> i < k
    \<Longrightarrow> column (map (\<lambda>f. take k (drop m f)) fs) i = column fs (m + i)"
  by (induction fs) auto

lemma parity_take_drop:
  assumes "fs \<noteq> []" "same_length n fs" "m + k \<le> n"
  shows "parity (map (\<lambda>f. take k (drop m f)) fs) = take k (drop m (parity fs))"
proof (rule nth_equalityI)
  have sl: "same_length k (map (\<lambda>f. take k (drop m f)) fs)"
    using assms by (intro same_length_take_drop)
  then have len: "length (parity (map (\<lambda>f. take k (drop m f)) fs)) = k"
    using assms(1) by (intro length_parity) auto
  then show "length (parity (map (\<lambda>f. take k (drop m f)) fs)) = length (take k (drop m (parity fs)))"
    using assms same_length_hd [OF assms(1,2)] by (simp only: length_take length_drop length_parity_hd)
  fix i assume "i < length (parity (map (\<lambda>f. take k (drop m f)) fs))"
  then have "i < k" using len by simp
  moreover have "parity (map (\<lambda>f. take k (drop m f)) fs) ! i = column (map (\<lambda>f. take k (drop m f)) fs) i"
    using parity_nth [OF _ sl \<open>i < k\<close>] assms(1) by auto
  ultimately show "parity (map (\<lambda>f. take k (drop m f)) fs) ! i = take k (drop m (parity fs)) ! i"
    using assms same_length_hd [OF assms(1,2)] by (simp add: column_take_drop parity_nth [OF assms(1,2)])
qed

subsection \<open>Words in memory\<close>

definition le_word :: "byte \<Rightarrow> byte \<Rightarrow> byte \<Rightarrow> byte \<Rightarrow> u32" where
  "le_word b0 b1 b2 b3 =
     ucast b0 OR push_bit 8 (ucast b1) OR push_bit 16 (ucast b2) OR push_bit 24 (ucast b3)"

definition le_bytes :: "u32 \<Rightarrow> byte list" where
  "le_bytes w = [ucast w, ucast (drop_bit 8 w), ucast (drop_bit 16 w), ucast (drop_bit 24 w)]"

fun words_of :: "byte list \<Rightarrow> u32 list" where
  "words_of (a # b # c # d # r) = le_word a b c d # words_of r"
| "words_of r = []"

definition bytes_of :: "u32 list \<Rightarrow> byte list" where
  "bytes_of ws = concat (map le_bytes ws)"

lemma bytes_of_simps [simp]: "bytes_of [] = []" "bytes_of (w # ws) = le_bytes w @ bytes_of ws"
  by (simp_all add: bytes_of_def)

lemma bytes_of_append: "bytes_of (xs @ ys) = bytes_of xs @ bytes_of ys"
  by (simp add: bytes_of_def)

lemma length_le_bytes [simp]: "length (le_bytes w) = 4"
  by (simp add: le_bytes_def)

lemma length_bytes_of [simp]: "length (bytes_of ws) = 4 * length ws"
  by (induction ws) simp_all

lemma le_bytes_le_word: "le_bytes (le_word a b c d) = [a, b, c, d]"
  by (simp add: le_bytes_def le_word_def, intro conjI; rule bit_word_eqI)
     (auto simp: bit_simps dest: bit_imp_le_length)

lemma le_bytes_xor: "le_bytes (v XOR w) = map2 (XOR) (le_bytes v) (le_bytes w)"
  by (simp add: le_bytes_def, intro conjI; rule bit_word_eqI) (auto simp: bit_simps)

lemma length_words_of: "length (words_of bs) = length bs div 4"
  by (induction bs rule: words_of.induct) auto

lemma div4_Suc: "(4 + n) div 4 = Suc (n div (4::nat))"
  by simp

lemma take_prefix_add: "length xs = k \<Longrightarrow> take (k + n) (xs @ r) = xs @ take n r"
  by simp

lemma bytes_of_words_of: "bytes_of (words_of bs) = take (4 * (length bs div 4)) bs"
proof (induction bs rule: words_of.induct)
  case (1 a b c d r)
  have "4 * (length (a # b # c # d # r) div 4) = 4 + 4 * (length r div 4)"
    using div4_Suc [of "length r"] by simp
  then have "take (4 * (length (a # b # c # d # r) div 4)) (a # b # c # d # r)
      = [a, b, c, d] @ take (4 * (length r div 4)) r"
    using take_prefix_add [of "[a, b, c, d]" 4 "4 * (length r div 4)" r] by (simp only:) simp
  with 1 show ?case by (simp only: words_of.simps bytes_of_simps le_bytes_le_word)
qed simp_all

lemma bytes_of_nth:
  "i < length ws \<Longrightarrow> j < 4 \<Longrightarrow> bytes_of ws ! (4 * i + j) = le_bytes (ws ! i) ! j"
  by (induction ws arbitrary: i) (auto simp: nth_append less_Suc_eq_0_disj)

subsection \<open>The word loop\<close>

text \<open>
  \<^verbatim>\<open>for i < k: for 1 <= j < n: *p[0] ^= *p[j]; p[j]++;  then p[0]++\<close>: word \<open>i\<close> of the
  first buffer is combined with the words \<open>i\<close> of the others; the first buffer keeps the result.
\<close>

definition xor_words :: "nat \<Rightarrow> u32 list \<Rightarrow> u32 list list \<Rightarrow> u32 list" where
  "xor_words k d bs = map (\<lambda>i. foldl (\<lambda>a b. a XOR b ! i) (d ! i) bs) [0..<k] @ drop k d"

lemma length_xor_words [simp]: "k \<le> length d \<Longrightarrow> length (xor_words k d bs) = length d"
  by (simp add: xor_words_def)

lemma foldl_xor_column:
  "i < 4 \<Longrightarrow> le_bytes (foldl (\<lambda>a b. a XOR b ! k) w bs) ! i
    = le_bytes w ! i XOR foldr (\<lambda>b a. le_bytes (b ! k) ! i XOR a) bs 0"
proof (induction bs arbitrary: w)
  case (Cons b bs)
  then show ?case by (simp add: le_bytes_xor xor.assoc)
qed simp

lemma foldr_bytes_column:
  assumes "\<forall>b \<in> set bs. k < length b" "i < 4"
  shows "foldr (\<lambda>b a. le_bytes (b ! k) ! i XOR a) bs 0 = column (map bytes_of bs) (4 * k + i)"
  using assms by (induction bs) (simp_all add: bytes_of_nth)

lemma bytes_of_xor_words:
  assumes "same_length k (d # bs)"
  shows "bytes_of (xor_words k d bs) = parity (map bytes_of (d # bs))"
proof (rule nth_equalityI)
  have sl: "same_length (4 * k) (map bytes_of (d # bs))"
    using assms by (auto simp: same_length_def)
  then have len: "length (parity (map bytes_of (d # bs))) = 4 * k"
    by (intro length_parity) simp_all
  then show "length (bytes_of (xor_words k d bs)) = length (parity (map bytes_of (d # bs)))"
    using assms by simp
  fix i assume "i < length (bytes_of (xor_words k d bs))"
  then have i: "i < 4 * k" using assms by simp
  obtain q j where q: "i = 4 * q + j" "j < 4" "q < k"
    using i mod_less_divisor [of 4 i] that [of "i div 4" "i mod 4"] by (simp add: less_mult_imp_div_less)
  from assms q(3) have "\<forall>b \<in> set bs. q < length b" by (auto simp: same_length_def)
  then have "bytes_of (xor_words k d bs) ! i = column (map bytes_of (d # bs)) i"
    using q assms
    by (simp add: bytes_of_nth xor_words_def nth_append foldl_xor_column foldr_bytes_column)
  then show "bytes_of (xor_words k d bs) ! i = parity (map bytes_of (d # bs)) ! i"
    using parity_nth [OF _ sl i] by simp
qed

subsection \<open>The byte loop\<close>

definition xor_bytes :: "byte list \<Rightarrow> byte list list \<Rightarrow> byte list" where
  "xor_bytes d bs = map (\<lambda>i. foldl (\<lambda>a b. a XOR b ! i) (d ! i) bs) [0..<length d]"

lemma foldl_xor_nth: "foldl (\<lambda>a b. a XOR b ! i) x bs = x XOR column bs i"
  by (induction bs arbitrary: x) (simp_all add: xor.assoc)

lemma xor_bytes_parity: "same_length (length d) bs \<Longrightarrow> xor_bytes d bs = parity (d # bs)"
  by (simp add: xor_bytes_def parity_def foldl_xor_nth)

lemma parity_append_split:
  assumes "fs \<noteq> []" "same_length n fs" "m \<le> n"
  shows "parity (map (take m) fs) @ parity (map (drop m) fs) = parity fs"
proof -
  have t: "parity (map (take m) fs) = take m (parity fs)"
    using parity_take_drop [OF assms(1,2), of 0 m] assms(3) by simp
  have e: "map (drop m) fs = map (\<lambda>f. take (n - m) (drop m f)) fs"
    using assms by (auto simp: same_length_def)
  have "parity (map (drop m) fs) = take (n - m) (drop m (parity fs))"
    unfolding e using parity_take_drop [OF assms(1,2), of m "n - m"] assms(3) by simp
  then have "parity (map (drop m) fs) = drop m (parity fs)"
    using same_length_hd [OF assms(1,2)] by simp
  with t show ?thesis by simp
qed

subsection \<open>The interface of an XOR routine\<close>

text \<open>
  A routine takes the files of a group and returns the bytes it writes for them. It promises
  the parity of files of one length; everything a user of the parity file needs follows.
\<close>

locale xor_kernel =
  fixes kernel :: "byte list list \<Rightarrow> byte list"
    and accepts :: "nat \<Rightarrow> byte list list \<Rightarrow> bool"
  assumes accepts_shape: "accepts n fs \<Longrightarrow> fs \<noteq> [] \<and> same_length n fs"
    and kernel_parity: "accepts n fs \<Longrightarrow> kernel fs = parity fs"
begin

lemma kernel_length: "accepts n fs \<Longrightarrow> length (kernel fs) = n"
  using accepts_shape [of n fs] kernel_parity [of n fs] same_length_hd [of fs n] by simp

lemma kernel_nth: "accepts n fs \<Longrightarrow> i < n \<Longrightarrow> kernel fs ! i = column fs i"
  using accepts_shape [of n fs] kernel_parity [of n fs] parity_nth [of fs n i] by simp

text \<open>Recovery: the routine run on the parity and the files that are left gives the lost file.\<close>

lemma kernel_recovers:
  assumes "accepts n (as @ f # bs)" and "accepts n (kernel (as @ f # bs) # as @ bs)"
  shows "kernel (kernel (as @ f # bs) # as @ bs) = f"
proof (rule nth_equalityI)
  have f: "length f = n" using accepts_shape [OF assms(1)] by simp
  with kernel_length [OF assms(2)]
  show len: "length (kernel (kernel (as @ f # bs) # as @ bs)) = length f" by simp
  fix i assume "i < length (kernel (kernel (as @ f # bs) # as @ bs))"
  then have i: "i < n" using f len by simp
  have "kernel (kernel (as @ f # bs) # as @ bs) ! i = column (as @ f # bs) i XOR column (as @ bs) i"
    using kernel_nth [OF assms(2) i] kernel_nth [OF assms(1) i] by simp
  also have "\<dots> = f ! i"
    by (simp add: column_append xor.assoc xor.left_commute xor.commute)
  finally show "kernel (kernel (as @ f # bs) # as @ bs) ! i = f ! i" .
qed

end

end
