(* ===== verification/Streams.thy ===== *)
theory Streams
  imports XorSpec
begin

text \<open>
  The streams of \<open>stdio.h\<close> both XOR routines work on. An input \<open>FILE *\<close> is its content and its
  position; an output \<open>FILE *\<close> is what was written and the room the device has left, so that short
  writes are part of the model. \<open>fwrite\<close> returns the number of complete items.
\<close>

record istream =
  content :: "byte list"
  pos :: nat

record ostream =
  written :: "byte list"
  room :: nat

definition fread_words :: "nat \<Rightarrow> istream \<Rightarrow> u32 list \<times> istream" where
  "fread_words n s =
     (let got = take (4 * n) (drop (pos s) (content s))
      in (words_of got, s\<lparr>pos := pos s + length got\<rparr>))"

definition fgetc_char :: "istream \<Rightarrow> byte \<times> istream" where
  "fgetc_char s =
     (if pos s < length (content s) then (content s ! pos s, s\<lparr>pos := Suc (pos s)\<rparr>) else (255, s))"

definition fseek_set :: "nat \<Rightarrow> istream \<Rightarrow> istream" where
  "fseek_set p s = s\<lparr>pos := p\<rparr>"

definition fwrite_bytes :: "byte list \<Rightarrow> ostream \<Rightarrow> nat \<times> ostream" where
  "fwrite_bytes bs f =
     (let n = min (length bs) (room f)
      in (n, f\<lparr>written := written f @ take n bs, room := room f - n\<rparr>))"

definition fwrite_words :: "u32 list \<Rightarrow> ostream \<Rightarrow> nat \<times> ostream" where
  "fwrite_words ws f = (let (n, f') = fwrite_bytes (bytes_of ws) f in (n div 4, f'))"

definition fputc :: "byte \<Rightarrow> ostream \<Rightarrow> ostream" where
  "fputc c f = snd (fwrite_bytes [c] f)"

lemma fwrite_bytes_fits: "length bs \<le> room f \<Longrightarrow>
    fwrite_bytes bs f = (length bs, f\<lparr>written := written f @ bs, room := room f - length bs\<rparr>)"
  by (simp add: fwrite_bytes_def Let_def)

lemma fwrite_words_fits: "4 * length ws \<le> room f \<Longrightarrow>
    fwrite_words ws f = (length ws, f\<lparr>written := written f @ bytes_of ws, room := room f - 4 * length ws\<rparr>)"
  by (simp add: fwrite_words_def fwrite_bytes_fits)

lemma fwrite_words_short: "room f < 4 * length ws \<Longrightarrow>
    fwrite_words ws f = (room f div 4, f\<lparr>written := written f @ take (room f) (bytes_of ws), room := 0\<rparr>)"
  by (simp add: fwrite_words_def fwrite_bytes_def Let_def)

end
