(* ===== verification/CString.thy ===== *)
theory CString
  imports Prelude
begin

text \<open>
  The part of \<open>string.h\<close>, \<open>stdio.h\<close> and \<open>stdlib.h\<close> the sources use on text: fixed \<open>char\<close>
  arrays, the copy and concatenation functions with their bounds, searching, and the decimal
  conversions.

  A \<open>cbuf\<close> is the whole array, its NUL bytes included; its length is the array's size and no
  operation changes it. A \<open>string\<close> argument stands for the bytes a C string holds before its
  NUL. Copies that do not fit end in \<open>BufferOverflow\<close>; reading a string from an array that holds
  no NUL ends in \<open>OutOfBounds\<close>.
\<close>

type_synonym cbuf = "char list"

definition NUL :: char where "NUL = CHR 0x00"
definition CR :: char where "CR = CHR 0x0D"
definition LF :: char where "LF = CHR 0x0A"

lemma ctrl_distinct [simp]: "NUL \<noteq> CR" "CR \<noteq> NUL" "NUL \<noteq> LF" "LF \<noteq> NUL" "CR \<noteq> LF" "LF \<noteq> CR"
  by (simp_all add: NUL_def CR_def LF_def)

lemma CR_not_space [simp]: "CR \<noteq> CHR '' ''" "NUL \<noteq> CHR '' ''"
  by (simp_all add: CR_def NUL_def)

definition zbuf :: "nat \<Rightarrow> cbuf" where
  "zbuf n = replicate n NUL"

definition cstr :: "cbuf \<Rightarrow> string" where
  "cstr b = takeWhile (\<lambda>c. c \<noteq> NUL) b"

definition read_cstr :: "cbuf \<Rightarrow> fault + string" where
  "read_cstr b = (if NUL \<in> set b then Inr (cstr b) else Inl OutOfBounds)"

definition strcpy :: "cbuf \<Rightarrow> string \<Rightarrow> fault + cbuf" where
  "strcpy b s =
     (if length s < length b then Inr (s @ NUL # drop (Suc (length s)) b) else Inl BufferOverflow)"

definition strncpy :: "cbuf \<Rightarrow> string \<Rightarrow> nat \<Rightarrow> fault + cbuf" where
  "strncpy b s n =
     (if n \<le> length b then Inr (take n s @ replicate (n - length s) NUL @ drop n b)
      else Inl BufferOverflow)"

definition strcat :: "cbuf \<Rightarrow> string \<Rightarrow> fault + cbuf" where
  "strcat b s = bindE (read_cstr b) (\<lambda>d. strcpy b (d @ s))"

fun strcats :: "cbuf \<Rightarrow> string list \<Rightarrow> fault + cbuf" where
  "strcats b [] = Inr b"
| "strcats b (s # ss) = bindE (strcat b s) (\<lambda>b'. strcats b' ss)"

text \<open>\<open>strchr\<close> and \<open>strrchr\<close> return the suffix that starts at the first, or last, occurrence.\<close>

definition strchr :: "string \<Rightarrow> char \<Rightarrow> string option" where
  "strchr s c = (case dropWhile (\<lambda>x. x \<noteq> c) s of [] \<Rightarrow> None | t \<Rightarrow> Some t)"

fun strrchr :: "string \<Rightarrow> char \<Rightarrow> string option" where
  "strrchr [] c = None"
| "strrchr (x # s) c =
     (case strrchr s c of Some t \<Rightarrow> Some t | None \<Rightarrow> if x = c then Some (x # s) else None)"

text \<open>\<open>strncmp (s, lit, n) == 0\<close> for a literal of length \<open>n\<close>.\<close>

definition has_prefix :: "string \<Rightarrow> string \<Rightarrow> bool" where
  "has_prefix lit s \<longleftrightarrow> take (length lit) s = lit"

text \<open>\<open>snprintf (p, n, ...)\<close> keeps at most \<open>n - 1\<close> characters of the formatted text.\<close>

definition snprintf :: "cbuf \<Rightarrow> nat \<Rightarrow> string \<Rightarrow> fault + cbuf" where
  "snprintf b n s = (if n = 0 then Inr b else strcpy b (take (n - 1) s))"

subsection \<open>Decimal conversions\<close>

definition digit :: "nat \<Rightarrow> char" where
  "digit d = char_of (48 + d)"

fun dec :: "nat \<Rightarrow> string" where
  "dec n = (if n < 10 then [digit n] else dec (n div 10) @ [digit (n mod 10)])"

declare dec.simps [simp del]

text \<open>\<open>"%d"\<close>\<close>

definition fmt_d :: "int \<Rightarrow> string" where
  "fmt_d i = (if i < 0 then CHR ''-'' # dec (nat (- i)) else dec (nat i))"

definition is_space :: "char \<Rightarrow> bool" where
  "is_space c \<longleftrightarrow> c \<in> {CHR '' '', CHR 0x09, CHR 0x0A, CHR 0x0B, CHR 0x0C, CHR 0x0D}"

definition is_digit :: "char \<Rightarrow> bool" where
  "is_digit c \<longleftrightarrow> 48 \<le> (of_char c :: nat) \<and> (of_char c :: nat) \<le> 57"

fun digits_val :: "nat \<Rightarrow> string \<Rightarrow> nat" where
  "digits_val a [] = a"
| "digits_val a (c # cs) = (if is_digit c then digits_val (10 * a + (of_char c - 48)) cs else a)"

definition LONG_MAX :: int where "LONG_MAX = 2 ^ 63 - 1"
definition LONG_MIN :: int where "LONG_MIN = - (2 ^ 63)"

definition strtol :: "string \<Rightarrow> int" where
  "strtol s =
     (let t = dropWhile is_space s;
          v = (case t of
                 [] \<Rightarrow> 0
               | c # cs \<Rightarrow>
                   if c = CHR ''-'' then - int (digits_val 0 cs)
                   else if c = CHR ''+'' then int (digits_val 0 cs)
                   else int (digits_val 0 t))
      in max LONG_MIN (min LONG_MAX v))"

text \<open>The C library's \<open>atoi\<close> is \<open>strtol\<close> cut down to an \<open>int\<close>: the low 32 bits, as signed.\<close>

definition to_int32 :: "int \<Rightarrow> int" where
  "to_int32 v = signed_take_bit 31 v"

definition atoi :: "string \<Rightarrow> int" where
  "atoi s = to_int32 (strtol s)"

subsection \<open>Lemmas on arrays\<close>

lemma length_zbuf [simp]: "length (zbuf n) = n"
  by (simp add: zbuf_def)

lemma cstr_zbuf [simp]: "cstr (zbuf n) = ''''"
  by (cases n) (simp_all add: zbuf_def cstr_def)

lemma cstr_append_NUL: "NUL \<notin> set s \<Longrightarrow> cstr (s @ NUL # r) = s"
  by (induction s) (auto simp: cstr_def)

lemma cstr_no_NUL: "NUL \<notin> set (cstr b)"
  by (auto simp: cstr_def dest: set_takeWhileD)

lemma length_cstr_less: "NUL \<in> set b \<Longrightarrow> length (cstr b) < length b"
  by (induction b) (auto simp: cstr_def)

lemma read_cstr_zbuf [simp]: "0 < n \<Longrightarrow> read_cstr (zbuf n) = Inr ''''"
  by (simp add: read_cstr_def) (simp add: zbuf_def)

lemma read_cstr_Inr_length: "read_cstr b = Inr s \<Longrightarrow> length s < length b"
  by (auto simp: read_cstr_def length_cstr_less split: if_splits)

lemma strcpy_length: "strcpy b s = Inr b' \<Longrightarrow> length b' = length b"
  by (auto simp: strcpy_def split: if_splits)

lemma strcpy_fits: "length s < length b \<Longrightarrow> \<exists>b'. strcpy b s = Inr b'"
  by (simp add: strcpy_def)

lemma strcpy_overflow_iff: "strcpy b s = Inl e \<longleftrightarrow> e = BufferOverflow \<and> length b \<le> length s"
  by (auto simp: strcpy_def)

lemma read_strcpy: "strcpy b s = Inr b' \<Longrightarrow> NUL \<notin> set s \<Longrightarrow> read_cstr b' = Inr s"
  by (auto simp: strcpy_def read_cstr_def cstr_append_NUL split: if_splits)

lemma cstr_strcpy: "strcpy b s = Inr b' \<Longrightarrow> NUL \<notin> set s \<Longrightarrow> cstr b' = s"
  by (auto simp: strcpy_def cstr_append_NUL split: if_splits)

lemma read_cstr_cstr: "read_cstr b = Inr s \<Longrightarrow> cstr b = s"
  by (auto simp: read_cstr_def split: if_splits)

text \<open>
  A chain of \<open>strcat\<close> calls appends the pieces: it succeeds exactly when the whole text and its
  NUL fit into the array.
\<close>

definition holds :: "cbuf \<Rightarrow> nat \<Rightarrow> string \<Rightarrow> bool" where
  "holds b n s \<longleftrightarrow> length b = n \<and> read_cstr b = Inr s"

lemma holds_zbuf [simp]: "0 < n \<Longrightarrow> holds (zbuf n) n ''''"
  by (simp add: holds_def)

lemma holds_read: "holds b n s \<Longrightarrow> read_cstr b = Inr s"
  by (simp add: holds_def)

lemma holds_cstr: "holds b n s \<Longrightarrow> cstr b = s"
  by (auto simp: holds_def dest: read_cstr_cstr)

lemma holds_NUL: "holds b n s \<Longrightarrow> NUL \<notin> set s"
  using cstr_no_NUL by (auto simp: holds_def read_cstr_def split: if_splits)

lemma holds_length: "holds b n s \<Longrightarrow> length s < n"
  by (auto simp: holds_def dest: read_cstr_Inr_length)

lemma holds_split: "holds b n s \<Longrightarrow> \<exists>rest. b = s @ NUL # rest"
proof -
  assume h: "holds b n s"
  then have "NUL \<in> set b" by (auto simp: holds_def read_cstr_def split: if_splits)
  then obtain ys zs where b: "b = ys @ NUL # zs" "NUL \<notin> set ys" by (meson split_list_first)
  then have "s = ys" using holds_cstr [OF h] cstr_append_NUL by simp
  then show ?thesis using b by blast
qed

lemma strcpy_holds:
  assumes "length b = n" "NUL \<notin> set s" "length s < n"
  shows "\<exists>b'. strcpy b s = Inr b' \<and> holds b' n s"
  using assms strcpy_fits [of s b] read_strcpy strcpy_length by (fastforce simp: holds_def)

lemma strcat_holds:
  assumes "holds b n s" "NUL \<notin> set t" "length s + length t < n"
  shows "\<exists>b'. strcat b t = Inr b' \<and> holds b' n (s @ t)"
  using assms holds_NUL [OF assms(1)] strcpy_holds [of b n "s @ t"]
  by (auto simp: strcat_def holds_def)

lemma strcat_overflow:
  "holds b n s \<Longrightarrow> n \<le> length s + length t \<Longrightarrow> strcat b t = Inl BufferOverflow"
  by (auto simp: strcat_def holds_def strcpy_def)

lemma strcats_append: "strcats b (xs @ ys) = bindE (strcats b xs) (\<lambda>b'. strcats b' ys)"
  by (induction xs arbitrary: b) (simp_all add: bindE_assoc)

lemma strcats_holds:
  assumes "holds b n s" "\<forall>t \<in> set ts. NUL \<notin> set t" "length s + length (concat ts) < n"
  shows "\<exists>b'. strcats b ts = Inr b' \<and> holds b' n (s @ concat ts)"
  using assms
proof (induction ts arbitrary: b s)
  case Nil
  then show ?case by simp
next
  case (Cons t ts)
  then obtain b1 where b1: "strcat b t = Inr b1" "holds b1 n (s @ t)"
    using strcat_holds [of b n s t] by auto
  with Cons.IH [OF b1(2)] Cons.prems show ?case by auto
qed

lemma strcats_overflow:
  assumes "holds b n s" "\<forall>t \<in> set ts. NUL \<notin> set t" "n \<le> length s + length (concat ts)"
  shows "strcats b ts = Inl BufferOverflow"
  using assms
proof (induction ts arbitrary: b s)
  case Nil
  then show ?case using holds_length by fastforce
next
  case (Cons t ts)
  show ?case
  proof (cases "length s + length t < n")
    case True
    with Cons.prems obtain b1 where b1: "strcat b t = Inr b1" "holds b1 n (s @ t)"
      using strcat_holds [of b n s t] by auto
    with Cons.IH [OF b1(2)] Cons.prems show ?thesis by auto
  next
    case False
    with Cons.prems show ?thesis using strcat_overflow [of b n s t] by simp
  qed
qed

lemma strncpy_zbuf_holds:
  assumes "NUL \<notin> set s" "n < m" "n \<le> length s"
  shows "\<exists>b. strncpy (zbuf m) s n = Inr b \<and> holds b m (take n s)"
proof -
  have "zbuf (m - n) = NUL # zbuf (m - n - 1)"
    using assms(2) by (cases "m - n") (simp_all add: zbuf_def)
  moreover have "drop n (zbuf m) = zbuf (m - n)" by (simp add: zbuf_def)
  moreover have "NUL \<notin> set (take n s)" using assms(1) by (auto dest: in_set_takeD)
  ultimately show ?thesis
    using assms by (simp add: strncpy_def holds_def read_cstr_def cstr_append_NUL)
qed

subsection \<open>Lemmas on searching\<close>

lemma strchr_append: "c \<notin> set a \<Longrightarrow> strchr (a @ c # r) c = Some (c # r)"
  by (induction a) (auto simp: strchr_def)

lemma strchr_None: "c \<notin> set s \<Longrightarrow> strchr s c = None"
  by (induction s) (auto simp: strchr_def)

lemma strrchr_None_iff: "strrchr s c = None \<longleftrightarrow> c \<notin> set s"
  by (induction s) (auto split: option.splits)

lemma strchr_None_iff: "strchr s c = None \<longleftrightarrow> c \<notin> set s"
  by (induction s) (auto simp: strchr_def)

lemma strrchr_append: "c \<notin> set r \<Longrightarrow> strrchr (a @ c # r) c = Some (c # r)"
  by (induction a) (simp_all add: strrchr_None_iff [THEN iffD2])

subsection \<open>Lemmas on decimals\<close>

lemma of_char_digit: "d < 10 \<Longrightarrow> (of_char (digit d) :: nat) = 48 + d"
  by (simp add: digit_def)

lemma is_digit_digit [simp]: "d < 10 \<Longrightarrow> is_digit (digit d)"
  by (simp add: is_digit_def of_char_digit)

lemma digit_val_char: "is_digit c \<Longrightarrow> c \<noteq> NUL \<and> c \<noteq> CR \<and> c \<noteq> LF \<and> c \<noteq> CHR '' '' \<and> \<not> is_space c
    \<and> c \<noteq> CHR ''-'' \<and> c \<noteq> CHR ''+''"
  by (auto simp: is_digit_def NUL_def CR_def LF_def is_space_def)

lemma dec_digits: "\<forall>c \<in> set (dec n). is_digit c"
proof (induction n rule: dec.induct)
  case (1 n)
  then show ?case by (subst dec.simps) auto
qed

lemma dec_nonempty [simp]: "dec n \<noteq> []"
  by (subst dec.simps) simp

lemma dec_clean [simp]: "NUL \<notin> set (dec n)" "CR \<notin> set (dec n)" "LF \<notin> set (dec n)"
  using dec_digits [of n] digit_val_char by blast+

lemma digits_val_append:
  "\<forall>c \<in> set xs. is_digit c \<Longrightarrow> digits_val a (xs @ ys) = digits_val (digits_val a xs) ys"
  by (induction xs arbitrary: a) auto

lemma digits_val_dec: "digits_val 0 (dec n) = n"
proof (induction n rule: dec.induct)
  case (1 n)
  show ?case
  proof (cases "n < 10")
    case True
    then show ?thesis by (subst dec.simps) (simp add: of_char_digit)
  next
    case False
    with 1 have "digits_val 0 (dec (n div 10)) = n div 10" by simp
    with False show ?thesis
      by (subst dec.simps) (simp add: digits_val_append dec_digits of_char_digit)
  qed
qed

lemma length_dec_le: "n < 10 ^ Suc k \<Longrightarrow> length (dec n) \<le> Suc k"
proof (induction k arbitrary: n)
  case 0
  then show ?case by (subst dec.simps) simp
next
  case (Suc k)
  then have "n div 10 < 10 ^ Suc k" by (simp add: less_mult_imp_div_less)
  with Suc.IH have "length (dec (n div 10)) \<le> Suc k" by blast
  then show ?case by (subst dec.simps) simp
qed

lemma strtol_dec: "int n \<le> LONG_MAX \<Longrightarrow> strtol (dec n) = int n"
proof -
  assume n: "int n \<le> LONG_MAX"
  obtain c cs where c: "dec n = c # cs" by (cases "dec n") auto
  then have d: "is_digit c" using dec_digits [of n] by auto
  then have "dropWhile is_space (dec n) = dec n" using c digit_val_char by simp
  moreover have "c \<noteq> CHR ''-''" "c \<noteq> CHR ''+''" using d digit_val_char by blast+
  ultimately show ?thesis
    using n c digits_val_dec [of n] by (simp add: strtol_def Let_def LONG_MIN_def)
qed

text \<open>Round trip: an \<open>int\<close> that is printed and read back is the same number.\<close>

lemma to_int32_id: "- (2 ^ 31) \<le> v \<Longrightarrow> v < 2 ^ 31 \<Longrightarrow> to_int32 v = v"
  by (simp add: to_int32_def signed_take_bit_int_eq_self)

lemma atoi_dec: "n < 2 ^ 31 \<Longrightarrow> atoi (dec n) = int n"
  by (simp add: atoi_def strtol_dec LONG_MAX_def to_int32_id)

end
