(* ===== verification/ReturnCodes.thy ===== *)
theory ReturnCodes
  imports Prelude
begin

text \<open>
  The numeric results of the server: \<open>include/send_message.h\<close> (what a request is answered with)
  and \<open>include/error_info.h\<close> (what the socket functions return, negated by their callers).
\<close>

subsection \<open>\<open>send_message.h\<close>\<close>

definition RIGHT :: int where [codes]: "RIGHT = 0"
definition ERROR_FILE_PATH :: int where [codes]: "ERROR_FILE_PATH = -1"
definition ERROR_FILE_SIZE :: int where [codes]: "ERROR_FILE_SIZE = -2"
definition ERROR_FILE_OPEN :: int where [codes]: "ERROR_FILE_OPEN = -3"
definition ERROR_APPLY_MALLOC :: int where [codes]: "ERROR_APPLY_MALLOC = -4"
definition ERROR_FREAD_FILE :: int where [codes]: "ERROR_FREAD_FILE = -5"
definition ERROR_FWRITE_FILE :: int where [codes]: "ERROR_FWRITE_FILE = -6"
definition ERROR_CJSON_PARSE :: int where [codes]: "ERROR_CJSON_PARSE = -7"
definition ERROR_CJSON_FORMAT :: int where [codes]: "ERROR_CJSON_FORMAT = -8"
definition ERROR_OUTPUT_FILE :: int where [codes]: "ERROR_OUTPUT_FILE = -9"
definition ERROR_METHOD_NOT_FOUND :: int where [codes]: "ERROR_METHOD_NOT_FOUND = -10"
definition ERROR_XOR_FILE :: int where [codes]: "ERROR_XOR_FILE = -11"
definition ERROR_CREAT_TRANSMISSION_DATA_CONNECTION :: int where
  [codes]: "ERROR_CREAT_TRANSMISSION_DATA_CONNECTION = -101"
definition ERROR_GET_FILE_DATA :: int where [codes]: "ERROR_GET_FILE_DATA = -102"
definition ERROR_SEND_FILE_NAME_CLIENT :: int where [codes]: "ERROR_SEND_FILE_NAME_CLIENT = -103"
definition ERROR_FILE_NAME :: int where [codes]: "ERROR_FILE_NAME = -21"

datatype raid_kind = RAID0 | RAID1 | RAID2 | RAID3 | RAID4 | RAID5

fun raid_code :: "raid_kind \<Rightarrow> int" where
  "raid_code RAID0 = 0x1000"
| "raid_code RAID1 = 0x1001"
| "raid_code RAID2 = 0x1002"
| "raid_code RAID3 = 0x1003"
| "raid_code RAID4 = 0x1004"
| "raid_code RAID5 = 0x1005"

instantiation raid_kind :: linorder
begin

definition less_eq_raid_kind :: "raid_kind \<Rightarrow> raid_kind \<Rightarrow> bool" where
  "less_eq_raid_kind a b \<longleftrightarrow> raid_code a \<le> raid_code b"

definition less_raid_kind :: "raid_kind \<Rightarrow> raid_kind \<Rightarrow> bool" where
  "less_raid_kind a b \<longleftrightarrow> raid_code a < raid_code b"

instance
proof
  fix a b :: raid_kind
  show "a \<le> b \<Longrightarrow> b \<le> a \<Longrightarrow> a = b"
    by (cases a; cases b) (simp_all add: less_eq_raid_kind_def)
qed (auto simp: less_eq_raid_kind_def less_raid_kind_def)

end

subsection \<open>\<open>error_info.h\<close>\<close>

definition CLIENTSOCKETFAILED :: int where [codes]: "CLIENTSOCKETFAILED = 0x9008"
definition CONNECTSERVERFAILED :: int where [codes]: "CONNECTSERVERFAILED = 0x9009"
definition RECEIVE_MEASSAGE_DISORDER :: int where [codes]: "RECEIVE_MEASSAGE_DISORDER = 0x900A"
definition OPEN_FILE_FAILED :: int where [codes]: "OPEN_FILE_FAILED = 0x9001"
definition READ_ORIGIN_FILE_FAILED :: int where [codes]: "READ_ORIGIN_FILE_FAILED = 0x9002"
definition OPEN_DIR_FAILED :: int where [codes]: "OPEN_DIR_FAILED = 0x9003"
definition LSEEK_EXEC_ERROR :: int where [codes]: "LSEEK_EXEC_ERROR = 0x9004"
definition READ_EXEC_ERROR :: int where [codes]: "READ_EXEC_ERROR = 0x9005"
definition WRITE_EXEC_ERROR :: int where [codes]: "WRITE_EXEC_ERROR = 0x9006"

end
