(* ===== verification/RaidAllFile.thy ===== *)
theory RaidAllFile
  imports Streams CString ReturnCodes
begin

text \<open>
  \<open>src/raid_all_file.cpp\<close>: the XOR of a group of local files (\<open>s_riad\<close>) and the request that
  opens them (\<open>open_file\<close>).

  The streams are those of theory \<open>Streams\<close>. \<open>malloc\<close> fails where the parameter \<open>alloc\<close> says so. \<open>char c0 = fgetc (f)\<close> is a byte: at the end of a file it
  is 0xFF, the low byte of \<open>EOF\<close>, which is also what a byte 0xFF of the file is.
\<close>

subsection \<open>\<open>s_riad\<close>\<close>

definition READ_SIZE :: int where "READ_SIZE = 4 * 1024 * 1024"

record riad =
  ins :: "istream list"
  bufs :: "u32 list list"     \<comment> \<open>the initialised part of each \<open>input_buf[i]\<close>\<close>
  num0 :: nat
  xored :: int
  outf :: ostream

text \<open>\<open>fread\<close> overwrites the start of the buffer and leaves the rest as it was.\<close>

definition fill :: "u32 list \<Rightarrow> u32 list \<Rightarrow> u32 list" where
  "fill ws b = ws @ drop (length ws) b"

text \<open>The reads of the files after the first: \<open>None\<close> where \<open>num0 != num1\<close>.\<close>

fun read_others :: "nat \<Rightarrow> nat \<Rightarrow> istream list \<Rightarrow> u32 list list \<Rightarrow> (istream list \<times> u32 list list) option" where
  "read_others rs n0 (s # ss) (b # bs) =
     (let (w, s') = fread_words rs s
      in if length w \<noteq> n0 then None
         else (case read_others rs n0 ss bs of
                 None \<Rightarrow> None
               | Some (ss', bs') \<Rightarrow> Some (s' # ss', fill w b # bs')))"
| "read_others rs n0 ss bs = Some (ss, bs)"

definition read_phase :: "nat \<Rightarrow> riad \<Rightarrow> riad option" where
  "read_phase rs st =
     (if rs = 0 then Some st
      else case (ins st, bufs st) of
        (s # ss, b # bs) \<Rightarrow>
          (let (w, s') = fread_words rs s
           in case read_others rs (length w) ss bs of
                None \<Rightarrow> None
              | Some (ss', bs') \<Rightarrow>
                  Some (st\<lparr>ins := s' # ss', bufs := fill w b # bs', num0 := length w\<rparr>))
      | _ \<Rightarrow> Some st)"

text \<open>\<open>for i = 1 ..: c1 = fgetc (in_fd[i]); c0 ^= c1\<close>\<close>

fun tail_others :: "byte \<Rightarrow> istream list \<Rightarrow> byte \<times> istream list" where
  "tail_others c [] = (c, [])"
| "tail_others c (s # ss) =
     (let (c1, s') = fgetc_char s; (c', ss') = tail_others (c XOR c1) ss in (c', s' # ss'))"

text \<open>\<open>while ((c0 = fgetc (in_fd[0])) != EOF)\<close>\<close>

function tail_loop :: "istream \<Rightarrow> istream list \<Rightarrow> ostream \<Rightarrow> int
    \<Rightarrow> istream \<times> istream list \<times> ostream \<times> int" where
  "tail_loop s0 ss f x =
     (if fst (fgetc_char s0) = 255 then (snd (fgetc_char s0), ss, f, x)
      else tail_loop (snd (fgetc_char s0)) (snd (tail_others (fst (fgetc_char s0)) ss))
             (fputc (fst (tail_others (fst (fgetc_char s0)) ss)) f) (x + 1))"
  by pat_completeness auto
termination
  by (relation "measure (\<lambda>(s0, ss, f, x). length (content s0) - pos s0)")
     (auto simp: fgetc_char_def split: if_splits)

declare tail_loop.simps [simp del]

definition riad_tail :: "int \<Rightarrow> riad \<Rightarrow> fault + riad" where
  "riad_tail fsize st =
     (let fds = (if fsize \<noteq> xored st then map (fseek_set (nat (xored st))) (ins st) else ins st)
      in case fds of
           [] \<Rightarrow> Inl Uninitialised
         | s0 # ss \<Rightarrow>
             (case tail_loop s0 ss (outf st) (xored st) of
                (s0', ss', f, x) \<Rightarrow> Inr (st\<lparr>ins := s0' # ss', outf := f, xored := x\<rparr>)))"

text \<open>The XOR and the write that end each round.\<close>

definition riad_xor :: "int \<Rightarrow> riad \<Rightarrow> riad + (fault + int \<times> ostream)" where
  "riad_xor fsize st =
     (case bufs st of
        [] \<Rightarrow> Inr (Inl Uninitialised)
      | b # bs \<Rightarrow>
          (let b' = xor_words (num0 st) b bs;
               res = fwrite_words (take (num0 st) b') (outf st);
               x = xored st + int (num0 st) * 4
           in if int (fst res) < 0 then Inr (Inr (ERROR_FWRITE_FILE, snd res))
              else if x = fsize then Inr (Inr (RIGHT, snd res))
              else if x > fsize then Inr (Inr (ERROR_XOR_FILE, snd res))
              else Inl (st\<lparr>bufs := b' # bs, outf := snd res, xored := x\<rparr>)))"

text \<open>How many \<open>int\<close>s the round reads.\<close>

definition round_words :: "int \<Rightarrow> int \<Rightarrow> int" where
  "round_words fsize x = (if fsize - x \<le> READ_SIZE then (fsize - x) sdiv 4 else READ_SIZE sdiv 4)"

definition riad_iter :: "int \<Rightarrow> riad \<Rightarrow> riad + (fault + int \<times> ostream)" where
  "riad_iter fsize st =
     (let read_size = round_words fsize (xored st)
      in if read_size < 0 then Inr (Inl BufferOverflow)
         else case read_phase (nat read_size) st of
           None \<Rightarrow> Inr (Inr (ERROR_FREAD_FILE, outf st))
         | Some st1 \<Rightarrow>
             (if read_size = 0
              then (case riad_tail fsize st1 of
                      Inl e \<Rightarrow> Inr (Inl e)
                    | Inr st2 \<Rightarrow>
                        if fsize = xored st2 then Inr (Inr (RIGHT, outf st2)) else riad_xor fsize st2)
              else riad_xor fsize st1))"

definition s_riad :: "(nat \<Rightarrow> bool) \<Rightarrow> ostream \<Rightarrow> int \<Rightarrow> istream list \<Rightarrow> (fault + int \<times> ostream) option" where
  "s_riad alloc out_fd file_total_size in_fd =
     (if \<exists>i \<in> {..<length in_fd}. \<not> alloc i then Some (Inr (ERROR_APPLY_MALLOC, out_fd))
      else run_loop (riad_iter file_total_size)
             \<lparr>ins = in_fd, bufs = replicate (length in_fd) [], num0 = 0, xored = 0, outf = out_fd\<rparr>)"

subsection \<open>\<open>open_file\<close>\<close>

text \<open>
  What the request needs of the operating system: the content a path opens to (symbolic links
  followed, \<open>None\<close> where \<open>fopen\<close> fails), the \<open>st_size\<close> that \<open>lstat\<close> reports (links not
  followed; \<open>None\<close> where it fails), and the room for a file created at a path.
\<close>

record posix =
  fopen_r :: "string \<Rightarrow> byte list option"
  fopen_w :: "string \<Rightarrow> nat option"
  lstat_size :: "string \<Rightarrow> int option"
  malloc_ok :: "nat \<Rightarrow> bool"

definition MAX_FILE_NUM :: nat where "MAX_FILE_NUM = 1024"

text \<open>The result of a request: its code, the output file, and the streams left open.\<close>

record file_result =
  code :: int
  produced :: "(string \<times> ostream) option"
  left_open :: nat

fun open_inputs :: "posix \<Rightarrow> string list \<Rightarrow> istream list \<Rightarrow> nat + istream list" where
  "open_inputs os [] acc = Inr acc"
| "open_inputs os (p # ps) acc =
     (case fopen_r os p of
        None \<Rightarrow> Inl (length acc)
      | Some c \<Rightarrow> open_inputs os ps (acc @ [\<lparr>content = c, pos = 0\<rparr>]))"

text \<open>
  \<open>lstat\<close> of the first file leaves its size in \<open>info\<close>; for the others \<open>info\<close> is cleared first,
  so a failing \<open>lstat\<close> gives the size 0 in both cases. \<open>None\<close>: two sizes differ.
\<close>

definition stat_size :: "posix \<Rightarrow> string \<Rightarrow> int" where
  "stat_size os p = (case lstat_size os p of None \<Rightarrow> 0 | Some n \<Rightarrow> n)"

definition common_size :: "posix \<Rightarrow> string list \<Rightarrow> int option" where
  "common_size os ps =
     (case ps of
        [] \<Rightarrow> Some 0
      | p # qs \<Rightarrow> if \<forall>q \<in> set qs. stat_size os q = stat_size os p then Some (stat_size os p) else None)"

definition out_path :: "string \<Rightarrow> string" where
  "out_path name = take 1023 (''/home/file/'' @ name)"

text \<open>
  \<open>in_fd\<close> has room for 1024 streams: the paths are opened in order, so a missing one among the
  first 1024 ends the request, and the next path's stream is written past the array.
\<close>

definition open_file :: "posix \<Rightarrow> string \<Rightarrow> string list \<Rightarrow> (fault + file_result) option" where
  "open_file os output_file_name a_set_of_files =
     (case open_inputs os (take MAX_FILE_NUM a_set_of_files) [] of
        Inl n \<Rightarrow> Some (Inr \<lparr>code = ERROR_FILE_OPEN, produced = None, left_open = n\<rparr>)
      | Inr in_fd \<Rightarrow>
        if MAX_FILE_NUM < length a_set_of_files then Some (Inl BufferOverflow) else
        (case fopen_w os (out_path output_file_name) of
           None \<Rightarrow> Some (Inr \<lparr>code = ERROR_OUTPUT_FILE, produced = None, left_open = length in_fd\<rparr>)
         | Some r \<Rightarrow>
           (case common_size os a_set_of_files of
              None \<Rightarrow> Some (Inr \<lparr>code = ERROR_FILE_SIZE,
                         produced = Some (out_path output_file_name, \<lparr>written = [], room = r\<rparr>),
                         left_open = Suc (length in_fd)\<rparr>)
            | Some size0 \<Rightarrow>
              map_option (\<lambda>res. bindE res (\<lambda>(ret, f). Inr
                (if ret < 0
                 then \<lparr>code = ret, produced = Some (out_path output_file_name, f),
                       left_open = Suc (length in_fd)\<rparr>
                 else \<lparr>code = RIGHT, produced = Some (out_path output_file_name, f),
                       left_open = 0\<rparr>)))
                (s_riad (malloc_ok os) \<lparr>written = [], room = r\<rparr> size0 in_fd))))"


subsection \<open>Reads and writes\<close>

lemma fread_words_at:
  assumes "p + 4 * q \<le> length f"
  shows "fread_words q \<lparr>content = f, pos = p\<rparr>
    = (words_of (take (4 * q) (drop p f)), \<lparr>content = f, pos = p + 4 * q\<rparr>)"
  using assms by (simp add: fread_words_def Let_def)

lemma length_words_read: "p + 4 * q \<le> length f \<Longrightarrow> length (words_of (take (4 * q) (drop p f))) = q"
  by (simp add: length_words_of)

lemma bytes_words_read:
  "p + 4 * q \<le> length f \<Longrightarrow> bytes_of (words_of (take (4 * q) (drop p f))) = take (4 * q) (drop p f)"
  by (simp add: bytes_of_words_of)

lemma take_fill [simp]: "take (length w) (fill w b) = w"
  by (simp add: fill_def)

text \<open>
  \<open>out_after w bs\<close>: the stream \<open>w\<close> once the code has asked for all of \<open>bs\<close> to be written,
  in however many calls: it holds what the device had room for.
\<close>

definition out_after :: "ostream \<Rightarrow> byte list \<Rightarrow> ostream" where
  "out_after w bs = w\<lparr>written := written w @ take (room w) bs, room := room w - length bs\<rparr>"

lemma out_after_Nil [simp]: "out_after w [] = w"
  by (simp add: out_after_def)

lemma fwrite_bytes_after: "snd (fwrite_bytes bs w) = out_after w bs"
  by (auto simp: fwrite_bytes_def out_after_def Let_def min_def)

lemma out_after_append [simp]: "out_after (out_after w as) bs = out_after w (as @ bs)"
  by (simp add: out_after_def)

lemma fwrite_words_after: "snd (fwrite_words ws w) = out_after w (bytes_of ws)"
  using fwrite_bytes_after [of "bytes_of ws" w] by (auto simp: fwrite_words_def split: prod.splits)

lemma fputc_after: "fputc c w = out_after w [c]"
  by (simp add: fputc_def fwrite_bytes_after)

lemma out_after_fits: "length bs \<le> room w \<Longrightarrow> written (out_after w bs) = written w @ bs"
  by (simp add: out_after_def)

abbreviation at :: "nat \<Rightarrow> byte list \<Rightarrow> istream" where
  "at p f \<equiv> \<lparr>content = f, pos = p\<rparr>"

lemma read_others_at:
  assumes "\<forall>f \<in> set fs. p + 4 * q \<le> length f" "length bs = length fs"
  shows "read_others q q (map (at p) fs) bs
    = Some (map (at (p + 4 * q)) fs,
            map2 (\<lambda>f b. fill (words_of (take (4 * q) (drop p f))) b) fs bs)"
  using assms
proof (induction fs arbitrary: bs)
  case (Cons f fs)
  then obtain b bs' where b: "bs = b # bs'" by (cases bs) auto
  with Cons show ?case using length_words_read [of p q f] by (simp add: fread_words_at)
qed simp

text \<open>One round over \<open>q\<close> whole words of every file, from position \<open>p\<close>.\<close>

lemma read_phase_at:
  assumes "0 < q" "fs \<noteq> []" "same_length n fs" "p + 4 * q \<le> n" "length (bufs st) = length fs"
    and "ins st = map (at p) fs"
  shows "\<exists>bs. read_phase q st = Some (st\<lparr>ins := map (at (p + 4 * q)) fs, bufs := bs, num0 := q\<rparr>)
    \<and> length bs = length fs \<and> map (take q) bs = map (\<lambda>f. words_of (take (4 * q) (drop p f))) fs"
proof -
  obtain f gs where fs: "fs = f # gs" using assms(2) by (cases fs) auto
  obtain b bs where b: "bufs st = b # bs" "length bs = length gs"
    using assms(5) fs by (cases "bufs st") auto
  have len: "\<forall>g \<in> set gs. p + 4 * q \<le> length g" "p + 4 * q \<le> length f"
    using assms(3,4) fs by (auto simp: same_length_def)
  let ?w = "\<lambda>g. words_of (take (4 * q) (drop p g))"
  let ?bs = "fill (?w f) b # map2 (\<lambda>g b. fill (?w g) b) gs bs"
  have "read_phase q st = Some (st\<lparr>ins := map (at (p + 4 * q)) fs, bufs := ?bs, num0 := q\<rparr>)"
    using assms(1,6) fs b read_others_at [OF len(1) b(2)] fread_words_at [OF len(2)]
      length_words_read [OF len(2)]
    by (simp add: read_phase_def)
  moreover have "map (take q) ?bs = map ?w fs"
    unfolding fs using len b(2)
  proof (induction gs arbitrary: bs)
    case Nil
    then show ?case using take_fill [of "?w f" b] length_words_read [of p q f] by simp
  next
    case (Cons g gs)
    then obtain c cs where "bs = c # cs" by (cases bs) auto
    with Cons take_fill [of "?w g" c] length_words_read [of p q g] show ?case by simp
  qed
  moreover have "length ?bs = length fs" using fs b(2) by simp
  ultimately show ?thesis by blast
qed

lemma foldl_take_nth:
  "i < q \<Longrightarrow> foldl (\<lambda>a b. a XOR b ! i) x (map (take q) bs) = foldl (\<lambda>a b. a XOR b ! i) x bs"
  by (induction bs arbitrary: x) simp_all

lemma take_xor_words:
  assumes "q \<le> length d"
  shows "take q (xor_words q d bs) = xor_words q (take q d) (map (take q) bs)"
  using assms by (simp add: xor_words_def foldl_take_nth)

text \<open>What a round writes: the parity of the bytes it has read.\<close>

lemma round_bytes:
  assumes "fs \<noteq> []" "same_length n fs" "p + 4 * q \<le> n" "b # bs = bufs'"
    and "map (take q) bufs' = map (\<lambda>f. words_of (take (4 * q) (drop p f))) fs"
  shows "bytes_of (take q (xor_words q b bs)) = take (4 * q) (drop p (parity fs))"
    and "length (take q (xor_words q b bs)) = q"
proof -
  obtain f gs where fs: "fs = f # gs" using assms(1) by (cases fs) auto
  let ?w = "\<lambda>g. words_of (take (4 * q) (drop p g))"
  from assms(4,5) fs have b: "take q b = ?w f" and bs: "map (take q) bs = map ?w gs" by auto
  have len: "\<forall>g \<in> set fs. p + 4 * q \<le> length g" using assms(2,3) by (auto simp: same_length_def)
  then have sl: "same_length q (take q b # map (take q) bs)"
    unfolding b bs using fs by (auto simp: same_length_def length_words_of)
  have "q \<le> length b" using b len fs length_words_read [of p q f]
    by (metis length_take list.set_intros(1) min.cobounded1)
  then have t: "take q (xor_words q b bs) = xor_words q (take q b) (map (take q) bs)"
    by (rule take_xor_words)
  have "map bytes_of (take q b # map (take q) bs) = map (\<lambda>g. take (4 * q) (drop p g)) fs"
    unfolding b bs fs using len fs bytes_words_read by auto
  then show "bytes_of (take q (xor_words q b bs)) = take (4 * q) (drop p (parity fs))"
    unfolding t bytes_of_xor_words [OF sl] using parity_take_drop [OF assms(1,2,3)] by simp
  show "length (take q (xor_words q b bs)) = q"
    unfolding t using sl by simp
qed

subsection \<open>The byte tail\<close>

lemma tail_others_at:
  "\<forall>g \<in> set gs. p < length g \<Longrightarrow>
    tail_others c (map (at p) gs) = (c XOR column gs p, map (at (Suc p)) gs)"
  by (induction gs arbitrary: c) (simp_all add: fgetc_char_def xor.assoc)

text \<open>
  The tail writes the parity from position \<open>p\<close> on, up to the first byte 0xFF of the first file
  or its end, whichever comes first.
\<close>

lemma tail_loop_at:
  assumes "same_length n (f # gs)" "p \<le> e" "e \<le> n" "\<forall>i. p \<le> i \<longrightarrow> i < e \<longrightarrow> f ! i \<noteq> 255"
    and "e = n \<or> f ! e = 255"
  shows "\<exists>s' gs'. tail_loop (at p f) (map (at p) gs) w x
    = (s', gs', out_after w (take (e - p) (drop p (parity (f # gs)))), x + int (e - p))
    \<and> content s' = f \<and> map content gs' = gs"
  using assms
proof (induction "e - p" arbitrary: p w x)
  case 0
  then have p: "p = e" by simp
  have "fst (fgetc_char (at p f)) = 255"
    using 0(2,6) p by (auto simp: fgetc_char_def)
  then have "tail_loop (at p f) (map (at p) gs) w x
      = (snd (fgetc_char (at p f)), map (at p) gs, w, x)"
    by (simp add: tail_loop.simps)
  moreover have "content (snd (fgetc_char (at p f))) = f" by (simp add: fgetc_char_def)
  moreover have "map content (map (at p) gs) = gs" by (simp add: comp_def)
  ultimately show ?case using p by simp
next
  case (Suc d)
  then have p: "p < e" "d = e - Suc p" "p < length f" by simp_all
  have g: "fgetc_char (at p f) = (f ! p, at (Suc p) f)" using p by (simp add: fgetc_char_def)
  have lens: "\<forall>g \<in> set gs. p < length g" using Suc(3) p by (auto simp: same_length_def)
  have c: "parity (f # gs) ! p = f ! p XOR column gs p"
    using parity_nth [OF _ Suc.prems(1), of p] p Suc.prems(1) by simp
  have step: "tail_loop (at p f) (map (at p) gs) w x = tail_loop (at (Suc p) f) (map (at (Suc p)) gs)
      (out_after w [parity (f # gs) ! p]) (x + 1)"
    using Suc.prems(4) p c
    by (simp add: tail_loop.simps [of "at p f"] g tail_others_at [OF lens] fputc_after)
  have "p < length (parity (f # gs))" using length_parity [OF _ Suc.prems(1)] p Suc.prems(3) by simp
  then have tk: "take (e - p) (drop p (parity (f # gs)))
      = parity (f # gs) ! p # take (e - Suc p) (drop (Suc p) (parity (f # gs)))"
    using take_Suc_drop [of p "parity (f # gs)" "e - Suc p"] Suc_diff_Suc [OF p(1)] by simp
  show ?case
    unfolding step tk
    using Suc.hyps(1) [OF p(2), of "out_after w [parity (f # gs) ! p]" "x + 1"] Suc.prems p by simp
qed


subsection \<open>Whole runs\<close>

text \<open>\<open>first_ff f n e\<close>: the tail of \<open>f\<close> after its whole words ends, for \<open>fgetc\<close>, at \<open>e\<close>.\<close>

definition tail_end :: "byte list \<Rightarrow> nat \<Rightarrow> bool" where
  "tail_end f e \<longleftrightarrow> 4 * (length f div 4) \<le> e \<and> e \<le> length f
     \<and> (\<forall>i. 4 * (length f div 4) \<le> i \<longrightarrow> i < e \<longrightarrow> f ! i \<noteq> 255) \<and> (e = length f \<or> f ! e = 255)"

definition no_ff_tail :: "byte list \<Rightarrow> bool" where
  "no_ff_tail f \<longleftrightarrow> (255 \<notin> set (drop (4 * (length f div 4)) f))"

lemma no_ff_tail_end: "no_ff_tail f \<Longrightarrow> tail_end f (length f)"
  by (auto simp: no_ff_tail_def tail_end_def in_set_conv_nth)
     (metis add_diff_inverse_nat diff_less_mono leD le_add_diff_inverse nth_drop)

lemma sdiv4_nonneg: "0 \<le> a \<Longrightarrow> a sdiv 4 = a div (4::int)"
  by (simp add: signed_divide_int_def sgn_if)

lemma round_words_bounds:
  assumes "p \<le> n"
  shows "0 \<le> round_words (int n) (int p)" "p + 4 * nat (round_words (int n) (int p)) \<le> n"
    "round_words (int n) (int p) = 0 \<longleftrightarrow> n < p + 4"
  using assms by (auto simp: round_words_def READ_SIZE_def sdiv4_nonneg)

lemma last_round_start: "p \<le> n \<Longrightarrow> n < p + 4 \<Longrightarrow> p mod 4 = 0 \<Longrightarrow> p = 4 * (n div (4::nat))"
  by presburger

lemma riad_iter_word_round:
  assumes fs: "fs \<noteq> []" "same_length n fs" and st: "ins st = map (at p) fs"
    "length (bufs st) = length fs" "xored st = int p"
    "outf st = out_after w (take p (parity fs))"
    and p: "p + 4 \<le> n" "p mod 4 = 0"
  shows "\<exists>q b bs. 0 < q \<and> p + 4 * q \<le> n \<and> Suc (length bs) = length fs \<and>
    riad_iter (int n) st =
      (let f = out_after w (take (p + 4 * q) (parity fs))
       in if p + 4 * q = n then Inr (Inr (RIGHT, f))
          else Inl (st\<lparr>ins := map (at (p + 4 * q)) fs, bufs := b # bs, num0 := q,
                       xored := int (p + 4 * q), outf := f\<rparr>))"
proof -
  define rs where "rs = round_words (int n) (int p)"
  have rs: "0 < rs" "p + 4 * nat rs \<le> n"
    using round_words_bounds [of p n] p by (auto simp: rs_def less_le)
  obtain bs' where rp: "read_phase (nat rs) st
      = Some (st\<lparr>ins := map (at (p + 4 * nat rs)) fs, bufs := bs', num0 := nat rs\<rparr>)"
    and bs': "length bs' = length fs"
      "map (take (nat rs)) bs' = map (\<lambda>f. words_of (take (4 * nat rs) (drop p f))) fs"
    using read_phase_at [OF _ fs rs(2) st(2) st(1)] rs(1) by auto
  obtain b bs where b: "bs' = b # bs" using bs'(1) fs(1) by (cases bs') auto
  note rb = round_bytes [OF fs rs(2) b [symmetric] bs'(2)]
  have fw: "snd (fwrite_words (take (nat rs) (xor_words (nat rs) b bs)) (outf st))
      = out_after w (take (p + 4 * nat rs) (parity fs))"
    using rb(1) st(4) by (simp add: fwrite_words_after take_add)
  have "riad_iter (int n) st = riad_xor (int n)
      (st\<lparr>ins := map (at (p + 4 * nat rs)) fs, bufs := bs', num0 := nat rs\<rparr>)"
    using rs(1) st(3) rp by (simp add: riad_iter_def Let_def rs_def [symmetric])
  also have "\<dots> = (let f = out_after w (take (p + 4 * nat rs) (parity fs))
       in if p + 4 * nat rs = n then Inr (Inr (RIGHT, f))
          else Inl (st\<lparr>ins := map (at (p + 4 * nat rs)) fs, bufs := xor_words (nat rs) b bs # bs,
                       num0 := nat rs, xored := int (p + 4 * nat rs), outf := f\<rparr>))"
    using st(3) rs fw by (auto simp: riad_xor_def b Let_def split: prod.splits)
  finally show ?thesis
    using rs bs'(1) b by (intro exI [of _ "nat rs"] exI [of _ "xor_words (nat rs) b bs"] exI [of _ bs]) simp
qed

lemma riad_iter_tail_round:
  assumes fs: "fs = f # gs" "same_length n fs" and st: "ins st = map (at p) fs" "xored st = int p"
    "outf st = out_after w (take p (parity fs))"
    and p: "p \<le> n" "n < p + 4" "p mod 4 = 0" and e: "tail_end f e"
  shows "\<exists>s' gs'. content s' = f \<and> map content gs' = gs \<and>
    riad_iter (int n) st =
      (let w' = out_after w (take e (parity fs))
       in if e = n then Inr (Inr (RIGHT, w'))
          else riad_xor (int n) (st\<lparr>ins := s' # gs', outf := w', xored := int e\<rparr>))"
proof -
  have pe: "p = 4 * (length f div 4)" using last_round_start [OF p] fs by simp
  have lf: "length f = n" using fs by simp
  have e': "p \<le> e" "e \<le> n" "\<forall>i. p \<le> i \<longrightarrow> i < e \<longrightarrow> f ! i \<noteq> 255" "e = n \<or> f ! e = 255"
    using e lf pe by (auto simp: tail_end_def)
  have w': "out_after (outf st) (take (e - p) (drop p (parity fs))) = out_after w (take e (parity fs))"
    using st(3) e'(1) take_add [of p "e - p" "parity fs"] by simp
  obtain s' gs' where t: "tail_loop (at p f) (map (at p) gs) (outf st) (int p)
      = (s', gs', out_after w (take e (parity fs)), int p + int (e - p))"
    and c: "content s' = f" "map content gs' = gs"
    using tail_loop_at [OF fs(2) [unfolded fs(1)] e', of "outf st" "int p"] w' fs(1) by auto
  have fds: "(if int n \<noteq> xored st then map (fseek_set (nat (xored st))) (ins st) else ins st)
      = at p f # map (at p) gs"
    using st fs by (simp add: fseek_set_def comp_def)
  have tl: "riad_tail (int n) st = Inr (st\<lparr>ins := s' # gs',
      outf := out_after w (take e (parity fs)), xored := int e\<rparr>)"
    unfolding riad_tail_def Let_def fds using t st(2) e'(1) by simp
  have "riad_iter (int n) st =
      (let w' = out_after w (take e (parity fs))
       in if e = n then Inr (Inr (RIGHT, w'))
          else riad_xor (int n) (st\<lparr>ins := s' # gs', outf := w', xored := int e\<rparr>))"
    using round_words_bounds [of p n] p st(2) tl by (simp add: riad_iter_def Let_def read_phase_def)
  with c show ?thesis by blast
qed


text \<open>
  The state at the head of the loop after \<open>p\<close> bytes, a multiple of four; \<open>num0\<close> still holds
  the size of the last read.
\<close>

definition riad_inv :: "byte list list \<Rightarrow> nat \<Rightarrow> ostream \<Rightarrow> riad \<Rightarrow> bool" where
  "riad_inv fs n w st \<longleftrightarrow>
     (\<exists>p. p \<le> n \<and> p mod 4 = 0 \<and> ins st = map (at p) fs \<and> length (bufs st) = length fs
        \<and> xored st = int p \<and> outf st = out_after w (take p (parity fs))
        \<and> (4 \<le> n \<longrightarrow> 0 < p \<longrightarrow> 0 < num0 st) \<and> (n < 4 \<longrightarrow> num0 st = 0))"

definition riad_start :: "byte list list \<Rightarrow> ostream \<Rightarrow> riad" where
  "riad_start fs w = \<lparr>ins = map (at 0) fs, bufs = replicate (length fs) [], num0 = 0, xored = 0, outf = w\<rparr>"

lemma riad_inv_start: "riad_inv fs n w (riad_start fs w)"
  by (auto simp: riad_inv_def riad_start_def intro!: exI [of _ 0])

lemma s_riad_eq:
  "\<forall>i < length fs. alloc i \<Longrightarrow>
    s_riad alloc w n (map (at 0) fs) = run_loop (riad_iter n) (riad_start fs w)"
  by (auto simp: s_riad_def riad_start_def)

text \<open>What one round does in a state of the invariant, by how the tail of the first file ends.\<close>

lemma riad_iter_inv:
  assumes fs: "fs \<noteq> []" "same_length n fs" and inv: "riad_inv fs n w st" and e: "tail_end (hd fs) e"
  shows "case riad_iter (int n) st of
      Inl st' \<Rightarrow> n < 4 \<and> e < n \<or> riad_inv fs n w st' \<and> nat (int n - xored st') < nat (int n - xored st)
    | Inr r \<Rightarrow> (if e = n then r = Inr (RIGHT, out_after w (parity fs))
               else 4 \<le> n \<and> (\<exists>f. r = Inr (ERROR_XOR_FILE, f)))"
proof -
  from inv obtain p where P: "p \<le> n \<and> p mod 4 = 0 \<and> ins st = map (at p) fs
      \<and> length (bufs st) = length fs \<and> xored st = int p \<and> outf st = out_after w (take p (parity fs))
      \<and> (4 \<le> n \<longrightarrow> 0 < p \<longrightarrow> 0 < num0 st) \<and> (n < 4 \<longrightarrow> num0 st = 0)"
    unfolding riad_inv_def by (rule exE)
  then have p: "p \<le> n" "p mod 4 = 0" and st: "ins st = map (at p) fs" "length (bufs st) = length fs"
      "xored st = int p" "outf st = out_after w (take p (parity fs))" "4 \<le> n \<longrightarrow> 0 < p \<longrightarrow> 0 < num0 st" "n < 4 \<longrightarrow> num0 st = 0"
    by simp_all
  have en: "e \<le> n" "4 * (n div 4) \<le> e" using e fs by (cases fs; simp add: tail_end_def)+
  have all: "take n (parity fs) = parity fs" using same_length_hd [OF fs] by simp
  show ?thesis
  proof (cases "p + 4 \<le> n")
    case True
    obtain q b bs where q: "0 < q" "p + 4 * q \<le> n" "Suc (length bs) = length fs"
      and it: "riad_iter (int n) st = (let f = out_after w (take (p + 4 * q) (parity fs))
       in if p + 4 * q = n then Inr (Inr (RIGHT, f))
          else Inl (st\<lparr>ins := map (at (p + 4 * q)) fs, bufs := b # bs, num0 := q,
                       xored := int (p + 4 * q), outf := f\<rparr>))"
      using riad_iter_word_round [OF fs st(1-4) True p(2)] by blast
    show ?thesis
    proof (cases "p + 4 * q = n")
      case end_: True
      then have "n mod 4 = 0" using p(2) by presburger
      then have "e = n" using en by presburger
      with end_ it all show ?thesis by simp
    next
      case False
      let ?st = "st\<lparr>ins := map (at (p + 4 * q)) fs, bufs := b # bs, num0 := q,
          xored := int (p + 4 * q), outf := out_after w (take (p + 4 * q) (parity fs))\<rparr>"
      have "(p + 4 * q) mod 4 = 0" using p(2) by presburger
      then have "riad_inv fs n w ?st"
        unfolding riad_inv_def using q True by (intro exI [of _ "p + 4 * q"]) simp
      moreover have "nat (int n - xored ?st) < nat (int n - xored st)" using q st(3) by simp
      ultimately show ?thesis using False it by (simp add: Let_def)
    qed
  next
    case False
    then have pn: "n < p + 4" by simp
    obtain f gs where f: "fs = f # gs" using fs(1) by (cases fs) auto
    have ef: "tail_end f e" using e f by simp
    obtain s' gs' where it: "riad_iter (int n) st = (let w' = out_after w (take e (parity fs))
       in if e = n then Inr (Inr (RIGHT, w'))
          else riad_xor (int n) (st\<lparr>ins := s' # gs', outf := w', xored := int e\<rparr>))"
      using riad_iter_tail_round [OF f fs(2) st(1,3,4) p(1) pn p(2) ef] by blast
    show ?thesis
    proof (cases "e = n")
      case True
      with it all show ?thesis by simp
    next
      case e': False
      obtain b bs where b: "bufs st = b # bs" using st(2) f by (cases "bufs st") auto
      have pe: "p \<le> e" using last_round_start [OF p(1) pn p(2)] en(2) by simp
      let ?st = "st\<lparr>ins := s' # gs', outf := out_after w (take e (parity fs)), xored := int e\<rparr>"
      have grown: "4 \<le> n \<Longrightarrow> int n < int e + int (num0 st) * 4" using st(5) p pn pe by auto
      have "int e + int (num0 st) * 4 \<noteq> int n" "int n < int e + int (num0 st) * 4 \<Longrightarrow> 4 \<le> n"
        using grown st(6) e' en(1) by (cases "4 \<le> n"; simp)+
      then show ?thesis using it e' en(1) b grown
        by (auto simp: riad_xor_def Let_def split: prod.splits if_splits sum.splits)
    qed
  qed
qed

text \<open>A group whose first file has no byte 0xFF after its whole words: parity, always.\<close>

lemma s_riad_right:
  assumes "fs \<noteq> []" "same_length n fs" "\<forall>i < length fs. alloc i" "no_ff_tail (hd fs)"
  shows "s_riad alloc w (int n) (map (at 0) fs) = Some (Inr (RIGHT, out_after w (parity fs)))"
proof -
  have e: "tail_end (hd fs) n" using no_ff_tail_end [OF assms(4)] assms(1,2) by (cases fs) auto
  have "\<exists>r. run_loop (riad_iter (int n)) (riad_start fs w) = Some r
      \<and> r = Inr (RIGHT, out_after w (parity fs))"
  proof (rule run_loop_total [where I = "riad_inv fs n w" and m = "\<lambda>st. nat (int n - xored st)"])
    fix st assume "riad_inv fs n w st"
    from riad_iter_inv [OF assms(1,2) this e]
    show "case riad_iter (int n) st of
        Inl s' \<Rightarrow> riad_inv fs n w s' \<and> nat (int n - xored s') < nat (int n - xored st)
      | Inr r \<Rightarrow> r = Inr (RIGHT, out_after w (parity fs))"
      by (auto split: sum.splits)
  qed (rule riad_inv_start)
  then show ?thesis using assms(3) by (simp add: s_riad_eq)
qed

lemma not_no_ff_tail_end: "\<not> no_ff_tail f \<Longrightarrow> \<exists>e < length f. tail_end f e"
proof -
  assume "\<not> no_ff_tail f"
  then obtain j where "j < length f - 4 * (length f div 4)" "f ! (4 * (length f div 4) + j) = 255"
    by (auto simp: no_ff_tail_def in_set_conv_nth)
  then have "\<exists>i. 4 * (length f div 4) \<le> i \<and> i < length f \<and> f ! i = 255"
    by (intro exI [of _ "4 * (length f div 4) + j"]) auto
  then obtain e where e: "4 * (length f div 4) \<le> e \<and> e < length f \<and> f ! e = 255"
      "\<forall>i < e. \<not> (4 * (length f div 4) \<le> i \<and> i < length f \<and> f ! i = 255)"
    using exists_least_iff [of "\<lambda>i. 4 * (length f div 4) \<le> i \<and> i < length f \<and> f ! i = 255"] by auto
  then have "tail_end f e" by (auto simp: tail_end_def)
  with e(1) show ?thesis by blast
qed

text \<open>A byte 0xFF in that tail: a spurious failure for files of four bytes or more.\<close>

lemma s_riad_ff_error:
  assumes "fs \<noteq> []" "same_length n fs" "\<forall>i < length fs. alloc i" "\<not> no_ff_tail (hd fs)" "4 \<le> n"
  shows "\<exists>f. s_riad alloc w (int n) (map (at 0) fs) = Some (Inr (ERROR_XOR_FILE, f))"
proof -
  obtain e where e: "tail_end (hd fs) e" "e < n"
    using not_no_ff_tail_end [OF assms(4)] assms(1,2) by (cases fs) auto
  have "\<exists>r. run_loop (riad_iter (int n)) (riad_start fs w) = Some r
      \<and> (\<exists>f. r = Inr (ERROR_XOR_FILE, f))"
  proof (rule run_loop_total [where I = "riad_inv fs n w" and m = "\<lambda>st. nat (int n - xored st)"])
    fix st assume "riad_inv fs n w st"
    from riad_iter_inv [OF assms(1,2) this e(1)]
    show "case riad_iter (int n) st of
        Inl s' \<Rightarrow> riad_inv fs n w s' \<and> nat (int n - xored s') < nat (int n - xored st)
      | Inr r \<Rightarrow> \<exists>f. r = Inr (ERROR_XOR_FILE, f)"
      using e(2) assms(5) by (auto split: sum.splits)
  qed (rule riad_inv_start)
  then show ?thesis using assms(3) by (auto simp: s_riad_eq)
qed


text \<open>
  A byte 0xFF in a file of fewer than four bytes: every later round seeks back to that byte, so
  the loop never ends.
\<close>

definition riad_stuck :: "byte list list \<Rightarrow> nat \<Rightarrow> riad \<Rightarrow> bool" where
  "riad_stuck fs e st \<longleftrightarrow>
     map content (ins st) = fs \<and> length (bufs st) = length fs \<and> xored st = int e \<and> num0 st = 0"

lemma riad_iter_stuck:
  assumes fs: "fs \<noteq> []" "length (hd fs) = n" and n: "n < 4" "e < n" "hd fs ! e = 255"
    and st: "riad_stuck fs e st"
  shows "\<exists>st'. riad_iter (int n) st = Inl st' \<and> riad_stuck fs e st'"
proof -
  obtain s ss where ins: "ins st = s # ss" "content s = hd fs" "map content ss = tl fs"
    using st fs by (cases "ins st") (auto simp: riad_stuck_def)
  obtain b bs where b: "bufs st = b # bs" using st fs by (cases "bufs st") (auto simp: riad_stuck_def)
  have x: "xored st = int e" "num0 st = 0" using st by (simp_all add: riad_stuck_def)
  let ?s = "fseek_set e s" and ?ss = "map (fseek_set e) ss"
  have c: "fst (fgetc_char ?s) = 255" "content (snd (fgetc_char ?s)) = hd fs"
    using ins(2) n fs by (simp_all add: fseek_set_def fgetc_char_def)
  have "tail_loop ?s ?ss (outf st) (int e) = (snd (fgetc_char ?s), ?ss, outf st, int e)"
    using c by (simp add: tail_loop.simps [of ?s])
  then have tl: "riad_tail (int n) st = Inr (st\<lparr>ins := snd (fgetc_char ?s) # ?ss, xored := int e\<rparr>)"
    using x ins n by (simp add: riad_tail_def)
  have "round_words (int n) (int e) = 0" using round_words_bounds(3) [of e n] n by simp
  then have "riad_iter (int n) st = riad_xor (int n) (st\<lparr>ins := snd (fgetc_char ?s) # ?ss, xored := int e\<rparr>)"
    using x tl n by (simp add: riad_iter_def read_phase_def)
  then have "\<exists>b' f. riad_iter (int n) st = Inl (st\<lparr>ins := snd (fgetc_char ?s) # ?ss,
      bufs := b' # bs, outf := f, xored := int e\<rparr>)"
    using b x n by (auto simp: riad_xor_def Let_def split: prod.splits)
  moreover have "map content ?ss = tl fs" using ins(3) by (simp add: fseek_set_def comp_def)
  ultimately show ?thesis using c(2) fs st b by (auto simp: riad_stuck_def)
qed

lemma s_riad_ff_diverges:
  assumes "fs \<noteq> []" "same_length n fs" "\<forall>i < length fs. alloc i" "\<not> no_ff_tail (hd fs)" "n < 4"
  shows "s_riad alloc w (int n) (map (at 0) fs) = None"
proof -
  obtain e where e: "tail_end (hd fs) e" "e < n" and len: "length (hd fs) = n"
    using not_no_ff_tail_end [OF assms(4)] assms(1,2) by (cases fs) auto
  have ff: "hd fs ! e = 255" using e len by (auto simp: tail_end_def)
  from riad_iter_inv [OF assms(1,2) riad_inv_start [of fs n w] e(1)]
  obtain st' where it: "riad_iter (int n) (riad_start fs w) = Inl st'"
    using e(2) assms(5) by (auto split: sum.splits)
  have "riad_stuck fs e st'"
  proof -
    obtain f gs where f: "fs = f # gs" using assms(1) by (cases fs) auto
    then have ef: "tail_end f e" using e(1) by simp
    have "\<exists>s' gs'. content s' = f \<and> map content gs' = gs \<and>
      riad_iter (int n) (riad_start fs w) =
        (let w' = out_after w (take e (parity fs))
         in if e = n then Inr (Inr (RIGHT, w'))
            else riad_xor (int n) ((riad_start fs w)\<lparr>ins := s' # gs', outf := w', xored := int e\<rparr>))"
      using riad_iter_tail_round [OF f assms(2) _ _ _ _ _ _ ef, of "riad_start fs w" 0 w] assms(5)
      by (simp add: riad_start_def)
    then show ?thesis
      using it e(2) f by (auto simp: riad_stuck_def riad_xor_def riad_start_def Let_def
          split: prod.splits if_splits)
  qed
  then have "run_loop (riad_iter (int n)) st' = None"
    using riad_iter_stuck [OF assms(1) len assms(5) e(2) ff]
    by (rule run_loop_diverges [where I = "riad_stuck fs e"])
  then show ?thesis using it assms(3) by (simp add: s_riad_eq run_loop_again)
qed


text \<open>
  Files shorter than \<open>st_size\<close> says (the size of a symbolic link, a file cut after \<open>lstat\<close>):
  once the whole words are used up, \<open>fread\<close> returns 0 and the rounds make no progress.
\<close>

lemma read_others_same:
  assumes "same_length m fs" "length bs = length fs"
  shows "\<exists>bs'. read_others q (min (m - p) (4 * q) div 4) (map (at p) fs) bs
    = Some (map (at (p + min (m - p) (4 * q))) fs, bs') \<and> length bs' = length fs"
  using assms
proof (induction fs arbitrary: bs)
  case (Cons f fs)
  obtain b bs1 where b: "bs = b # bs1" "length bs1 = length fs" using Cons.prems by (cases bs) auto
  obtain bs' where "read_others q (min (m - p) (4 * q) div 4)
      (map (at p) fs) bs1 = Some (map (at (p + min (m - p) (4 * q))) fs, bs')" "length bs' = length fs"
    using Cons.IH [OF _ b(2)] Cons.prems(1) by auto
  then show ?case using Cons.prems(1) b by (auto simp: fread_words_def Let_def length_words_of)
qed simp

definition riad_short :: "byte list list \<Rightarrow> nat \<Rightarrow> riad \<Rightarrow> bool" where
  "riad_short fs m st \<longleftrightarrow> (\<exists>p x. ins st = map (at p) fs \<and> length (bufs st) = length fs
     \<and> xored st = int (4 * x) \<and> 4 * x \<le> p \<and> p \<le> m)"

lemma riad_iter_short:
  assumes fs: "fs \<noteq> []" "same_length m fs" and n: "4 * (m div 4) + 4 \<le> n" and st: "riad_short fs m st"
  shows "\<exists>st'. riad_iter (int n) st = Inl st' \<and> riad_short fs m st'"
proof -
  obtain p x where px: "ins st = map (at p) fs" "length (bufs st) = length fs" "xored st = int (4 * x)"
      "4 * x \<le> p" "p \<le> m"
    using st by (auto simp: riad_short_def)
  obtain f gs where f: "fs = f # gs" using fs(1) by (cases fs) auto
  obtain b bs where b: "bufs st = b # bs" "length bs = length gs" using px(2) f by (cases "bufs st") auto
  define q where "q = nat (round_words (int n) (4 * int x))"
  have "x \<le> m div 4" using px(4,5) by presburger
  then have x4: "4 * x + 4 \<le> n" using n by simp
  then have q: "0 < round_words (int n) (4 * int x)" "0 < q"
    using round_words_bounds [of "4 * x" n] by (auto simp: q_def less_le)
  define k where "k = min (m - p) (4 * q) div 4"
  obtain bs' where ro: "read_others q k (map (at p) gs) bs = Some (map (at (p + min (m - p) (4 * q))) gs, bs')"
      "length bs' = length gs"
    using read_others_same [OF _ b(2), of m q p] fs(2) f by (auto simp: k_def)
  have fr: "fread_words q (at p f) = (words_of (take (4 * q) (drop p f)), at (p + min (m - p) (4 * q)) f)"
      "length (words_of (take (4 * q) (drop p f))) = k"
    using fs(2) f by (simp_all add: fread_words_def Let_def length_words_of k_def)
  define b' where "b' = fill (words_of (take (4 * q) (drop p f))) b"
  have "ins st = at p f # map (at p) gs" using px(1) f by simp
  then have rp: "read_phase q st = Some (st\<lparr>ins := map (at (p + min (m - p) (4 * q))) fs,
      bufs := b' # bs', num0 := k\<rparr>)"
    unfolding read_phase_def f b'_def using q(2) b(1) by simp (simp only: fr ro prod.case option.case)
  have grow: "4 * (x + k) \<le> p + min (m - p) (4 * q)" "p + min (m - p) (4 * q) \<le> m"
    using px(4,5) by (auto simp: k_def)
  then have "4 * (x + k) \<le> m" by (rule order_trans)
  then have "x + k \<le> m div 4" by (simp add: less_eq_div_iff_mult_less_eq mult.commute)
  then have "4 * (x + k) < n" using n by simp
  then have "int (4 * (x + k)) < int n" by (simp only: of_nat_less_iff)
  then have lt: "int (4 * x) + int k * 4 < int n" by simp
  let ?d = "xor_words k b' bs'"
  let ?st = "st\<lparr>ins := map (at (p + min (m - p) (4 * q))) fs, bufs := ?d # bs', num0 := k,
      outf := snd (fwrite_words (take k ?d) (outf st)), xored := int (4 * x) + int k * 4\<rparr>"
  have "riad_iter (int n) st = Inl ?st"
    using q rp px(3) lt by (simp add: riad_iter_def riad_xor_def Let_def q_def [symmetric])
  moreover have "riad_short fs m ?st"
    unfolding riad_short_def using grow ro(2) f
    by (intro exI [of _ "p + min (m - p) (4 * q)"] exI [of _ "x + k"]) simp
  ultimately show ?thesis by blast
qed

lemma s_riad_short_diverges:
  assumes "fs \<noteq> []" "same_length m fs" "\<forall>i < length fs. alloc i" "4 * (m div 4) + 4 \<le> n"
  shows "s_riad alloc w (int n) (map (at 0) fs) = None"
proof -
  have "riad_short fs m (riad_start fs w)" by (auto simp: riad_short_def riad_start_def intro!: exI [of _ 0])
  then have "run_loop (riad_iter (int n)) (riad_start fs w) = None"
    using riad_iter_short [OF assms(1,2,4)] by (rule run_loop_diverges [where I = "riad_short fs m"])
  then show ?thesis using assms(3) by (simp add: s_riad_eq)
qed

subsection \<open>\<open>s_riad\<close> as an XOR kernel\<close>

definition riad_kernel :: "byte list list \<Rightarrow> byte list" where
  "riad_kernel fs =
     (case s_riad (\<lambda>_. True) \<lparr>written = [], room = length (hd fs)\<rparr> (int (length (hd fs))) (map (at 0) fs) of
        Some (Inr (ret, f)) \<Rightarrow> if ret = RIGHT then written f else []
      | _ \<Rightarrow> [])"

definition riad_accepts :: "nat \<Rightarrow> byte list list \<Rightarrow> bool" where
  "riad_accepts n fs \<longleftrightarrow> fs \<noteq> [] \<and> same_length n fs \<and> no_ff_tail (hd fs)"

interpretation riad: xor_kernel riad_kernel riad_accepts
proof unfold_locales
  fix n :: nat and fs :: "byte list list"
  assume a: "riad_accepts n fs"
  then show "fs \<noteq> [] \<and> same_length n fs" by (simp add: riad_accepts_def)
  have "length (hd fs) = n" using a by (cases fs) (auto simp: riad_accepts_def)
  moreover have "written (out_after \<lparr>written = [], room = n\<rparr> (parity fs)) = parity fs"
    using a by (cases fs) (simp_all add: riad_accepts_def out_after_fits)
  ultimately show "riad_kernel fs = parity fs"
    using a s_riad_right [of fs n "\<lambda>_. True" "\<lparr>written = [], room = n\<rparr>"]
    by (simp add: riad_kernel_def riad_accepts_def)
qed

subsection \<open>Requests\<close>

lemma open_inputs_all:
  "\<forall>(p, c) \<in> set (zip ps cs). fopen_r os p = Some c \<Longrightarrow> length cs = length ps
    \<Longrightarrow> open_inputs os ps acc = Inr (acc @ map (at 0) cs)"
proof (induction ps arbitrary: cs acc)
  case (Cons p ps)
  then show ?case by (cases cs) auto
qed simp

lemma open_inputs_open:
  "\<forall>p \<in> set ps. fopen_r os p \<noteq> None
    \<Longrightarrow> open_inputs os ps acc = Inr (acc @ map (\<lambda>p. at 0 (the (fopen_r os p))) ps)"
  by (induction ps arbitrary: acc) auto

lemma open_inputs_missing:
  "\<forall>p \<in> set ps. fopen_r os p \<noteq> None \<Longrightarrow> fopen_r os q = None
    \<Longrightarrow> open_inputs os (ps @ q # qs) acc = Inl (length acc + length ps)"
  by (induction ps arbitrary: acc) auto

text \<open>The group of a request: its paths open to \<open>fs\<close>, and \<open>lstat\<close> gives each the size \<open>n\<close>.\<close>

definition group_files :: "posix \<Rightarrow> string list \<Rightarrow> byte list list \<Rightarrow> nat \<Rightarrow> bool" where
  "group_files os ps fs n \<longleftrightarrow>
     ps \<noteq> [] \<and> length ps \<le> MAX_FILE_NUM \<and> length fs = length ps
     \<and> (\<forall>(p, c) \<in> set (zip ps fs). fopen_r os p = Some c)
     \<and> (\<forall>p \<in> set ps. lstat_size os p = Some (int n)) \<and> (\<forall>i < length ps. malloc_ok os i)"

lemma open_file_group:
  assumes "group_files os ps fs n" "fopen_w os (out_path name) = Some r"
  shows "open_file os name ps = map_option (\<lambda>res. bindE res (\<lambda>(ret, f). Inr
      (if ret < 0 then \<lparr>code = ret, produced = Some (out_path name, f), left_open = Suc (length ps)\<rparr>
       else \<lparr>code = RIGHT, produced = Some (out_path name, f), left_open = 0\<rparr>)))
      (s_riad (malloc_ok os) \<lparr>written = [], room = r\<rparr> (int n) (map (at 0) fs))"
proof -
  have "common_size os ps = Some (int n)"
    using assms(1) by (cases ps) (auto simp: group_files_def common_size_def stat_size_def)
  moreover have "open_inputs os ps [] = Inr (map (at 0) fs)"
    using assms(1) open_inputs_all [of ps fs os "[]"] by (simp add: group_files_def)
  moreover have "length ps \<le> MAX_FILE_NUM" "length fs = length ps"
    using assms(1) by (simp_all add: group_files_def)
  ultimately show ?thesis using assms(2) by (simp add: open_file_def not_less [symmetric] cong: if_cong)
qed


lemma common_size_Some:
  "common_size os ps \<noteq> None \<Longrightarrow> p \<in> set ps \<Longrightarrow> q \<in> set ps \<Longrightarrow> stat_size os p = stat_size os q"
  by (cases ps) (auto simp: common_size_def split: if_splits)

lemma riad_iter_never_fwrite:
  "riad_iter n st = Inr (Inr (ret, f)) \<Longrightarrow> ret \<in> {RIGHT, ERROR_FREAD_FILE, ERROR_XOR_FILE}"
  by (auto simp: riad_iter_def riad_xor_def Let_def split: if_splits option.splits sum.splits list.splits)

lemma open_file_right:
  assumes "group_files os ps fs n" "same_length n fs" "no_ff_tail (hd fs)"
    and "fopen_w os (out_path name) = Some r" "n \<le> r"
  shows "open_file os name ps = Some (Inr \<lparr>code = RIGHT,
           produced = Some (out_path name, \<lparr>written = parity fs, room = r - n\<rparr>), left_open = 0\<rparr>)"
proof -
  have fs: "fs \<noteq> []" "\<forall>i < length fs. malloc_ok os i" using assms(1) by (auto simp: group_files_def)
  have "out_after \<lparr>written = [], room = r\<rparr> (parity fs) = \<lparr>written = parity fs, room = r - n\<rparr>"
    using same_length_hd [OF fs(1) assms(2)] assms(5) by (simp add: out_after_def)
  then show ?thesis
    using open_file_group [OF assms(1,4)] s_riad_right [OF fs(1) assms(2) fs(2) assms(3)]
    by (simp add: RIGHT_def)
qed

lemma open_file_missing:
  assumes "length as < MAX_FILE_NUM" "\<forall>p \<in> set as. fopen_r os p \<noteq> None" "fopen_r os q = None"
  shows "open_file os name (as @ q # bs) = Some (Inr \<lparr>code = ERROR_FILE_OPEN, produced = None, left_open = length as\<rparr>)"
proof -
  obtain k where "MAX_FILE_NUM - length as = Suc k" using assms(1) by (cases "MAX_FILE_NUM - length as") auto
  then have "take MAX_FILE_NUM (as @ q # bs) = as @ q # take k bs" using assms(1) by simp
  then show ?thesis using open_inputs_missing [OF assms(2,3), of "take k bs" "[]"] by (simp add: open_file_def)
qed

lemma open_file_s_riad:
  assumes "length ps \<le> MAX_FILE_NUM" "\<forall>p \<in> set ps. fopen_r os p \<noteq> None" "fopen_w os (out_path name) = Some r"
    and "\<forall>p \<in> set ps. stat_size os p = k" "ps \<noteq> []"
  shows "open_file os name ps = map_option (\<lambda>res. bindE res (\<lambda>(ret, f). Inr
      (if ret < 0 then \<lparr>code = ret, produced = Some (out_path name, f), left_open = Suc (length ps)\<rparr>
       else \<lparr>code = RIGHT, produced = Some (out_path name, f), left_open = 0\<rparr>)))
      (s_riad (malloc_ok os) \<lparr>written = [], room = r\<rparr> k (map (\<lambda>p. at 0 (the (fopen_r os p))) ps))"
proof -
  have "common_size os ps = Some k" using assms(4,5) by (cases ps) (auto simp: common_size_def)
  then show ?thesis using open_inputs_open [OF assms(2), of "[]"] assms(1,3) by (simp add: open_file_def cong: if_cong)
qed

lemma open_file_no_memory:
  assumes "length ps \<le> MAX_FILE_NUM" "\<forall>p \<in> set ps. fopen_r os p \<noteq> None" "fopen_w os (out_path name) = Some r"
    and "\<forall>p \<in> set ps. stat_size os p = k" "i < length ps" "\<not> malloc_ok os i"
  shows "open_file os name ps = Some (Inr \<lparr>code = ERROR_APPLY_MALLOC,
    produced = Some (out_path name, \<lparr>written = [], room = r\<rparr>), left_open = Suc (length ps)\<rparr>)"
proof -
  have "ps \<noteq> []" "s_riad (malloc_ok os) \<lparr>written = [], room = r\<rparr> k (map (\<lambda>p. at 0 (the (fopen_r os p))) ps)
      = Some (Inr (ERROR_APPLY_MALLOC, \<lparr>written = [], room = r\<rparr>))"
    using assms(5,6) by (auto simp: s_riad_def)
  then show ?thesis using open_file_s_riad [OF assms(1-4)] by (simp add: codes)
qed

lemma common_size_differ: "\<exists>p \<in> set ps. \<exists>q \<in> set ps. stat_size os p \<noteq> stat_size os q \<Longrightarrow> common_size os ps = None"
  using common_size_Some by blast

lemma s_riad_no_files: "s_riad alloc w 0 [] = Some (Inl Uninitialised)"
proof -
  have "run_loop (riad_iter 0) \<lparr>ins = [], bufs = [], num0 = 0, xored = 0, outf = w\<rparr> = Some (Inl Uninitialised)"
    by (rule run_loop_exit)
       (simp add: riad_iter_def round_words_def READ_SIZE_def read_phase_def riad_tail_def)
  then show ?thesis by (simp add: s_riad_def)
qed

subsection \<open>Properties\<close>

text \<open>C18. A local request answers with success and the parity of its files: a group of files of
  one length, the first without a byte 0xFF after its whole 4-byte words, gives \<open>RIGHT\<close>, an output
  file whose bytes are the XOR of the files' bytes, and no stream left open.\<close>

theorem open_file_parity:
  assumes "group_files os ps fs n" "same_length n fs" "no_ff_tail (hd fs)"
    and "fopen_w os (out_path name) = Some r" "n \<le> r"
  shows "open_file os name ps = Some (Inr \<lparr>code = RIGHT,
           produced = Some (out_path name, \<lparr>written = parity fs, room = r - n\<rparr>), left_open = 0\<rparr>)"
  using assms by (rule open_file_right)

definition demo_os :: posix where
  "demo_os = \<lparr>fopen_r = (\<lambda>p. if p = ''a'' then Some [1, 2, 3, 4, 5] else if p = ''b'' then Some [6, 7, 8, 9, 255] else None),
     fopen_w = (\<lambda>_. Some 100), lstat_size = (\<lambda>p. if p = ''a'' \<or> p = ''b'' then Some 5 else None), malloc_ok = (\<lambda>_. True)\<rparr>"

theorem open_file_parity_witness:
  "open_file demo_os ''o'' [''a'', ''b''] = Some (Inr \<lparr>code = RIGHT,
     produced = Some (''/home/file/o'', \<lparr>written = [7, 5, 11, 13, 250], room = 95\<rparr>), left_open = 0\<rparr>)"
proof -
  have g: "group_files demo_os [''a'', ''b''] [[1, 2, 3, 4, 5], [6, 7, 8, 9, 255]] 5"
    by (simp add: group_files_def demo_os_def MAX_FILE_NUM_def)
  have s: "same_length 5 [[1, 2, 3, 4, 5], [6, 7, 8, 9, 255::byte]]" by simp
  have t: "no_ff_tail (hd [[1, 2, 3, 4, 5], [6, 7, 8, 9, 255]])" by (simp add: no_ff_tail_def)
  have w: "fopen_w demo_os (out_path ''o'') = Some 100" by (simp add: demo_os_def)
  have p: "parity [[1, 2, 3, 4, 5], [6, 7, 8, 9, 255]] = [7, 5, 11, 13, 250]"
    by (simp add: parity_def upt_conv_Cons)
  show ?thesis using open_file_parity [OF g s t w] p by (simp add: out_path_def)
qed

text \<open>C24. The verdict of \<open>s_riad\<close> on every group of files of one length, whatever the room on the
  output device: success if the first file has no byte 0xFF after its whole words; otherwise the
  error \<open>ERROR_XOR_FILE\<close> for files of four bytes or more, and a loop that never ends for
  shorter ones (\<open>fgetc\<close> is kept in a \<open>char\<close>, where 0xFF and \<open>EOF\<close> are the same).\<close>

theorem s_riad_verdict:
  assumes "fs \<noteq> []" "same_length n fs" "\<forall>i < length fs. alloc i"
  shows "map_option (map_sum id fst) (s_riad alloc w (int n) (map (at 0) fs)) =
    (if no_ff_tail (hd fs) then Some (Inr RIGHT)
     else if 4 \<le> n then Some (Inr ERROR_XOR_FILE) else None)"
proof (cases "no_ff_tail (hd fs)")
  case True
  with s_riad_right [OF assms True] show ?thesis by simp
next
  case False
  show ?thesis
  proof (cases "4 \<le> n")
    case True
    with s_riad_ff_error [OF assms False True, of w] False show ?thesis by auto
  next
    case less: False
    with s_riad_ff_diverges [OF assms False, of w] False show ?thesis by simp
  qed
qed

theorem s_riad_verdict_witness:
  "s_riad (\<lambda>_. True) \<lparr>written = [], room = 9\<rparr> (int 1) (map (at 0) [[255], [0]]) = None"
  using s_riad_verdict [of "[[255], [0]]" 1 "\<lambda>_. True" "\<lparr>written = [], room = 9\<rparr>"]
  by (simp add: no_ff_tail_def)

text \<open>C25. What the parity file is for: the XOR routine run on the parity file and the files that are
  left gives the bytes of the file that was lost.\<close>

theorem s_riad_recovers_lost_file:
  assumes "riad_accepts n (as @ f # bs)" "riad_accepts n (riad_kernel (as @ f # bs) # as @ bs)"
  shows "riad_kernel (riad_kernel (as @ f # bs) # as @ bs) = f"
  using assms by (rule riad.kernel_recovers)

theorem s_riad_recovers_lost_file_witness:
  "riad_kernel (riad_kernel ([[1, 2, 3, 4]] @ [5, 6, 7, 8] # [[9, 10, 11, 12]])
     # [[1, 2, 3, 4]] @ [[9, 10, 11, 12]]) = [5, 6, 7, 8]"
proof (rule s_riad_recovers_lost_file [of 4])
  show a: "riad_accepts 4 ([[1, 2, 3, 4]] @ [5, 6, 7, 8] # [[9, 10, 11, 12]])"
    by (simp add: riad_accepts_def no_ff_tail_def)
  from riad.kernel_length [OF a]
  show "riad_accepts 4 (riad_kernel ([[1, 2, 3, 4]] @ [5, 6, 7, 8] # [[9, 10, 11, 12]])
      # [[1, 2, 3, 4]] @ [[9, 10, 11, 12]])"
    by (simp add: riad_accepts_def no_ff_tail_def)
qed

text \<open>C34. A group whose files are at least one word shorter than the size \<open>lstat\<close> reported (symbolic
  links, whose size is the length of the link) makes the request loop for ever: \<open>fread\<close> returns
  0 words in every later round and nothing ends the loop.\<close>

theorem open_file_short_files_hang:
  assumes "group_files os ps fs n" "same_length m fs" "4 * (m div 4) + 4 \<le> n"
    and "fopen_w os (out_path name) = Some r"
  shows "open_file os name ps = None"
proof -
  have "fs \<noteq> []" "\<forall>i < length fs. malloc_ok os i" using assms(1) by (auto simp: group_files_def)
  then show ?thesis
    using open_file_group [OF assms(1,4)] s_riad_short_diverges [OF _ assms(2) _ assms(3)] by simp
qed

theorem open_file_short_files_hang_witness:
  "open_file (demo_os\<lparr>lstat_size := (\<lambda>_. Some 8)\<rparr>) ''o'' [''a'', ''b''] = None"
proof -
  have g: "group_files (demo_os\<lparr>lstat_size := (\<lambda>_. Some 8)\<rparr>) [''a'', ''b'']
      [[1, 2, 3, 4, 5], [6, 7, 8, 9, 255]] 8"
    by (simp add: group_files_def demo_os_def MAX_FILE_NUM_def)
  show ?thesis
    by (rule open_file_short_files_hang [OF g, of 5 _ 100]) (simp_all add: demo_os_def)
qed

text \<open>C35. The failures of a local request, in the order of the code, with the streams each leaves
  open: an input that does not open, more inputs than the array of streams holds, an output that
  cannot be created, files of different sizes, any error of \<open>s_riad\<close> (all inputs and the output
  stay open; memory that cannot be had and a byte 0xFF in the first file's tail are two such), and
  a group without files, whose first stream is an uninitialised pointer.\<close>

theorem open_file_errors:
  "(\<forall>as q bs. ps = as @ q # bs \<longrightarrow> length as < MAX_FILE_NUM \<longrightarrow> (\<forall>p \<in> set as. fopen_r os p \<noteq> None) \<longrightarrow> fopen_r os q = None \<longrightarrow>
        open_file os name ps = Some (Inr \<lparr>code = ERROR_FILE_OPEN, produced = None, left_open = length as\<rparr>))
    \<and> (MAX_FILE_NUM < length ps \<longrightarrow> (\<forall>p \<in> set (take MAX_FILE_NUM ps). fopen_r os p \<noteq> None) \<longrightarrow>
        open_file os name ps = Some (Inl BufferOverflow))
    \<and> (length ps \<le> MAX_FILE_NUM \<longrightarrow> (\<forall>p \<in> set ps. fopen_r os p \<noteq> None) \<longrightarrow>
        (fopen_w os (out_path name) = None \<longrightarrow>
           open_file os name ps = Some (Inr \<lparr>code = ERROR_OUTPUT_FILE, produced = None, left_open = length ps\<rparr>))
      \<and> (\<forall>r. fopen_w os (out_path name) = Some r \<longrightarrow>
           ((\<exists>p \<in> set ps. \<exists>q \<in> set ps. stat_size os p \<noteq> stat_size os q) \<longrightarrow>
              open_file os name ps = Some (Inr \<lparr>code = ERROR_FILE_SIZE,
                produced = Some (out_path name, \<lparr>written = [], room = r\<rparr>), left_open = Suc (length ps)\<rparr>))
         \<and> (\<forall>k ret f. (\<forall>p \<in> set ps. stat_size os p = k) \<longrightarrow> ps \<noteq> [] \<longrightarrow> ret < 0 \<longrightarrow>
              s_riad (malloc_ok os) \<lparr>written = [], room = r\<rparr> k (map (\<lambda>p. at 0 (the (fopen_r os p))) ps) = Some (Inr (ret, f)) \<longrightarrow>
              open_file os name ps = Some (Inr \<lparr>code = ret, produced = Some (out_path name, f), left_open = Suc (length ps)\<rparr>))
         \<and> (\<forall>k i. (\<forall>p \<in> set ps. stat_size os p = k) \<longrightarrow> i < length ps \<longrightarrow> \<not> malloc_ok os i \<longrightarrow>
              open_file os name ps = Some (Inr \<lparr>code = ERROR_APPLY_MALLOC,
                produced = Some (out_path name, \<lparr>written = [], room = r\<rparr>), left_open = Suc (length ps)\<rparr>))
         \<and> (\<forall>fs n. group_files os ps fs n \<longrightarrow> same_length n fs \<longrightarrow> \<not> no_ff_tail (hd fs) \<longrightarrow> 4 \<le> n \<longrightarrow>
              (\<exists>f. open_file os name ps = Some (Inr \<lparr>code = ERROR_XOR_FILE, produced = Some (out_path name, f), left_open = Suc (length ps)\<rparr>)))
         \<and> (ps = [] \<longrightarrow> open_file os name ps = Some (Inl Uninitialised))))"
proof (intro conjI allI impI)
  note all = open_inputs_open [of _ os "[]"]
  show "open_file os name ps = Some (Inr \<lparr>code = ERROR_FILE_OPEN, produced = None, left_open = length as\<rparr>)"
    if "ps = as @ q # bs" "length as < MAX_FILE_NUM" "\<forall>p \<in> set as. fopen_r os p \<noteq> None" "fopen_r os q = None" for as q bs
    using open_file_missing that by blast
  show "open_file os name ps = Some (Inl BufferOverflow)"
    if "MAX_FILE_NUM < length ps" "\<forall>p \<in> set (take MAX_FILE_NUM ps). fopen_r os p \<noteq> None"
    using that(1) all [OF that(2)] by (simp add: open_file_def)
  show "open_file os name ps = Some (Inr \<lparr>code = ERROR_OUTPUT_FILE, produced = None, left_open = length ps\<rparr>)"
    if "length ps \<le> MAX_FILE_NUM" "\<forall>p \<in> set ps. fopen_r os p \<noteq> None" "fopen_w os (out_path name) = None"
    using that all [OF that(2)] by (simp add: open_file_def)
  show "open_file os name ps = Some (Inr \<lparr>code = ERROR_FILE_SIZE,
      produced = Some (out_path name, \<lparr>written = [], room = r\<rparr>), left_open = Suc (length ps)\<rparr>)"
    if "length ps \<le> MAX_FILE_NUM" "\<forall>p \<in> set ps. fopen_r os p \<noteq> None" "fopen_w os (out_path name) = Some r"
      "\<exists>p \<in> set ps. \<exists>q \<in> set ps. stat_size os p \<noteq> stat_size os q" for r
    using that(1,3) all [OF that(2)] common_size_differ [OF that(4)] by (simp add: open_file_def)
  show "open_file os name ps = Some (Inr \<lparr>code = ret, produced = Some (out_path name, f), left_open = Suc (length ps)\<rparr>)"
    if "length ps \<le> MAX_FILE_NUM" "\<forall>p \<in> set ps. fopen_r os p \<noteq> None" "fopen_w os (out_path name) = Some r"
      "\<forall>p \<in> set ps. stat_size os p = k" "ps \<noteq> []" "ret < 0"
      "s_riad (malloc_ok os) \<lparr>written = [], room = r\<rparr> k (map (\<lambda>p. at 0 (the (fopen_r os p))) ps) = Some (Inr (ret, f))" for r k ret f
    using open_file_s_riad [OF that(1-5)] that(6,7) by simp
  show "open_file os name ps = Some (Inr \<lparr>code = ERROR_APPLY_MALLOC,
      produced = Some (out_path name, \<lparr>written = [], room = r\<rparr>), left_open = Suc (length ps)\<rparr>)"
    if "length ps \<le> MAX_FILE_NUM" "\<forall>p \<in> set ps. fopen_r os p \<noteq> None" "fopen_w os (out_path name) = Some r"
      "\<forall>p \<in> set ps. stat_size os p = k" "i < length ps" "\<not> malloc_ok os i" for r k i
    using open_file_no_memory [OF that] .
  show "\<exists>f. open_file os name ps = Some (Inr \<lparr>code = ERROR_XOR_FILE, produced = Some (out_path name, f), left_open = Suc (length ps)\<rparr>)"
    if "fopen_w os (out_path name) = Some r" "group_files os ps fs n" "same_length n fs" "\<not> no_ff_tail (hd fs)" "4 \<le> n" for r fs n
  proof -
    have "fs \<noteq> []" "\<forall>i < length fs. malloc_ok os i" using that(2) by (auto simp: group_files_def)
    then show ?thesis
      using s_riad_ff_error [OF _ that(3) _ that(4,5), of "malloc_ok os" "\<lparr>written = [], room = r\<rparr>"]
        open_file_group [OF that(2,1)] by (auto simp: codes)
  qed
  show "open_file os name ps = Some (Inl Uninitialised)" if "fopen_w os (out_path name) = Some r" "ps = []" for r
    using that s_riad_no_files by (simp add: open_file_def common_size_def)
qed

theorem open_file_errors_witness:
  "open_file demo_os ''o'' ([''a''] @ ''x'' # replicate 1100 ''b'') =
     Some (Inr \<lparr>code = ERROR_FILE_OPEN, produced = None, left_open = 1\<rparr>)
   \<and> open_file (demo_os\<lparr>malloc_ok := (\<lambda>i. i = 0)\<rparr>) ''o'' [''a'', ''b''] =
     Some (Inr \<lparr>code = ERROR_APPLY_MALLOC, produced = Some (''/home/file/o'', \<lparr>written = [], room = 100\<rparr>), left_open = 3\<rparr>)
   \<and> open_file demo_os ''o'' [] = Some (Inl Uninitialised)"
proof (intro conjI)
  from open_file_errors [of "[''a''] @ ''x'' # replicate 1100 ''b''" demo_os "''o''", THEN conjunct1, rule_format,
      of "[''a'']" "''x''" "replicate 1100 ''b''"]
  show "open_file demo_os ''o'' ([''a''] @ ''x'' # replicate 1100 ''b'') =
      Some (Inr \<lparr>code = ERROR_FILE_OPEN, produced = None, left_open = 1\<rparr>)"
    by (simp add: demo_os_def MAX_FILE_NUM_def)
  have fit: "length [''a'', ''b''] \<le> MAX_FILE_NUM" by (simp add: MAX_FILE_NUM_def)
  from open_file_errors [of "[''a'', ''b'']" "demo_os\<lparr>malloc_ok := (\<lambda>i. i = 0)\<rparr>" "''o''"] fit
  have "\<forall>k. \<forall>i < length [''a'', ''b'']. (\<forall>p \<in> set [''a'', ''b'']. stat_size (demo_os\<lparr>malloc_ok := (\<lambda>i. i = 0)\<rparr>) p = k) \<longrightarrow> i \<noteq> 0 \<longrightarrow>
      open_file (demo_os\<lparr>malloc_ok := (\<lambda>i. i = 0)\<rparr>) ''o'' [''a'', ''b''] = Some (Inr \<lparr>code = ERROR_APPLY_MALLOC,
        produced = Some (out_path ''o'', \<lparr>written = [], room = 100\<rparr>), left_open = 3\<rparr>)"
    by (simp add: demo_os_def)
  from this [rule_format, of 1 5]
  show "open_file (demo_os\<lparr>malloc_ok := (\<lambda>i. i = 0)\<rparr>) ''o'' [''a'', ''b''] = Some (Inr \<lparr>code = ERROR_APPLY_MALLOC,
      produced = Some (''/home/file/o'', \<lparr>written = [], room = 100\<rparr>), left_open = 3\<rparr>)"
    by (simp add: demo_os_def stat_size_def out_path_def)
  from open_file_errors [of "[]" demo_os "''o''"]
  show "open_file demo_os ''o'' [] = Some (Inl Uninitialised)" by (simp add: demo_os_def)
qed

text \<open>The write error the code checks for is never reported: on a device without room for it
  \<open>s_riad\<close> answers \<open>RIGHT\<close> for a file that is cut short, and no input at all makes it answer
  \<open>ERROR_FWRITE_FILE\<close>, since the count \<open>fwrite\<close> returns is never negative.\<close>

theorem s_riad_misses_short_writes:
  assumes "fs \<noteq> []" "same_length k fs" "no_ff_tail (hd fs)" "\<forall>i < length fs. alloc i" "r < k"
  shows "s_riad alloc \<lparr>written = [], room = r\<rparr> (int k) (map (at 0) fs)
        = Some (Inr (RIGHT, \<lparr>written = take r (parity fs), room = 0\<rparr>))
    \<and> (\<forall>alloc w n fds f. s_riad alloc w n fds \<noteq> Some (Inr (ERROR_FWRITE_FILE, f)))"
proof (intro conjI allI notI)
  have "out_after \<lparr>written = [], room = r\<rparr> (parity fs) = \<lparr>written = take r (parity fs), room = 0\<rparr>"
    using same_length_hd [OF assms(1,2)] assms(5) by (simp add: out_after_def)
  then show "s_riad alloc \<lparr>written = [], room = r\<rparr> (int k) (map (at 0) fs)
        = Some (Inr (RIGHT, \<lparr>written = take r (parity fs), room = 0\<rparr>))"
    using s_riad_right [OF assms(1,2,4,3)] by simp
next
  fix alloc' w n fds f
  assume "s_riad alloc' w n fds = Some (Inr (ERROR_FWRITE_FILE, f))"
  then have "run_loop (riad_iter n) \<lparr>ins = fds, bufs = replicate (length fds) [], num0 = 0,
      xored = 0, outf = w\<rparr> = Some (Inr (ERROR_FWRITE_FILE, f))"
    by (auto simp: s_riad_def codes split: if_splits)
  then have "\<forall>ret g. Inr (ERROR_FWRITE_FILE, f) = (Inr (ret, g) :: fault + int \<times> ostream)
      \<longrightarrow> ret \<in> {RIGHT, ERROR_FREAD_FILE, ERROR_XOR_FILE}"
    by (rule run_loop_partial [where I = "\<lambda>_. True"]) (auto dest: riad_iter_never_fwrite)
  then show False by (simp add: codes)
qed

theorem s_riad_misses_short_writes_witness:
  "s_riad (\<lambda>_. True) \<lparr>written = [], room = 1\<rparr> (int 2) (map (at 0) [[1, 2], [4, 8]])
    = Some (Inr (RIGHT, \<lparr>written = [5], room = 0\<rparr>))"
  using s_riad_misses_short_writes [of "[[1, 2], [4, 8]]" 2 "\<lambda>_. True" 1]
  by (simp add: no_ff_tail_def parity_def upt_conv_Cons)

end
