(* ===== verification/FileInfo.thy ===== *)
theory FileInfo
  imports XorSpec
begin

text \<open>
  \<open>include/file_info.h\<close>: the commands and the packed messages that the server and the data
  server exchange. Each message is a record; \<open>encode\<close> lays its fields out as the packed struct
  does (little endian numbers), \<open>decode\<close> is what \<open>memcpy\<close> into the struct makes of the first
  bytes of a buffer. The locale \<open>packed\<close> is the interface every message provides; it is
  interpreted on all of them.
\<close>

subsection \<open>Commands\<close>

datatype cmd = CMD_READ | CMD_WRITE | CMD_REMOVE

fun cmd_code :: "cmd \<Rightarrow> nat" where
  "cmd_code CMD_READ = 1"
| "cmd_code CMD_WRITE = 2"
| "cmd_code CMD_REMOVE = 3"

instantiation cmd :: linorder
begin

definition less_eq_cmd :: "cmd \<Rightarrow> cmd \<Rightarrow> bool" where
  "less_eq_cmd a b \<longleftrightarrow> cmd_code a \<le> cmd_code b"

definition less_cmd :: "cmd \<Rightarrow> cmd \<Rightarrow> bool" where
  "less_cmd a b \<longleftrightarrow> cmd_code a < cmd_code b"

instance
proof
  fix a b :: cmd
  show "a \<le> b \<Longrightarrow> b \<le> a \<Longrightarrow> a = b"
    by (cases a; cases b) (simp_all add: less_eq_cmd_def)
qed (auto simp: less_eq_cmd_def less_cmd_def)

end

text \<open>The \<open>switch (command)\<close> of a received byte; \<open>None\<close> where no case matches.\<close>

definition cmd_of :: "byte \<Rightarrow> cmd option" where
  "cmd_of b = (if b = 1 then Some CMD_READ else if b = 2 then Some CMD_WRITE
     else if b = 3 then Some CMD_REMOVE else None)"

definition cmd_byte :: "cmd \<Rightarrow> byte" where
  "cmd_byte c = of_nat (cmd_code c)"

lemma cmd_of_byte [simp]: "cmd_of (cmd_byte c) = Some c"
  by (cases c) (simp_all add: cmd_of_def cmd_byte_def)

definition CMD_LEN :: nat where "CMD_LEN = 1065"

subsection \<open>Numbers and fields in memory\<close>

definition le64 :: "u64 \<Rightarrow> byte list" where
  "le64 w = le_bytes (ucast w) @ le_bytes (ucast (drop_bit 32 w))"

definition u32_of :: "byte list \<Rightarrow> u32" where
  "u32_of bs = le_word (bs ! 0) (bs ! 1) (bs ! 2) (bs ! 3)"

definition u64_of :: "byte list \<Rightarrow> u64" where
  "u64_of bs = ucast (u32_of (take 4 bs)) OR push_bit 32 (ucast (u32_of (drop 4 bs)))"

lemma length_le64 [simp]: "length (le64 w) = 8"
  by (simp add: le64_def)

lemma u32_of_le_bytes [simp]: "u32_of (le_bytes w) = w"
proof (rule bit_word_eqI)
  fix n assume "n < LENGTH(32)"
  then show "bit (u32_of (le_bytes w)) n = bit w n"
    by (cases "n < 24"; cases "n < 16") (auto simp: u32_of_def le_word_def le_bytes_def bit_simps)
qed

lemma four_bytes: "length bs = 4 \<Longrightarrow> bs = [bs ! 0, bs ! 1, bs ! 2, bs ! 3]"
  by (rule nth_equalityI) (auto simp: nth_Cons split: nat.splits, auto simp: less_Suc_eq numeral_eq_Suc)

lemma le_bytes_u32_of [simp]: "length bs = 4 \<Longrightarrow> le_bytes (u32_of bs) = bs"
  using four_bytes [of bs] by (simp add: u32_of_def le_bytes_le_word)

lemma u64_halves: "ucast (ucast w :: u32) OR push_bit 32 (ucast (ucast (drop_bit 32 w) :: u32)) = (w :: u64)"
  by (rule bit_word_eqI) (auto simp: bit_simps)

lemma u64_of_le64 [simp]: "u64_of (le64 w) = w"
  by (simp add: u64_of_def le64_def u64_halves)

lemma u64_low: "ucast (ucast a OR push_bit 32 (ucast b) :: u64) = (a :: u32)"
  by (rule bit_word_eqI) (auto simp: bit_simps)

lemma u64_high: "ucast (drop_bit 32 (ucast a OR push_bit 32 (ucast b) :: u64)) = (b :: u32)" for a :: u32
  by (rule bit_word_eqI) (auto simp: bit_simps dest: bit_imp_le_length)

lemma le64_u64_of [simp]: "length bs = 8 \<Longrightarrow> le64 (u64_of bs) = bs"
  unfolding u64_of_def le64_def u64_low u64_high by simp

fun chop :: "nat list \<Rightarrow> byte list \<Rightarrow> byte list list" where
  "chop [] bs = []"
| "chop (n # ns) bs = take n bs # chop ns (drop n bs)"

lemma chop_concat: "map length fs = ns \<Longrightarrow> chop ns (concat fs @ r) = fs"
  by (induction fs arbitrary: ns) auto

lemma length_chop: "sum_list ns \<le> length bs \<Longrightarrow> map length (chop ns bs) = ns"
  by (induction ns arbitrary: bs) auto

lemma concat_chop: "concat (chop ns bs) = take (sum_list ns) bs"
  by (induction ns arbitrary: bs) (auto simp: take_add)

subsection \<open>The interface of a packed message\<close>

locale packed =
  fixes sizes :: "nat list"
    and parts :: "'r \<Rightarrow> byte list list"
    and make :: "byte list list \<Rightarrow> 'r"
    and wf :: "'r \<Rightarrow> bool"
  assumes parts_sizes: "wf x \<Longrightarrow> map length (parts x) = sizes"
    and make_parts: "wf x \<Longrightarrow> make (parts x) = x"
    and parts_make: "map length ps = sizes \<Longrightarrow> parts (make ps) = ps"
    and make_wf: "map length ps = sizes \<Longrightarrow> wf (make ps)"
begin

lemma encode_length: "wf x \<Longrightarrow> length (concat (parts x)) = sum_list sizes"
  using parts_sizes by (simp add: length_concat)

lemma decode_encode: "wf x \<Longrightarrow> make (chop sizes (concat (parts x) @ r)) = x"
  using parts_sizes make_parts chop_concat by metis

lemma encode_decode: "sum_list sizes \<le> length bs \<Longrightarrow> concat (parts (make (chop sizes bs))) = take (sum_list sizes) bs"
  using parts_make length_chop concat_chop by metis

lemma decode_wf: "sum_list sizes \<le> length bs \<Longrightarrow> wf (make (chop sizes bs))"
  using make_wf length_chop by metis

lemma encode_inj: "wf x \<Longrightarrow> wf y \<Longrightarrow> concat (parts x) = concat (parts y) \<Longrightarrow> x = y"
  using decode_encode [of x "[]"] decode_encode [of y "[]"] by simp

end

subsection \<open>\<open>CMD_HEADER_T\<close>\<close>

record CMD_HEADER_T =
  synCode :: "byte list"
  synNum :: "byte list"
  status :: byte
  message :: byte
  ReturnLenHighByte :: byte
  ReturnLenLowByte :: byte

definition header_sizes :: "nat list" where "header_sizes = [8, 4, 1, 1, 1, 1]"

definition header_parts :: "CMD_HEADER_T \<Rightarrow> byte list list" where
  "header_parts h = [synCode h, synNum h, [status h], [message h], [ReturnLenHighByte h], [ReturnLenLowByte h]]"

definition header_make :: "byte list list \<Rightarrow> CMD_HEADER_T" where
  "header_make p = \<lparr>synCode = p ! 0, synNum = p ! 1, status = p ! 2 ! 0, message = p ! 3 ! 0,
     ReturnLenHighByte = p ! 4 ! 0, ReturnLenLowByte = p ! 5 ! 0\<rparr>"

definition header_wf :: "CMD_HEADER_T \<Rightarrow> bool" where
  "header_wf h \<longleftrightarrow> length (synCode h) = 8 \<and> length (synNum h) = 4"

lemma list_of_length: "map length ps = n # ns \<longleftrightarrow> (\<exists>q qs. ps = q # qs \<and> length q = n \<and> map length qs = ns)"
  by (cases ps) auto

lemma length_one: "length (q::byte list) = Suc 0 \<longleftrightarrow> (\<exists>b. q = [b])"
  by (cases q) auto

lemmas packed_simps = list_of_length length_one

interpretation header_msg: packed header_sizes header_parts header_make header_wf
  by unfold_locales
     (auto simp: header_sizes_def header_parts_def header_make_def header_wf_def packed_simps)

definition encode_header :: "CMD_HEADER_T \<Rightarrow> byte list" where
  "encode_header h = concat (header_parts h)"

definition decode_header :: "byte list \<Rightarrow> CMD_HEADER_T" where
  "decode_header bs = header_make (chop header_sizes bs)"

lemma sum_header: "sum_list header_sizes = 16"
  by (simp add: header_sizes_def)

lemma length_encode_header: "header_wf h \<Longrightarrow> length (encode_header h) = 16"
  using header_msg.encode_length by (simp add: encode_header_def sum_header)

lemma decode_encode_header: "header_wf h \<Longrightarrow> decode_header (encode_header h) = h"
  using header_msg.decode_encode [of h "[]"] by (simp add: encode_header_def decode_header_def)

lemma encode_decode_header: "length bs = 16 \<Longrightarrow> encode_header (decode_header bs) = bs"
  using header_msg.encode_decode [of bs] by (simp add: encode_header_def decode_header_def sum_header)

lemma decode_header_wf: "length bs = 16 \<Longrightarrow> header_wf (decode_header bs)"
  using header_msg.decode_wf [of bs] by (simp add: decode_header_def sum_header)

lemmas header_simps = length_encode_header decode_encode_header encode_decode_header decode_header_wf

subsection \<open>\<open>CMD_WRITE_T\<close>\<close>

record CMD_WRITE_T =
  w_header :: CMD_HEADER_T
  w_command :: byte
  w_mode :: u32
  w_file_name :: "byte list"
  w_offset :: u64
  w_data_len :: u64
  w_reserved :: "byte list"

definition write_sizes :: "nat list" where "write_sizes = [16, 1, 4, 1024, 8, 8, 4]"

definition write_parts :: "CMD_WRITE_T \<Rightarrow> byte list list" where
  "write_parts m = [encode_header (w_header m), [w_command m], le_bytes (w_mode m), w_file_name m,
     le64 (w_offset m), le64 (w_data_len m), w_reserved m]"

definition write_make :: "byte list list \<Rightarrow> CMD_WRITE_T" where
  "write_make p = \<lparr>w_header = decode_header (p ! 0), w_command = p ! 1 ! 0, w_mode = u32_of (p ! 2),
     w_file_name = p ! 3, w_offset = u64_of (p ! 4), w_data_len = u64_of (p ! 5), w_reserved = p ! 6\<rparr>"

definition write_wf :: "CMD_WRITE_T \<Rightarrow> bool" where
  "write_wf m \<longleftrightarrow> header_wf (w_header m) \<and> length (w_file_name m) = 1024 \<and> length (w_reserved m) = 4"

interpretation write_msg: packed write_sizes write_parts write_make write_wf
  by unfold_locales
     (auto simp: write_sizes_def write_parts_def write_make_def write_wf_def packed_simps header_simps)

definition encode_write :: "CMD_WRITE_T \<Rightarrow> byte list" where
  "encode_write m = concat (write_parts m)"

definition decode_write :: "byte list \<Rightarrow> CMD_WRITE_T" where
  "decode_write bs = write_make (chop write_sizes bs)"

subsection \<open>\<open>CMD_REPLY_WRITE_T\<close> and \<open>CMD_REPLY_READ_T\<close>, of one layout\<close>

record CMD_REPLY_WRITE_T =
  rw_header :: CMD_HEADER_T
  rw_command :: byte
  rw_file_name :: "byte list"
  rw_offset :: u64
  rw_data_len :: u64
  rw_reply_value :: u64

type_synonym CMD_REPLY_READ_T = CMD_REPLY_WRITE_T

definition reply_sizes :: "nat list" where "reply_sizes = [16, 1, 1024, 8, 8, 8]"

definition reply_parts :: "CMD_REPLY_WRITE_T \<Rightarrow> byte list list" where
  "reply_parts m = [encode_header (rw_header m), [rw_command m], rw_file_name m,
     le64 (rw_offset m), le64 (rw_data_len m), le64 (rw_reply_value m)]"

definition reply_make :: "byte list list \<Rightarrow> CMD_REPLY_WRITE_T" where
  "reply_make p = \<lparr>rw_header = decode_header (p ! 0), rw_command = p ! 1 ! 0, rw_file_name = p ! 2,
     rw_offset = u64_of (p ! 3), rw_data_len = u64_of (p ! 4), rw_reply_value = u64_of (p ! 5)\<rparr>"

definition reply_wf :: "CMD_REPLY_WRITE_T \<Rightarrow> bool" where
  "reply_wf m \<longleftrightarrow> header_wf (rw_header m) \<and> length (rw_file_name m) = 1024"

interpretation reply_msg: packed reply_sizes reply_parts reply_make reply_wf
  by unfold_locales
     (auto simp: reply_sizes_def reply_parts_def reply_make_def reply_wf_def packed_simps header_simps)

definition encode_reply :: "CMD_REPLY_WRITE_T \<Rightarrow> byte list" where
  "encode_reply m = concat (reply_parts m)"

definition decode_reply :: "byte list \<Rightarrow> CMD_REPLY_WRITE_T" where
  "decode_reply bs = reply_make (chop reply_sizes bs)"

text \<open>\<open>CMD_REPLY_WRITE_T reply_obj = {0}\<close>\<close>

definition zero_header :: CMD_HEADER_T where
  "zero_header = \<lparr>synCode = replicate 8 0, synNum = replicate 4 0, status = 0, message = 0,
     ReturnLenHighByte = 0, ReturnLenLowByte = 0\<rparr>"

definition zero_reply :: CMD_REPLY_WRITE_T where
  "zero_reply = \<lparr>rw_header = zero_header, rw_command = 0, rw_file_name = replicate 1024 0,
     rw_offset = 0, rw_data_len = 0, rw_reply_value = 0\<rparr>"

definition zero_write :: CMD_WRITE_T where
  "zero_write = \<lparr>w_header = zero_header, w_command = 0, w_mode = 0, w_file_name = replicate 1024 0,
     w_offset = 0, w_data_len = 0, w_reserved = replicate 4 0\<rparr>"

subsection \<open>\<open>CMD_READ_T\<close>\<close>

record CMD_READ_T =
  r_header :: CMD_HEADER_T
  r_command :: byte
  r_file_name :: "byte list"
  r_offset :: u64
  r_data_len :: u64
  r_reserved :: "byte list"

definition read_sizes :: "nat list" where "read_sizes = [16, 1, 1024, 8, 8, 8]"

definition read_parts :: "CMD_READ_T \<Rightarrow> byte list list" where
  "read_parts m = [encode_header (r_header m), [r_command m], r_file_name m,
     le64 (r_offset m), le64 (r_data_len m), r_reserved m]"

definition read_make :: "byte list list \<Rightarrow> CMD_READ_T" where
  "read_make p = \<lparr>r_header = decode_header (p ! 0), r_command = p ! 1 ! 0, r_file_name = p ! 2,
     r_offset = u64_of (p ! 3), r_data_len = u64_of (p ! 4), r_reserved = p ! 5\<rparr>"

definition read_wf :: "CMD_READ_T \<Rightarrow> bool" where
  "read_wf m \<longleftrightarrow> header_wf (r_header m) \<and> length (r_file_name m) = 1024 \<and> length (r_reserved m) = 8"

interpretation read_msg: packed read_sizes read_parts read_make read_wf
  by unfold_locales
     (auto simp: read_sizes_def read_parts_def read_make_def read_wf_def packed_simps header_simps)

subsection \<open>\<open>CMD_REMOVE_T\<close> and \<open>CMD_REPLY_REMOVE_T\<close>\<close>

record CMD_REMOVE_T =
  m_header :: CMD_HEADER_T
  m_command :: byte
  m_file_name :: "byte list"
  m_reserved :: "byte list"

definition remove_sizes :: "nat list" where "remove_sizes = [16, 1, 1024, 24]"

definition remove_parts :: "CMD_REMOVE_T \<Rightarrow> byte list list" where
  "remove_parts m = [encode_header (m_header m), [m_command m], m_file_name m, m_reserved m]"

definition remove_make :: "byte list list \<Rightarrow> CMD_REMOVE_T" where
  "remove_make p = \<lparr>m_header = decode_header (p ! 0), m_command = p ! 1 ! 0, m_file_name = p ! 2,
     m_reserved = p ! 3\<rparr>"

definition remove_wf :: "CMD_REMOVE_T \<Rightarrow> bool" where
  "remove_wf m \<longleftrightarrow> header_wf (m_header m) \<and> length (m_file_name m) = 1024 \<and> length (m_reserved m) = 24"

interpretation remove_msg: packed remove_sizes remove_parts remove_make remove_wf
  by unfold_locales
     (auto simp: remove_sizes_def remove_parts_def remove_make_def remove_wf_def packed_simps header_simps)

record CMD_REPLY_REMOVE_T =
  rm_header :: CMD_HEADER_T
  rm_command :: byte
  rm_file_name :: "byte list"
  rm_reply_value :: u64
  rm_reserved :: "byte list"

definition reply_remove_sizes :: "nat list" where "reply_remove_sizes = [16, 1, 1024, 8, 16]"

definition reply_remove_parts :: "CMD_REPLY_REMOVE_T \<Rightarrow> byte list list" where
  "reply_remove_parts m = [encode_header (rm_header m), [rm_command m], rm_file_name m,
     le64 (rm_reply_value m), rm_reserved m]"

definition reply_remove_make :: "byte list list \<Rightarrow> CMD_REPLY_REMOVE_T" where
  "reply_remove_make p = \<lparr>rm_header = decode_header (p ! 0), rm_command = p ! 1 ! 0, rm_file_name = p ! 2,
     rm_reply_value = u64_of (p ! 3), rm_reserved = p ! 4\<rparr>"

definition reply_remove_wf :: "CMD_REPLY_REMOVE_T \<Rightarrow> bool" where
  "reply_remove_wf m \<longleftrightarrow> header_wf (rm_header m) \<and> length (rm_file_name m) = 1024 \<and> length (rm_reserved m) = 16"

interpretation reply_remove_msg: packed reply_remove_sizes reply_remove_parts reply_remove_make reply_remove_wf
  by unfold_locales
     (auto simp: reply_remove_sizes_def reply_remove_parts_def reply_remove_make_def reply_remove_wf_def
        packed_simps header_simps)

subsection \<open>The messages the server builds and reads\<close>

lemma sum_write: "sum_list write_sizes = CMD_LEN" and sum_reply: "sum_list reply_sizes = CMD_LEN"
  by (simp_all add: write_sizes_def reply_sizes_def CMD_LEN_def)

lemma length_encode_write: "write_wf m \<Longrightarrow> length (encode_write m) = CMD_LEN"
  using write_msg.encode_length sum_write by (simp add: encode_write_def)

lemma decode_encode_write: "write_wf m \<Longrightarrow> decode_write (encode_write m @ r) = m"
  using write_msg.decode_encode by (simp add: encode_write_def decode_write_def)

lemma length_encode_reply: "reply_wf m \<Longrightarrow> length (encode_reply m) = CMD_LEN"
  using reply_msg.encode_length sum_reply by (simp add: encode_reply_def)

lemma decode_encode_reply: "reply_wf m \<Longrightarrow> decode_reply (encode_reply m @ r) = m"
  using reply_msg.decode_encode by (simp add: encode_reply_def decode_reply_def)

lemma zero_wf [simp]: "header_wf zero_header" "write_wf zero_write" "reply_wf zero_reply"
  by (simp_all add: header_wf_def write_wf_def reply_wf_def zero_header_def zero_write_def zero_reply_def)

text \<open>The command of a message is byte 16, behind the header, in every layout.\<close>

lemma encode_write_command: "write_wf m \<Longrightarrow> (encode_write m @ r) ! 16 = w_command m"
  using length_encode_header [of "w_header m"]
  by (simp add: encode_write_def write_parts_def write_wf_def nth_append)

lemma encode_reply_command: "reply_wf m \<Longrightarrow> (encode_reply m @ r) ! 16 = rw_command m"
  using length_encode_header [of "rw_header m"]
  by (simp add: encode_reply_def reply_parts_def reply_wf_def nth_append)

subsection \<open>Properties\<close>

text \<open>Every packed message is \<open>CMD_LEN\<close> bytes long, behind a header of 16 bytes: the one length
  the receiver uses for all of them.\<close>

theorem message_lengths:
  "sum_list header_sizes = 16 \<and> (\<forall>s \<in> {write_sizes, reply_sizes, read_sizes, remove_sizes, reply_remove_sizes}.
     sum_list s = CMD_LEN \<and> hd s = 16 \<and> s ! 1 = 1)"
  by (simp add: header_sizes_def write_sizes_def reply_sizes_def read_sizes_def remove_sizes_def
      reply_remove_sizes_def CMD_LEN_def)

theorem message_lengths_witness:
  "sum_list write_sizes = 1065"
  using message_lengths by (simp add: CMD_LEN_def)

text \<open>Round trip of the write message: whatever follows it in the buffer, the receiver's
  \<open>memcpy\<close> gives the message that was sent; and the bytes of any buffer of \<open>CMD_LEN\<close> bytes are the
  bytes of the message read from it.\<close>

theorem write_message_roundtrip:
  assumes "write_wf m" "CMD_LEN \<le> length bs"
  shows "decode_write (encode_write m @ r) = m \<and> length (encode_write m) = CMD_LEN
    \<and> encode_write (decode_write bs) = take CMD_LEN bs \<and> write_wf (decode_write bs)"
  using assms write_msg.encode_decode [of bs] write_msg.decode_wf [of bs] sum_write
  by (simp add: decode_encode_write length_encode_write) (simp add: encode_write_def decode_write_def)

theorem write_message_roundtrip_witness:
  "decode_write (encode_write (zero_write\<lparr>w_data_len := 77\<rparr>) @ [1, 2, 3]) = zero_write\<lparr>w_data_len := 77\<rparr>"
  using write_message_roundtrip [of "zero_write\<lparr>w_data_len := 77\<rparr>" "replicate CMD_LEN 0" "[1, 2, 3]"]
  by (simp add: write_wf_def zero_write_def)

end
