(* ===== verification/Common.thy ===== *)
theory Common
  imports CString
begin

text \<open>
  \<open>src/common.cpp\<close> and \<open>include/common.h\<close>: the parser of a received HTTP message and the
  builder of a response, on fixed arrays, and the record of the data server's address.

  \<open>get_input_http_info\<close> is the index loop of the source. \<open>http_lines\<close> is the specification it is
  proved equal to: the lines of the message one after the other, then the body.
\<close>

subsection \<open>The address of the data server\<close>

record tDataServerInfo =
  data_server_ip :: cbuf
  data_server_port :: cbuf
  data_server_method :: cbuf

definition no_data_server :: tDataServerInfo where
  "no_data_server = \<lparr>data_server_ip = zbuf 32, data_server_port = zbuf 16, data_server_method = zbuf 128\<rparr>"

definition server_wf :: "tDataServerInfo \<Rightarrow> bool" where
  "server_wf s \<longleftrightarrow> (\<exists>a. holds (data_server_ip s) 32 a) \<and> (\<exists>a. holds (data_server_port s) 16 a)
     \<and> (\<exists>a. holds (data_server_method s) 128 a)"

lemma no_data_server_wf: "server_wf no_data_server"
  using holds_zbuf [of 32] holds_zbuf [of 16] holds_zbuf [of 128]
  by (auto simp: server_wf_def no_data_server_def simp del: holds_zbuf)

subsection \<open>\<open>get_input_http_info\<close>\<close>

record http_info =
  h_content :: cbuf
  h_method :: cbuf
  h_header :: cbuf
  h_content_type :: cbuf

text \<open>The request line: between the first and the last blank, and behind the last blank.\<close>

definition size_t_diff :: "nat \<Rightarrow> nat \<Rightarrow> nat" where
  "size_t_diff a b = unat (of_nat a - of_nat b - 2 :: u64)"

definition request_line :: "string \<Rightarrow> http_info \<Rightarrow> fault + http_info" where
  "request_line buf h =
     (case (strrchr buf CHR '' '', strchr buf CHR '' '') of
        (Some buf1, None) \<Rightarrow>
          if 1 < length buf1
          then bindE (strcpy (h_method h) (tl buf1)) (\<lambda>m. Inr (h\<lparr>h_method := m\<rparr>)) else Inr h
      | (Some buf1, Some buf2) \<Rightarrow>
          bindE (if 1 < length buf1 then strcpy (h_header h) (tl buf1) else Inr (h_header h)) (\<lambda>hd.
          bindE (strncpy (h_method h) (drop 2 buf2) (size_t_diff (length buf2) (length buf1))) (\<lambda>m.
          Inr (h\<lparr>h_header := hd, h_method := m\<rparr>)))
      | _ \<Rightarrow> Inr h)"

definition header_line :: "string \<Rightarrow> http_info \<Rightarrow> fault + http_info" where
  "header_line buf h =
     (if 14 < length buf \<and> has_prefix ''Content-Type:'' buf
      then bindE (strcpy (h_content_type h) (drop 14 buf)) (\<lambda>c. Inr (h\<lparr>h_content_type := c\<rparr>))
      else Inr h)"

text \<open>What is done with the bytes before a carriage return; the logging reads the arrays.\<close>

definition http_line :: "bool \<Rightarrow> string \<Rightarrow> http_info \<Rightarrow> fault + http_info" where
  "http_line first part h =
     bindE (strncpy (zbuf 1024) (cstr part) (length part)) (\<lambda>b.
     bindE (read_cstr b) (\<lambda>buf.
     if first
     then bindE (request_line buf h) (\<lambda>h'. bindE (read_cstr (h_method h')) (\<lambda>_.
          bindE (read_cstr (h_header h')) (\<lambda>_. Inr h')))
     else header_line buf h))"

definition http_body :: "string \<Rightarrow> http_info \<Rightarrow> fault + http_info" where
  "http_body part h =
     bindE (strncpy (h_content h) (cstr part) (length part)) (\<lambda>c.
     bindE (read_cstr c) (\<lambda>_. Inr (h\<lparr>h_content := c\<rparr>)))"

definition http_iter :: "cbuf \<Rightarrow> nat \<times> nat \<times> http_info \<Rightarrow> (nat \<times> nat \<times> http_info) + (fault + http_info)" where
  "http_iter p st =
     (case st of (i, j, h) \<Rightarrow>
        if length p \<le> i then Inr (Inl OutOfBounds)
        else if p ! i = NUL then Inr (http_body (take (i - j) (drop j p)) h)
        else if p ! i \<noteq> CR then Inl (Suc i, j, h)
        else case http_line (j = 0) (take (i - j) (drop j p)) h of
               Inl e \<Rightarrow> Inr (Inl e)
             | Inr h' \<Rightarrow> Inl (i + 2, i + 2, h'))"

definition get_input_http_info :: "cbuf \<Rightarrow> http_info \<Rightarrow> (fault + http_info) option" where
  "get_input_http_info buffer h =
     (case read_cstr buffer of
        Inl e \<Rightarrow> Some (Inl e)
      | Inr _ \<Rightarrow> run_loop (http_iter buffer) (0, 0, h))"

subsection \<open>\<open>set_output_http_info\<close>\<close>

definition CRLF :: string where "CRLF = [CR, LF]"

definition set_output_http_info ::
    "cbuf \<Rightarrow> string \<Rightarrow> string \<Rightarrow> string \<Rightarrow> string \<Rightarrow> fault + cbuf" where
  "set_output_http_info send_http_info send_http_content http_header content_type ctime =
     bindE (strcpy send_http_info http_header) (\<lambda>b0.
     bindE (strcats b0 ['' 200 OK'', CRLF @ ''Content-Type: '', content_type,
       CRLF @ ''Server: localhost'', CRLF @ ''Content-Length: '']) (\<lambda>b1.
     bindE (strcpy (zbuf 20) (dec (length send_http_content))) (\<lambda>buffer.
     bindE (read_cstr buffer) (\<lambda>n.
     strcats b1 [n, CRLF @ ''Date: '', ctime, CRLF, send_http_content]))))"

subsection \<open>The loop reads the message line by line\<close>

text \<open>A line, or a body, as the sender means it: no NUL and no carriage return inside.\<close>

definition clean :: "string \<Rightarrow> bool" where
  "clean s \<longleftrightarrow> NUL \<notin> set s \<and> CR \<notin> set s"

lemma clean_simps [simp]:
  "clean []" "clean (a @ b) \<longleftrightarrow> clean a \<and> clean b" "clean (c # a) \<longleftrightarrow> c \<noteq> NUL \<and> c \<noteq> CR \<and> clean a"
  by (auto simp: clean_def)

lemma clean_replicate: "c \<noteq> NUL \<Longrightarrow> c \<noteq> CR \<Longrightarrow> clean (replicate n c)"
  by (auto simp: clean_def)

lemma clean_dec [simp]: "clean (dec n)"
  by (simp add: clean_def)

lemma clean_cstr: "clean s \<Longrightarrow> cstr s = s"
  by (simp add: clean_def cstr_def) (metis takeWhile_eq_all_conv)

fun http_lines :: "bool \<Rightarrow> string list \<Rightarrow> http_info \<Rightarrow> fault + http_info" where
  "http_lines first [] h = Inr h"
| "http_lines first (l # ls) h = bindE (http_line first l h) (http_lines False ls)"

definition http_text :: "string list \<Rightarrow> string \<Rightarrow> string" where
  "http_text ls body = concat (map (\<lambda>l. l @ CRLF) ls) @ body"

lemma http_text_simps [simp]:
  "http_text [] body = body" "http_text (l # ls) body = l @ CR # LF # http_text ls body"
  by (simp_all add: http_text_def CRLF_def)

lemma http_scan:
  assumes "clean s"
  shows "run_loop (http_iter (pre @ s @ post)) (length pre, j, h)
    = run_loop (http_iter (pre @ s @ post)) (length pre + length s, j, h)"
  using assms
proof (induction s arbitrary: pre)
  case (Cons c s)
  have "http_iter (pre @ (c # s) @ post) (length pre, j, h) = Inl (Suc (length pre), j, h)"
    using Cons.prems by (simp add: http_iter_def nth_append)
  then have "run_loop (http_iter (pre @ (c # s) @ post)) (length pre, j, h)
      = run_loop (http_iter ((pre @ [c]) @ s @ post)) (length (pre @ [c]), j, h)"
    by (simp add: run_loop_again)
  with Cons.IH [of "pre @ [c]"] Cons.prems show ?case by simp
qed simp

lemma http_segment:
  assumes "clean s" "p = pre @ s @ CR # c # post" "j = length pre"
  shows "run_loop (http_iter p) (j, j, h) =
    (case http_line (j = 0) s h of
       Inl e \<Rightarrow> Some (Inl e)
     | Inr h' \<Rightarrow> run_loop (http_iter p) (j + length s + 2, j + length s + 2, h'))"
proof -
  have sc: "run_loop (http_iter p) (j, j, h) = run_loop (http_iter p) (j + length s, j, h)"
    using http_scan [OF assms(1), of pre "CR # c # post" j h] assms(2,3) by simp
  have "http_iter p (j + length s, j, h) = (case http_line (j = 0) s h of
      Inl e \<Rightarrow> Inr (Inl e) | Inr h' \<Rightarrow> Inl (j + length s + 2, j + length s + 2, h'))"
    unfolding assms(2,3) by (simp add: http_iter_def nth_append)
  then show ?thesis unfolding sc
    by (cases "http_line (j = 0) s h") (simp_all add: run_loop_exit run_loop_again)
qed

lemma http_end:
  assumes "clean s" "p = pre @ s @ NUL # post" "j = length pre"
  shows "run_loop (http_iter p) (j, j, h) = Some (http_body s h)"
proof -
  have "run_loop (http_iter p) (j, j, h) = run_loop (http_iter p) (j + length s, j, h)"
    using http_scan [OF assms(1), of pre "NUL # post" j h] assms(2,3) by simp
  moreover have "http_iter p (j + length s, j, h) = Inr (http_body s h)"
    using assms(2,3) by (simp add: http_iter_def nth_append)
  ultimately show ?thesis by (simp add: run_loop_exit)
qed

lemma http_run:
  assumes "\<forall>l \<in> set ls. clean l" "clean body" "p = pre @ http_text ls body @ NUL # rest" "j = length pre"
  shows "run_loop (http_iter p) (j, j, h) = Some (bindE (http_lines (j = 0) ls h) (http_body body))"
  using assms
proof (induction ls arbitrary: pre j h)
  case Nil
  then show ?case using http_end [of body p pre rest j h] by simp
next
  case (Cons l ls)
  have p: "p = pre @ l @ CR # LF # (http_text ls body @ NUL # rest)" using Cons.prems(3) by simp
  have p': "p = (pre @ l @ CRLF) @ http_text ls body @ NUL # rest" using p by (simp add: CRLF_def)
  have j: "j + length l + 2 = length (pre @ l @ CRLF)" using Cons.prems(4) by (simp add: CRLF_def)
  have IH: "run_loop (http_iter p) (j + length l + 2, j + length l + 2, h')
      = Some (bindE (http_lines False ls h') (http_body body))" for h'
    using Cons.IH [OF _ Cons.prems(2) p' j, of h'] Cons.prems(1) by simp
  have "run_loop (http_iter p) (j, j, h) = (case http_line (j = 0) l h of Inl e \<Rightarrow> Some (Inl e)
      | Inr h' \<Rightarrow> Some (bindE (http_lines False ls h') (http_body body)))"
    using http_segment [OF _ p Cons.prems(4), of h] Cons.prems(1) IH by (simp split: sum.splits)
  then show ?case by (cases "http_line (j = 0) l h") simp_all
qed

lemma get_input_eq:
  assumes "\<forall>l \<in> set ls. clean l" "clean body"
  shows "get_input_http_info (http_text ls body @ NUL # rest) h
    = Some (bindE (http_lines True ls h) (http_body body))"
  using http_run [OF assms, of "http_text ls body @ NUL # rest" "[]" rest 0 h]
  by (simp add: get_input_http_info_def read_cstr_def)

text \<open>What a line of fewer than 1024 bytes does.\<close>

lemma http_line_clean:
  assumes "clean l" "length l < 1024"
  shows "http_line first l h =
    (if first
     then bindE (request_line l h) (\<lambda>h'. bindE (read_cstr (h_method h')) (\<lambda>_.
          bindE (read_cstr (h_header h')) (\<lambda>_. Inr h')))
     else header_line l h)"
proof -
  obtain b where "strncpy (zbuf 1024) l (length l) = Inr b" "holds b 1024 l"
    using strncpy_zbuf_holds [of l "length l" 1024] assms by (auto simp: clean_def)
  then show ?thesis using assms by (simp add: http_line_def clean_cstr holds_read)
qed

lemma http_line_long:
  "1024 \<le> length l \<Longrightarrow> clean l \<Longrightarrow> http_line first l h = Inl (if length l = 1024 then OutOfBounds else BufferOverflow)"
  by (auto simp: http_line_def clean_cstr strncpy_def read_cstr_def clean_def)

lemma http_body_long:
  "1024 \<le> length s \<Longrightarrow> clean s \<Longrightarrow> length (h_content h) = 1024
    \<Longrightarrow> http_body s h = Inl (if length s = 1024 then OutOfBounds else BufferOverflow)"
  by (auto simp: http_body_def clean_cstr strncpy_def read_cstr_def clean_def)

lemma http_lines_append:
  "http_lines first (as @ bs) h = bindE (http_lines first as h) (http_lines (first \<and> as = []) bs)"
  by (induction as arbitrary: first h) (auto simp: bindE_def split: sum.splits)

lemma http_body_clean:
  assumes "clean s" "length s < n" "h_content h = zbuf n"
  shows "\<exists>c. http_body s h = Inr (h\<lparr>h_content := c\<rparr>) \<and> holds c n s"
proof -
  obtain c where "strncpy (zbuf n) s (length s) = Inr c" "holds c n s"
    using strncpy_zbuf_holds [of s "length s" n] assms by (auto simp: clean_def)
  then show ?thesis using assms by (auto simp: http_body_def clean_cstr holds_read)
qed

lemma size_t_diff_eq: "b + 2 \<le> a \<Longrightarrow> a < 2 ^ 64 \<Longrightarrow> size_t_diff a b = a - b - 2"
proof -
  assume a: "b + 2 \<le> a" "a < 2 ^ 64"
  have "of_nat a - of_nat b - (2 :: u64) = of_nat (a - b - 2)"
    using a(1) by (simp add: of_nat_diff)
  then show ?thesis using a(2) by (simp add: size_t_diff_def unat_of_nat take_bit_nat_eq_self)
qed

lemma size_t_diff_wraps: "size_t_diff a a = 2 ^ 64 - 2"
  by (simp add: size_t_diff_def)

text \<open>
  A first line \<open>VERB xPATH VERSION\<close>: the character behind the first blank (the \<open>/\<close> of a request)
  is dropped.
\<close>

lemma request_line_ok:
  assumes "CHR '' '' \<notin> set verb" "CHR '' '' \<notin> set version" "version \<noteq> []"
    and "NUL \<notin> set path" "NUL \<notin> set version" "length version < 256" "length path < 256"
    and h: "h_method h = zbuf 256" "length (h_header h) = 256"
  shows "\<exists>m v. request_line (verb @ CHR '' '' # x # path @ CHR '' '' # version) h = Inr (h\<lparr>h_header := v, h_method := m\<rparr>)
    \<and> holds m 256 path \<and> holds v 256 version"
proof -
  let ?b2 = "CHR '' '' # x # path @ CHR '' '' # version"
  let ?l = "verb @ ?b2"
  have b1: "strrchr ?l CHR '' '' = Some (CHR '' '' # version)"
    using strrchr_append [OF assms(2), of "verb @ CHR '' '' # x # path"] by simp
  have b2: "strchr ?l CHR '' '' = Some ?b2"
    using strchr_append [OF assms(1), of "x # path @ CHR '' '' # version"] by simp
  obtain v where v: "strcpy (h_header h) version = Inr v" "holds v 256 version"
    using strcpy_holds [OF h(2) assms(5,6)] by blast
  have n: "size_t_diff (length ?b2) (Suc (length version)) = length path"
    using size_t_diff_eq [of "Suc (length version)" "length ?b2"] assms(6,7) by simp
  obtain m where m: "strncpy (zbuf 256) (path @ CHR '' '' # version) (length path) = Inr m" "holds m 256 path"
    using strncpy_zbuf_holds [of "path @ CHR '' '' # version" "length path" 256] assms by auto
  show ?thesis
    using b1 b2 v m n h(1) assms(3) by (auto simp: request_line_def)
qed

text \<open>A request line with a single blank: the length of the copy wraps around.\<close>

lemma request_line_one_blank:
  assumes "CHR '' '' \<notin> set a" "CHR '' '' \<notin> set b" "length (h_method h) < 2 ^ 64 - 2"
  shows "request_line (a @ CHR '' '' # b) h = Inl BufferOverflow"
proof -
  have "strrchr (a @ CHR '' '' # b) CHR '' '' = Some (CHR '' '' # b)"
       "strchr (a @ CHR '' '' # b) CHR '' '' = Some (CHR '' '' # b)"
    using strrchr_append [OF assms(2)] strchr_append [OF assms(1)] by blast+
  moreover have "strncpy (h_method h) s (2 ^ 64 - 2) = Inl BufferOverflow" for s
    using assms(3) by (simp add: strncpy_def)
  moreover have "strcpy (h_header h) b = Inl BufferOverflow \<or> (\<exists>v. strcpy (h_header h) b = Inr v)"
    by (simp add: strcpy_def)
  ultimately show ?thesis by (auto simp: request_line_def size_t_diff_wraps)
qed

subsection \<open>Content types\<close>

definition content_type_of :: "string \<Rightarrow> string option" where
  "content_type_of l = (if 14 < length l \<and> has_prefix ''Content-Type:'' l then Some (drop 14 l) else None)"

fun last_content_type :: "string \<Rightarrow> string list \<Rightarrow> string" where
  "last_content_type t [] = t"
| "last_content_type t (l # ls) = last_content_type (case content_type_of l of None \<Rightarrow> t | Some u \<Rightarrow> u) ls"

lemma header_line_content_type:
  assumes "clean l" "length l < 270" "holds (h_content_type h) 256 t"
  shows "\<exists>c. header_line l h = Inr (h\<lparr>h_content_type := c\<rparr>)
    \<and> holds c 256 (case content_type_of l of None \<Rightarrow> t | Some u \<Rightarrow> u)"
proof (cases "content_type_of l")
  case None
  then have "header_line l h = Inr h" by (auto simp: header_line_def content_type_of_def split: if_splits)
  then show ?thesis using None assms(3) by (intro exI [of _ "h_content_type h"]) simp
next
  case (Some u)
  then have l: "14 < length l" "has_prefix ''Content-Type:'' l" "u = drop 14 l"
    by (auto simp: content_type_of_def split: if_splits)
  have "NUL \<notin> set u" using assms(1) l(3) by (auto simp: clean_def dest: in_set_dropD)
  moreover have "length u < 256" using assms(2) l by simp
  ultimately obtain c where "strcpy (h_content_type h) u = Inr c" "holds c 256 u"
    using strcpy_holds [of "h_content_type h" 256 u] assms(3) by (auto simp: holds_def)
  then show ?thesis using l Some by (auto simp: header_line_def)
qed

lemma http_header_lines:
  assumes "\<forall>l \<in> set ls. clean l \<and> length l < 270" "holds (h_content_type h) 256 t"
  shows "\<exists>c. http_lines False ls h = Inr (h\<lparr>h_content_type := c\<rparr>) \<and> holds c 256 (last_content_type t ls)"
  using assms
proof (induction ls arbitrary: h t)
  case Nil
  then show ?case by (intro exI [of _ "h_content_type h"]) simp
next
  case (Cons l ls)
  let ?t = "case content_type_of l of None \<Rightarrow> t | Some u \<Rightarrow> u"
  obtain c where c: "header_line l h = Inr (h\<lparr>h_content_type := c\<rparr>)" "holds c 256 ?t"
    using header_line_content_type [of l h t] Cons.prems by auto
  moreover obtain d where "http_lines False ls (h\<lparr>h_content_type := c\<rparr>)
      = Inr (h\<lparr>h_content_type := c, h_content_type := d\<rparr>)" "holds d 256 (last_content_type ?t ls)"
    using Cons.IH [of "h\<lparr>h_content_type := c\<rparr>" ?t] Cons.prems(1) c(2) by auto
  ultimately show ?case using Cons.prems(1) by (auto simp: http_line_clean)
qed

definition no_info :: http_info where
  "no_info = \<lparr>h_content = zbuf 1024, h_method = zbuf 256, h_header = zbuf 256, h_content_type = zbuf 256\<rparr>"

text \<open>A message of short clean lines, its first line of the form above.\<close>

lemma get_input_message:
  assumes "clean verb" "clean path" "clean version" "clean body" "x \<noteq> NUL" "x \<noteq> CR"
    and "CHR '' '' \<notin> set verb" "CHR '' '' \<notin> set version" "version \<noteq> []"
    and "length verb + length path + length version < 1021" "length version < 256" "length path < 256"
    and hs: "\<forall>l \<in> set hs. clean l \<and> length l < 270" and "length body < 1024"
  shows "\<exists>h. get_input_http_info
      (http_text ((verb @ CHR '' '' # x # path @ CHR '' '' # version) # hs) body @ NUL # rest) no_info = Some (Inr h)
    \<and> holds (h_content h) 1024 body \<and> holds (h_method h) 256 path \<and> holds (h_header h) 256 version
    \<and> holds (h_content_type h) 256 (last_content_type '''' hs)"
proof -
  let ?l = "verb @ CHR '' '' # x # path @ CHR '' '' # version"
  have l: "clean ?l" "length ?l < 1024" using assms by (auto simp: NUL_def CR_def)
  obtain m v where r: "request_line ?l no_info = Inr (no_info\<lparr>h_header := v, h_method := m\<rparr>)"
      "holds m 256 path" "holds v 256 version"
    using request_line_ok [of verb version path no_info x] assms by (auto simp: clean_def no_info_def)
  let ?h = "no_info\<lparr>h_header := v, h_method := m\<rparr>"
  obtain c where c: "http_lines False hs ?h = Inr (?h\<lparr>h_content_type := c\<rparr>)"
      "holds c 256 (last_content_type '''' hs)"
    using http_header_lines [OF hs, of ?h "''''"] by (auto simp: no_info_def)
  obtain b where b: "http_body body (?h\<lparr>h_content_type := c\<rparr>) = Inr (?h\<lparr>h_content_type := c, h_content := b\<rparr>)"
      "holds b 1024 body"
    using http_body_clean [of body 1024 "?h\<lparr>h_content_type := c\<rparr>"] assms by (auto simp: no_info_def)
  have "http_lines True (?l # hs) no_info = Inr (?h\<lparr>h_content_type := c\<rparr>)"
    using http_line_clean [OF l, of True no_info] r c by (simp add: holds_read)
  moreover have "\<forall>l \<in> set (?l # hs). clean l" using l hs by simp
  ultimately show ?thesis
    using get_input_eq [of "?l # hs" body rest no_info] assms(4) b r c by simp
qed

definition response_lines :: "string \<Rightarrow> string \<Rightarrow> string \<Rightarrow> string \<Rightarrow> string list" where
  "response_lines http_header content_type ctime send_http_content =
     [http_header @ '' 200 OK'', ''Content-Type: '' @ content_type, ''Server: localhost'',
      ''Content-Length: '' @ dec (length send_http_content), ''Date: '' @ ctime]"

lemma set_output_text:
  assumes "NUL \<notin> set content" "NUL \<notin> set hdr" "NUL \<notin> set ct" "NUL \<notin> set ctime" "length content < 10 ^ 19"
    and "length (http_text (response_lines hdr ct ctime content) content) < n"
  shows "\<exists>b. set_output_http_info (zbuf n) content hdr ct ctime = Inr b
    \<and> holds b n (http_text (response_lines hdr ct ctime content) content)"
proof -
  let ?ts = "['' 200 OK'', CRLF @ ''Content-Type: '', ct, CRLF @ ''Server: localhost'', CRLF @ ''Content-Length: '']"
  let ?us = "[dec (length content), CRLF @ ''Date: '', ctime, CRLF, content]"
  have eqt: "hdr @ concat ?ts @ concat ?us = http_text (response_lines hdr ct ctime content) content"
    by (simp add: http_text_def response_lines_def)
  obtain b0 where b0: "strcpy (zbuf n) hdr = Inr b0" "holds b0 n hdr"
    using strcpy_holds [of "zbuf n" n hdr] assms(2,6) eqt by (auto simp: response_lines_def)
  have lit: "NUL \<notin> set '' 200 OK''" "NUL \<notin> set ''Content-Type: ''" "NUL \<notin> set ''Server: localhost''"
      "NUL \<notin> set ''Content-Length: ''" "NUL \<notin> set ''Date: ''" "NUL \<notin> set CRLF"
    by (simp_all add: NUL_def CRLF_def CR_def LF_def)
  have lens: "length hdr + length (concat ?ts) + length (concat ?us) < n"
    using assms(6) unfolding eqt [symmetric] by simp
  have "\<exists>b'. strcats b0 ?ts = Inr b' \<and> holds b' n (hdr @ concat ?ts)"
    by (rule strcats_holds [OF b0(2)]) (use lit assms(3) lens in auto)
  then obtain b1 where b1: "strcats b0 ?ts = Inr b1" "holds b1 n (hdr @ concat ?ts)" by blast
  have "length (dec (length content)) < 20"
    using length_dec_le [of "length content" 18] assms(5) by simp
  then obtain d where d: "strcpy (zbuf 20) (dec (length content)) = Inr d" "holds d 20 (dec (length content))"
    using strcpy_holds [of "zbuf 20" 20 "dec (length content)"] by auto
  have "\<exists>b'. strcats b1 ?us = Inr b' \<and> holds b' n ((hdr @ concat ?ts) @ concat ?us)"
    by (rule strcats_holds [OF b1(2)]) (use lit assms(1,4) lens in auto)
  then show ?thesis
    using b0(1) b1(1) d eqt by (auto simp: set_output_http_info_def holds_read)
qed

lemma request_line_frame: "request_line buf h = Inr h' \<Longrightarrow> h_content h' = h_content h"
  by (cases "strrchr buf CHR '' ''"; cases "strchr buf CHR '' ''")
     (auto simp: request_line_def bindE_Inr_iff split: if_splits)

lemma header_line_frame: "header_line buf h = Inr h' \<Longrightarrow> h_content h' = h_content h"
  by (auto simp: header_line_def bindE_Inr_iff split: if_splits)

lemma http_line_frame: "http_line first l h = Inr h' \<Longrightarrow> h_content h' = h_content h"
  using request_line_frame header_line_frame
  by (cases first) (fastforce simp: http_line_def bindE_Inr_iff)+

lemma http_lines_frame: "http_lines first ls h = Inr h' \<Longrightarrow> h_content h' = h_content h"
  by (induction ls arbitrary: first h) (auto simp: bindE_Inr_iff dest: http_line_frame)

lemma http_text_length: "length (http_text ls body) = (\<Sum>l \<leftarrow> ls. length l + 2) + length body"
  by (induction ls) simp_all

subsection \<open>Properties\<close>

text \<open>C26. The parser reads a message line by line: on any message of lines without NUL and carriage
  return the index loop of the code does what a fold over its lines and then the body does, and it
  always ends.\<close>

theorem get_input_is_line_parser:
  assumes "\<forall>l \<in> set ls. clean l" "clean body"
  shows "get_input_http_info (http_text ls body @ NUL # rest) h
    = Some (bindE (http_lines True ls h) (http_body body))"
  using assms by (rule get_input_eq)

theorem get_input_is_line_parser_witness:
  "get_input_http_info (http_text [''A: b''] ''{}'' @ NUL # []) no_info
    = Some (bindE (http_lines True [''A: b''] no_info) (http_body ''{}''))"
  by (rule get_input_is_line_parser) (simp_all add: clean_def NUL_def CR_def)

text \<open>A request \<open>VERB /path VERSION\<close> with header lines and a body is taken apart as it was meant:
  the method is the path without its slash, the header is the version, the content type is the last
  one given, the content is the body.\<close>

theorem get_input_parses_request:
  assumes "clean verb" "clean path" "clean version" "clean body"
    and "CHR '' '' \<notin> set verb" "CHR '' '' \<notin> set version" "version \<noteq> []"
    and "length verb + length path + length version < 1021" "length version < 256" "length path < 256"
    and "\<forall>l \<in> set hs. clean l \<and> length l < 270" and "length body < 1024"
  shows "\<exists>h. get_input_http_info
      (http_text ((verb @ '' /'' @ path @ '' '' @ version) # hs @ ['''']) body @ NUL # rest) no_info = Some (Inr h)
    \<and> holds (h_content h) 1024 body \<and> holds (h_method h) 256 path \<and> holds (h_header h) 256 version
    \<and> holds (h_content_type h) 256 (last_content_type '''' hs)"
proof -
  have "CHR ''/'' \<noteq> NUL" "CHR ''/'' \<noteq> CR" by (simp_all add: NUL_def CR_def)
  moreover have "last_content_type t (ls @ ['''']) = last_content_type t ls" for t ls
    by (induction ls arbitrary: t) (simp_all add: content_type_of_def)
  ultimately show ?thesis
    using get_input_message [of verb path version body "CHR ''/''" "hs @ ['''']" rest] assms by simp
qed

theorem get_input_parses_request_witness:
  "\<exists>h. get_input_http_info (http_text ((''POST'' @ '' /'' @ ''xor'' @ '' '' @ ''HTTP/1.1'')
        # [''Content-Type: text''] @ ['''']) ''{}'' @ NUL # []) no_info = Some (Inr h)
    \<and> holds (h_content h) 1024 ''{}'' \<and> holds (h_method h) 256 ''xor'' \<and> holds (h_header h) 256 ''HTTP/1.1''
    \<and> holds (h_content_type h) 256 (last_content_type '''' [''Content-Type: text''])"
  by (rule get_input_parses_request) (simp_all add: clean_def NUL_def CR_def)

text \<open>A request whose first line has exactly one blank crashes the server: the length of the copied
  method, \<open>strlen (buf2) - strlen (buf1) - 2\<close>, wraps around to 2^64 - 2.\<close>

theorem get_input_one_blank_overflows:
  assumes "clean a" "clean b" "CHR '' '' \<notin> set a" "CHR '' '' \<notin> set b" "length a + length b < 1023"
    and "\<forall>l \<in> set hs. clean l" "clean body"
  shows "get_input_http_info (http_text ((a @ CHR '' '' # b) # hs) body @ NUL # rest) no_info
    = Some (Inl BufferOverflow)"
proof -
  have l: "clean (a @ CHR '' '' # b)" "length (a @ CHR '' '' # b) < 1024" using assms by (auto simp: NUL_def CR_def)
  have "request_line (a @ CHR '' '' # b) no_info = Inl BufferOverflow"
    using request_line_one_blank [OF assms(3,4)] by (simp add: no_info_def)
  then show ?thesis
    using get_input_eq [of "(a @ CHR '' '' # b) # hs" body rest no_info] assms(6,7) l
      http_line_clean [OF l, of True no_info] by simp
qed

theorem get_input_one_blank_overflows_witness:
  "get_input_http_info (http_text ((''GET'' @ CHR '' '' # ''/index'') # ['''']) '''' @ NUL # []) no_info
    = Some (Inl BufferOverflow)"
  by (rule get_input_one_blank_overflows) (simp_all add: clean_def NUL_def CR_def)

text \<open>C38. Bounds, exactly: once the lines before it have been parsed, a line of more than 1024 bytes is
  written past the end of its array, and so is a body of more than 1024 bytes; one of exactly 1024
  bytes fills the array without a terminating NUL, and the logging that follows reads past it; a
  shorter body is stored whole. The parser does not check the lengths it is sent.\<close>

theorem get_input_long_input_faults:
  assumes "\<forall>l \<in> set before. clean l" "http_lines True before h = Inr g" "clean body" "h_content h = zbuf 1024"
  shows "(\<forall>l ls. clean l \<longrightarrow> (\<forall>l' \<in> set ls. clean l') \<longrightarrow> 1024 \<le> length l \<longrightarrow>
        get_input_http_info (http_text (before @ l # ls) body @ NUL # rest) h
          = Some (Inl (if length l = 1024 then OutOfBounds else BufferOverflow)))
    \<and> (1024 \<le> length body \<longrightarrow> get_input_http_info (http_text before body @ NUL # rest) h
          = Some (Inl (if length body = 1024 then OutOfBounds else BufferOverflow)))
    \<and> (length body < 1024 \<longrightarrow> (\<exists>c. holds c 1024 body \<and>
          get_input_http_info (http_text before body @ NUL # rest) h = Some (Inr (g\<lparr>h_content := c\<rparr>))))"
proof (intro conjI allI impI)
  have c: "h_content g = zbuf 1024" using http_lines_frame [OF assms(2)] assms(4) by simp
  show "get_input_http_info (http_text (before @ l # ls) body @ NUL # rest) h
      = Some (Inl (if length l = 1024 then OutOfBounds else BufferOverflow))"
    if "clean l" "\<forall>l' \<in> set ls. clean l'" "1024 \<le> length l" for l ls
  proof -
    have "\<forall>x \<in> set (before @ l # ls). clean x" using assms(1) that(1,2) by auto
    from get_input_eq [OF this assms(3)] show ?thesis
      using that(1,3) by (simp add: http_lines_append assms(2) http_line_long)
  qed
  show "get_input_http_info (http_text before body @ NUL # rest) h
      = Some (Inl (if length body = 1024 then OutOfBounds else BufferOverflow))" if "1024 \<le> length body"
    using get_input_eq [OF assms(1,3), of rest h] assms(2) http_body_long [OF that assms(3), of g] c by simp
  show "\<exists>c. holds c 1024 body \<and> get_input_http_info (http_text before body @ NUL # rest) h = Some (Inr (g\<lparr>h_content := c\<rparr>))"
    if "length body < 1024"
    using get_input_eq [OF assms(1,3), of rest h] assms(2) http_body_clean [OF assms(3) that c] by auto
qed

theorem get_input_long_input_faults_witness:
  "get_input_http_info (http_text ([''A''] @ replicate 2000 CHR ''x'' # [''B'']) '''' @ NUL # []) no_info = Some (Inl BufferOverflow)
    \<and> get_input_http_info (http_text [''A''] (replicate 1024 CHR ''x'') @ NUL # []) no_info = Some (Inl OutOfBounds)"
proof
  have cl: "clean (replicate n CHR ''x'')" for n by (rule clean_replicate) (simp_all add: NUL_def CR_def)
  have ab: "clean ''A''" "clean ''B''" by (simp_all add: clean_def NUL_def CR_def)
  have "http_lines True [''A''] no_info = Inr no_info"
    using http_line_clean [OF ab(1), of True no_info] by (simp add: request_line_def strchr_def no_info_def)
  note limits = get_input_long_input_faults [of "[''A'']" no_info, OF _ this]
  show "get_input_http_info (http_text ([''A''] @ replicate 2000 CHR ''x'' # [''B'']) '''' @ NUL # []) no_info = Some (Inl BufferOverflow)"
    using limits [of "''''" "[]", THEN conjunct1, rule_format, of "replicate 2000 CHR ''x''" "[''B'']"] cl ab
    by (simp add: no_info_def)
  show "get_input_http_info (http_text [''A''] (replicate 1024 CHR ''x'') @ NUL # []) no_info = Some (Inl OutOfBounds)"
    using limits [of "replicate 1024 CHR ''x''" "[]", THEN conjunct2, THEN conjunct1] cl ab
    by (simp add: no_info_def)
qed

lemma response_fits:
  assumes "clean content" "clean hdr" "clean ct" "clean day"
    and "length content < 1024" "length hdr < 1000" "length ct < 257" "length day < 200"
  shows "\<exists>b. set_output_http_info (zbuf 16384) content hdr ct (day @ [LF]) = Inr b
    \<and> holds b 16384 (http_text (response_lines hdr ct (day @ [LF]) content) content)"
proof -
  have "length (dec (length content)) \<le> 4" using length_dec_le [of "length content" 3] assms(5) by simp
  then have "length (http_text (response_lines hdr ct (day @ [LF]) content) content) < 16384"
    using assms by (simp add: http_text_length response_lines_def)
  from set_output_text [OF _ _ _ _ _ this] show ?thesis using assms by (auto simp: clean_def)
qed

text \<open>C32. Round trip: the response the server builds, read by the server's own parser, gives back the
  content, the content type and the status; the text fits the array for every content and content
  type the server can hold.\<close>

theorem response_roundtrip:
  assumes "clean content" "clean hdr" "clean ct" "clean day" "CHR '' '' \<notin> set hdr"
    and "length content < 1024" "length hdr < 1000" "length ct < 250" "length day < 200" "ct \<noteq> ''''"
  shows "\<exists>b h. set_output_http_info (zbuf 16384) content hdr ct (day @ [LF]) = Inr b
    \<and> holds b 16384 (http_text (response_lines hdr ct (day @ [LF]) content) content)
    \<and> get_input_http_info b no_info = Some (Inr h)
    \<and> holds (h_content h) 1024 content \<and> holds (h_header h) 256 ''OK'' \<and> holds (h_content_type h) 256 ct"
proof -
  let ?ls = "response_lines hdr ct (day @ [LF]) content"
  let ?tl = "[''Content-Type: '' @ ct, ''Server: localhost'', ''Content-Length: '' @ dec (length content),
      ''Date: '' @ day @ [LF]]"
  have dl: "length (dec (length content)) \<le> 4" using length_dec_le [of "length content" 3] assms(6) by simp
  obtain b where b: "set_output_http_info (zbuf 16384) content hdr ct (day @ [LF]) = Inr b"
      "holds b 16384 (http_text ?ls content)"
    using response_fits [OF assms(1-4,6,7) _ assms(9)] assms(8) by auto
  obtain rest where rest: "b = http_text ?ls content @ NUL # rest" using holds_split [OF b(2)] by blast
  have ls: "?ls = (hdr @ CHR '' '' # CHR ''2'' # ''00'' @ CHR '' '' # ''OK'') # ?tl"
    by (simp add: response_lines_def)
  have short: "\<forall>l \<in> set ?tl. clean l \<and> length l < 270"
    using assms dl by (auto simp: NUL_def CR_def LF_def)
  have ct: "last_content_type '''' ?tl = ct"
    using assms(10) by (simp add: content_type_of_def has_prefix_def)
  have k: "clean ''00''" "clean ''OK''" "CHR ''2'' \<noteq> NUL" "CHR ''2'' \<noteq> CR"
    by (simp_all add: NUL_def CR_def)
  obtain h where "get_input_http_info b no_info = Some (Inr h)" "holds (h_content h) 1024 content"
      "holds (h_header h) 256 ''OK''" "holds (h_content_type h) 256 (last_content_type '''' ?tl)"
    using get_input_message [OF assms(2) k(1,2) assms(1) k(3,4) assms(5) _ _ _ _ _ short assms(6), of rest] assms(7)
    unfolding rest ls by auto
  then show ?thesis using b ct by auto
qed

theorem response_roundtrip_witness:
  "\<exists>b h. set_output_http_info (zbuf 16384) ''{}'' ''HTTP/1.1'' ''text'' (''Mon'' @ [LF]) = Inr b
    \<and> holds b 16384 (http_text (response_lines ''HTTP/1.1'' ''text'' (''Mon'' @ [LF]) ''{}'') ''{}'')
    \<and> get_input_http_info b no_info = Some (Inr h)
    \<and> holds (h_content h) 1024 ''{}'' \<and> holds (h_header h) 256 ''OK'' \<and> holds (h_content_type h) 256 ''text''"
  by (rule response_roundtrip) (simp_all add: clean_def NUL_def CR_def)

end
