(* ===== verification/DirScan.thy ===== *)
theory DirScan
  imports CString
begin

text \<open>
  The loop over a directory that \<open>src/json.cpp\<close> and \<open>src/sock.cpp\<close> both contain: every visible
  entry is looked up with \<open>stat\<close> and the ones that are no directories are collected.

  The file system is a parameter: \<open>stat_dir\<close> gives \<open>None\<close> where \<open>stat\<close> fails and whether the path
  is a directory otherwise, \<open>opendir\<close> gives the entry names \<open>readdir\<close> returns one after the other.
  The interface \<open>dir_listing\<close> states what one iteration of the loop does; each of the two components
  interprets it on the loop body of its own source.
\<close>

record dir_env =
  stat_dir :: "string \<Rightarrow> bool option"
  opendir :: "string \<Rightarrow> string list option"

definition MAX_PATH_SIZE :: nat where "MAX_PATH_SIZE = 256"

text \<open>The state of the loop: whether the last successful \<open>stat\<close> found a directory, the array with
  the path, and the paths collected.\<close>

record scan =
  st_dir :: bool
  p_buf :: cbuf
  dir_file_path :: "string list"

definition hidden :: "string \<Rightarrow> bool" where
  "hidden d_name \<longleftrightarrow> has_prefix ''.'' d_name \<or> has_prefix ''..'' d_name"

definition entry_path :: "string \<Rightarrow> string \<Rightarrow> string" where
  "entry_path path d_name = take 254 (path @ ''/'' @ d_name)"

lemma hidden_iff: "hidden d_name \<longleftrightarrow> (\<exists>r. d_name = CHR ''.'' # r)"
  by (cases d_name) (auto simp: hidden_def has_prefix_def)

text \<open>The visible entries that are no directories, as paths.\<close>

definition regular_entries :: "dir_env \<Rightarrow> string \<Rightarrow> string list \<Rightarrow> string list" where
  "regular_entries env path names =
     filter (\<lambda>p. stat_dir env p = Some False) (map (entry_path path) (filter (\<lambda>n. \<not> hidden n) names))"

text \<open>One iteration on a visible entry, as a function of the path it builds.\<close>

definition visit :: "dir_env \<Rightarrow> string \<Rightarrow> scan \<Rightarrow> scan" where
  "visit env p s =
     (let d = (case stat_dir env p of Some b \<Rightarrow> b | None \<Rightarrow> st_dir s)
      in s\<lparr>st_dir := d, dir_file_path := dir_file_path s @ (if d then [] else [p])\<rparr>)"

text \<open>The \<open>readdir\<close> loop around a loop body.\<close>

fun entries :: "(dir_env \<Rightarrow> string \<Rightarrow> string \<Rightarrow> scan \<Rightarrow> fault + scan) \<Rightarrow> dir_env \<Rightarrow> string \<Rightarrow> string list \<Rightarrow> scan \<Rightarrow> fault + scan" where
  "entries entry env path [] s = Inr s"
| "entries entry env path (n # ns) s = bindE (entry env path n s) (entries entry env path ns)"

locale dir_listing =
  fixes entry :: "dir_env \<Rightarrow> string \<Rightarrow> string \<Rightarrow> scan \<Rightarrow> fault + scan"
  assumes entry_hidden: "hidden n \<Longrightarrow> entry env path n s = Inr s"
    and entry_visible: "\<not> hidden n \<Longrightarrow> NUL \<notin> set path \<Longrightarrow> NUL \<notin> set n \<Longrightarrow> length (p_buf s) = MAX_PATH_SIZE \<Longrightarrow>
      \<exists>b. entry env path n s = Inr ((visit env (entry_path path n) s)\<lparr>p_buf := b\<rparr>) \<and> length b = MAX_PATH_SIZE"
begin

text \<open>The listing never faults: the path is cut down to the array.\<close>

lemma entries_total:
  assumes "NUL \<notin> set path" "\<forall>n \<in> set names. NUL \<notin> set n" "length (p_buf s) = MAX_PATH_SIZE"
  shows "\<exists>s'. entries entry env path names s = Inr s' \<and> length (p_buf s') = MAX_PATH_SIZE"
  using assms
proof (induction names arbitrary: s)
  case (Cons n ns)
  show ?case
  proof (cases "hidden n")
    case True
    then show ?thesis using Cons by (simp add: entry_hidden)
  next
    case False
    then obtain b where b: "entry env path n s = Inr ((visit env (entry_path path n) s)\<lparr>p_buf := b\<rparr>)"
        "length b = MAX_PATH_SIZE"
      using entry_visible [of n path s env] Cons.prems by auto
    then show ?thesis using Cons.IH [of "(visit env (entry_path path n) s)\<lparr>p_buf := b\<rparr>"] Cons.prems by simp
  qed
qed simp

text \<open>Where every visible entry can be looked up, exactly the regular ones are collected, in order.\<close>

lemma entries_collect:
  assumes "NUL \<notin> set path" "\<forall>n \<in> set names. NUL \<notin> set n" "length (p_buf s) = MAX_PATH_SIZE"
    and "\<forall>n \<in> set names. \<not> hidden n \<longrightarrow> stat_dir env (entry_path path n) \<noteq> None"
  shows "\<exists>s'. entries entry env path names s = Inr s' \<and> length (p_buf s') = MAX_PATH_SIZE
    \<and> dir_file_path s' = dir_file_path s @ regular_entries env path names"
  using assms
proof (induction names arbitrary: s)
  case Nil
  then show ?case by (simp add: regular_entries_def)
next
  case (Cons n ns)
  show ?case
  proof (cases "hidden n")
    case True
    then show ?thesis using Cons by (simp add: entry_hidden regular_entries_def)
  next
    case False
    let ?p = "entry_path path n"
    obtain b where b: "entry env path n s = Inr ((visit env ?p s)\<lparr>p_buf := b\<rparr>)" "length b = MAX_PATH_SIZE"
      using False entry_visible [of n path s env] Cons.prems by auto
    obtain d where d: "stat_dir env ?p = Some d" using False Cons.prems(4) by auto
    have "dir_file_path (visit env ?p s) = dir_file_path s @ (if d then [] else [?p])"
      using d by (simp add: visit_def)
    then show ?thesis
      using Cons.IH [of "(visit env ?p s)\<lparr>p_buf := b\<rparr>"] Cons.prems b d False
      by (cases d) (simp_all add: regular_entries_def)
  qed
qed

text \<open>A listing with no visible entry changes nothing.\<close>

lemma entries_all_hidden: "\<forall>n \<in> set names. hidden n \<Longrightarrow> entries entry env path names s = Inr s"
  by (induction names) (simp_all add: entry_hidden)

end

lemma snprintf_path:
  assumes "NUL \<notin> set s" "length b = MAX_PATH_SIZE"
  shows "\<exists>b'. snprintf b (MAX_PATH_SIZE - 1) s = Inr b' \<and> holds b' MAX_PATH_SIZE (take 254 s)"
proof -
  have "NUL \<notin> set (take 254 s)" using assms(1) by (auto dest: in_set_takeD)
  then show ?thesis
    using strcpy_holds [of b MAX_PATH_SIZE "take 254 s"] assms(2)
    by (simp add: snprintf_def MAX_PATH_SIZE_def)
qed

end
