(* ===== verification/Json.thy ===== *)
theory Json
  imports Common ReturnCodes DirScan
begin

text \<open>
  \<open>src/json.cpp\<close>: the JSON texts the server sends, as the bytes \<open>sprintf\<close> and \<open>strcat\<close> put into
  fixed arrays, and the requests it reads.

  The cJSON library is the parameter \<open>cjson\<close>; of it the code only uses that a parsed value has
  members, array items and a string. A missing \<open>valuestring\<close> is the null pointer: \<open>strcpy\<close>,
  \<open>atoi\<close> and \<open>std::string\<close> fault on it. \<open>errno\<close> and \<open>strerror\<close> are arguments.
\<close>

subsection \<open>The cJSON library\<close>

record 'j cjson =
  Parse :: "string \<Rightarrow> 'j option"
  GetObjectItem :: "'j \<Rightarrow> string \<Rightarrow> 'j option"
  GetArraySize :: "'j \<Rightarrow> nat"
  GetArrayItem :: "'j \<Rightarrow> nat \<Rightarrow> 'j option"
  valuestring :: "'j \<Rightarrow> string option"

text \<open>\<open>cJSON_GetObjectItem\<close> answers a null object with null.\<close>

definition item_of :: "'j cjson \<Rightarrow> 'j option \<Rightarrow> string \<Rightarrow> 'j option" where
  "item_of c object key = (case object of None \<Rightarrow> None | Some j \<Rightarrow> GetObjectItem c j key)"

definition string_of :: "'j cjson \<Rightarrow> 'j \<Rightarrow> fault + string" where
  "string_of c item = (case valuestring c item of None \<Rightarrow> Inl NullDeref | Some s \<Rightarrow> Inr s)"

definition copy_value :: "'j cjson \<Rightarrow> cbuf \<Rightarrow> 'j \<Rightarrow> fault + cbuf" where
  "copy_value c dest item = bindE (string_of c item) (strcpy dest)"

subsection \<open>\<open>set_send_json_info\<close> and \<open>set_send_json_xor_size\<close>\<close>

definition with_errno :: "cbuf \<Rightarrow> string \<Rightarrow> string \<Rightarrow> string \<Rightarrow> fault + cbuf" where
  "with_errno message c_errno what strerr =
     bindE (strcpy message c_errno) (\<lambda>m. bindE (strcat m what) (\<lambda>m. strcat m strerr))"

definition json_message :: "int \<Rightarrow> string \<Rightarrow> string \<Rightarrow> cbuf \<Rightarrow> fault + cbuf" where
  "json_message ret c_errno strerr message =
     (if ret = RIGHT then strcpy message ''success!''
      else if ret = ERROR_FILE_PATH then strcpy message ''file path error''
      else if ret = ERROR_FILE_SIZE then strcpy message ''File sizes are inconsistent''
      else if ret = ERROR_FILE_OPEN then with_errno message c_errno '',Error opening file,'' strerr
      else if ret = ERROR_APPLY_MALLOC then with_errno message c_errno '',Request memory error,'' strerr
      else if ret = ERROR_FREAD_FILE then with_errno message c_errno '',The fread file failed,'' strerr
      else if ret = ERROR_FWRITE_FILE then with_errno message c_errno '',The fwrite file failed,'' strerr
      else if ret = ERROR_CJSON_PARSE then strcpy message ''error cjson parse''
      else if ret = ERROR_OUTPUT_FILE then with_errno message c_errno '',Error opening output file,'' strerr
      else if ret = ERROR_METHOD_NOT_FOUND then strcpy message ''Error method not found''
      else strcpy message ''unknown error'')"

definition QUOTE :: string where "QUOTE = [CHR 0x22]"

definition json_answer :: "int \<Rightarrow> string \<Rightarrow> string" where
  "json_answer ret message =
     ''{'' @ QUOTE @ ''code'' @ QUOTE @ '':'' @ QUOTE @ fmt_d ret @ QUOTE @ '', '' @ QUOTE @ ''message''
       @ QUOTE @ '':'' @ QUOTE @ message @ QUOTE @ ''}''"

definition set_send_json_info :: "cbuf \<Rightarrow> int \<Rightarrow> int \<Rightarrow> string \<Rightarrow> fault + cbuf" where
  "set_send_json_info send_http_content ret errno strerr =
     bindE (strcpy (zbuf 16) (fmt_d errno)) (\<lambda>c_errno.
     bindE (read_cstr c_errno) (\<lambda>e.
     bindE (json_message ret e strerr (zbuf 256)) (\<lambda>message.
     bindE (read_cstr message) (\<lambda>m. strcpy send_http_content (json_answer ret m)))))"

text \<open>The format string of \<open>set_send_json_xor_size\<close> in UTF-8.\<close>

definition utf8 :: "nat list \<Rightarrow> string" where
  "utf8 = map char_of"

definition set_send_json_xor_size :: "cbuf \<Rightarrow> int \<Rightarrow> int \<Rightarrow> fault + cbuf" where
  "set_send_json_xor_size send_http_content file_size xor_size =
     strcpy send_http_content
       (utf8 [0xE6, 0x96, 0x87, 0xE4, 0xBB, 0xB6, 0xE7, 0x9A, 0x84, 0xE6, 0x80, 0xBB, 0xE5, 0xAD, 0x97,
          0xE8, 0x8A, 0x82, 0xE6, 0x95, 0xB0, 0xEF, 0xBC, 0x9A]
        @ fmt_d file_size @ '', ''
        @ utf8 [0xE6, 0x96, 0x87, 0xE4, 0xBB, 0xB6, 0xE5, 0xB7, 0xB2, 0xE7, 0xBB, 0x8F, 0xE5, 0xBC, 0x82,
          0xE6, 0x88, 0x96, 0xE7, 0x9A, 0x84, 0xE5, 0xAD, 0x97, 0xE8, 0x8A, 0x82, 0xE6, 0x95, 0xB0,
          0xE4, 0xB8, 0xBA, 0xEF, 0xBC, 0x9A]
        @ fmt_d xor_size)"

text \<open>The message text the code stands for.\<close>

definition errno_what :: "int \<Rightarrow> string option" where
  "errno_what ret =
     (if ret = ERROR_FILE_OPEN then Some '',Error opening file,''
      else if ret = ERROR_APPLY_MALLOC then Some '',Request memory error,''
      else if ret = ERROR_FREAD_FILE then Some '',The fread file failed,''
      else if ret = ERROR_FWRITE_FILE then Some '',The fwrite file failed,''
      else if ret = ERROR_OUTPUT_FILE then Some '',Error opening output file,'' else None)"

definition plain_text :: "int \<Rightarrow> string" where
  "plain_text ret =
     (if ret = RIGHT then ''success!''
      else if ret = ERROR_FILE_PATH then ''file path error''
      else if ret = ERROR_FILE_SIZE then ''File sizes are inconsistent''
      else if ret = ERROR_CJSON_PARSE then ''error cjson parse''
      else if ret = ERROR_METHOD_NOT_FOUND then ''Error method not found'' else ''unknown error'')"

definition message_text :: "int \<Rightarrow> int \<Rightarrow> string \<Rightarrow> string" where
  "message_text ret errno strerr =
     (case errno_what ret of Some w \<Rightarrow> fmt_d errno @ w @ strerr | None \<Rightarrow> plain_text ret)"

lemma json_message_eq:
  "json_message ret e strerr m =
     (case errno_what ret of Some w \<Rightarrow> with_errno m e w strerr | None \<Rightarrow> strcpy m (plain_text ret))"
  unfolding json_message_def errno_what_def plain_text_def by (simp add: codes)

lemma fmt_d_clean [simp]: "NUL \<notin> set (fmt_d i)" "CR \<notin> set (fmt_d i)"
  by (auto simp: fmt_d_def) (simp_all add: NUL_def CR_def)

lemma length_fmt_d: "\<bar>i\<bar> < 10 ^ Suc k \<Longrightarrow> length (fmt_d i) \<le> k + 2"
proof -
  assume i: "\<bar>i\<bar> < 10 ^ Suc k"
  then have "nat \<bar>i\<bar> < 10 ^ Suc k" by (simp add: nat_less_iff)
  then have "length (dec (nat \<bar>i\<bar>)) \<le> Suc k" by (rule length_dec_le)
  then show ?thesis by (cases "i < 0") (simp_all add: fmt_d_def)
qed

lemma literals_clean:
  "errno_what ret = Some w \<Longrightarrow> clean w \<and> length w \<le> 27" "clean (plain_text ret)" "length (plain_text ret) \<le> 27"
  by (auto simp: errno_what_def plain_text_def clean_def NUL_def CR_def split: if_splits)

lemma with_errno_holds:
  assumes "length m = n" "NUL \<notin> set e" "NUL \<notin> set w" "NUL \<notin> set s" "length e + length w + length s < n"
  shows "\<exists>b. with_errno m e w s = Inr b \<and> holds b n (e @ w @ s)"
proof -
  obtain b1 where b1: "strcpy m e = Inr b1" "holds b1 n e" using strcpy_holds [of m n e] assms by auto
  obtain b2 where b2: "strcat b1 w = Inr b2" "holds b2 n (e @ w)" using strcat_holds [OF b1(2), of w] assms by auto
  show ?thesis using strcat_holds [OF b2(2), of s] assms b1 b2 by (auto simp: with_errno_def)
qed

lemma json_message_holds:
  assumes "NUL \<notin> set strerr" "length strerr < 200" "\<bar>errno\<bar> < 10 ^ 10"
  shows "\<exists>m. json_message ret (fmt_d errno) strerr (zbuf 256) = Inr m \<and> holds m 256 (message_text ret errno strerr)"
proof (cases "errno_what ret")
  case None
  then show ?thesis
    using strcpy_holds [of "zbuf 256" 256 "plain_text ret"] literals_clean(2,3) [of ret]
    by (auto simp: json_message_eq message_text_def clean_def)
next
  case (Some w)
  have "length (fmt_d errno) \<le> 11" using length_fmt_d [of errno 9] assms(3) by simp
  then show ?thesis
    using with_errno_holds [of "zbuf 256" 256 "fmt_d errno" w strerr] literals_clean(1) [OF Some] assms Some
    by (auto simp: json_message_eq message_text_def clean_def)
qed

lemma message_text_clean: "clean strerr \<Longrightarrow> clean (message_text ret errno strerr)"
  using literals_clean(1,2) [of ret] by (cases "errno_what ret") (auto simp: message_text_def clean_def)

lemma json_answer_clean: "clean m \<Longrightarrow> clean (json_answer ret m)"
  by (simp add: json_answer_def QUOTE_def clean_def) (simp add: NUL_def CR_def)

lemma json_answer_length: "length (json_answer ret m) = 25 + length (fmt_d ret) + length m"
  by (simp add: json_answer_def QUOTE_def)

lemma set_send_json_info_eq:
  assumes "NUL \<notin> set strerr" "length strerr < 200" "\<bar>errno\<bar> < 10 ^ 10"
  shows "set_send_json_info b ret errno strerr = strcpy b (json_answer ret (message_text ret errno strerr))"
proof -
  have "length (fmt_d errno) < 16" using length_fmt_d [of errno 9] assms(3) by simp
  then obtain c where "strcpy (zbuf 16) (fmt_d errno) = Inr c" "holds c 16 (fmt_d errno)"
    using strcpy_holds [of "zbuf 16" 16 "fmt_d errno"] by auto
  moreover obtain m where "json_message ret (fmt_d errno) strerr (zbuf 256) = Inr m"
      "holds m 256 (message_text ret errno strerr)"
    using json_message_holds [OF assms] by blast
  ultimately show ?thesis by (simp add: set_send_json_info_def holds_read)
qed

lemma message_text_length:
  assumes "\<bar>errno\<bar> < 10 ^ 3"
  shows "length (message_text ret errno strerr) \<le> 31 + length strerr"
  using literals_clean(1,3) [of ret] length_fmt_d [of errno 2] assms
  by (cases "errno_what ret") (auto simp: message_text_def)

text \<open>The answer is read back: the number behind \<open>"code":"\<close>.\<close>

lemma digits_val_stop: "\<not> is_digit c \<Longrightarrow> \<forall>d \<in> set xs. is_digit d \<Longrightarrow> digits_val a (xs @ c # r) = digits_val a xs"
  by (induction xs arbitrary: a) auto

lemma strtol_fmt_d:
  assumes "\<bar>i\<bar> < 2 ^ 31" "\<not> is_digit c"
  shows "strtol (fmt_d i @ c # r) = i"
proof (cases "i < 0")
  case True
  have "digits_val 0 (dec (nat (- i)) @ c # r) = nat (- i)"
    using digits_val_stop [OF assms(2) dec_digits, of 0 "nat (- i)" r] digits_val_dec by simp
  moreover have "\<not> is_space CHR ''-''" by (simp add: is_space_def)
  ultimately show ?thesis
    using True assms(1) by (simp add: strtol_def Let_def fmt_d_def LONG_MIN_def LONG_MAX_def)
next
  case False
  obtain d ds where d: "dec (nat i) = d # ds" by (cases "dec (nat i)") auto
  then have dd: "is_digit d" using dec_digits [of "nat i"] by auto
  have "digits_val 0 (dec (nat i) @ c # r) = nat i"
    using digits_val_stop [OF assms(2) dec_digits, of 0 "nat i" r] digits_val_dec by simp
  moreover have "\<not> is_space d" "d \<noteq> CHR ''-''" "d \<noteq> CHR ''+''" using dd digit_val_char by blast+
  ultimately show ?thesis
    using False assms(1) d by (simp add: strtol_def Let_def fmt_d_def LONG_MIN_def LONG_MAX_def)
qed

subsection \<open>\<open>get_json_need_xor_file_info\<close>\<close>

record xor_request =
  q_server :: tDataServerInfo
  q_sign :: int
  q_files :: "string list"
  q_output :: cbuf

text \<open>One \<open>if\<close> of the function: the member is copied where it exists and \<open>sign\<close> set otherwise.\<close>

definition on_member ::
    "'j cjson \<Rightarrow> 'j \<Rightarrow> string \<Rightarrow> ('j \<Rightarrow> xor_request \<Rightarrow> fault + xor_request) \<Rightarrow> xor_request \<Rightarrow> fault + xor_request" where
  "on_member c json key f q =
     (case GetObjectItem c json key of None \<Rightarrow> Inr (q\<lparr>q_sign := -1\<rparr>) | Some item \<Rightarrow> f item q)"

definition read_ip :: "'j cjson \<Rightarrow> 'j \<Rightarrow> xor_request \<Rightarrow> fault + xor_request" where
  "read_ip c item q = bindE (copy_value c (data_server_ip (q_server q)) item)
     (\<lambda>b. Inr (q\<lparr>q_server := (q_server q)\<lparr>data_server_ip := b\<rparr>\<rparr>))"

definition read_port :: "'j cjson \<Rightarrow> 'j \<Rightarrow> xor_request \<Rightarrow> fault + xor_request" where
  "read_port c item q = bindE (copy_value c (data_server_port (q_server q)) item)
     (\<lambda>b. Inr (q\<lparr>q_server := (q_server q)\<lparr>data_server_port := b\<rparr>\<rparr>))"

definition read_method :: "'j cjson \<Rightarrow> 'j \<Rightarrow> xor_request \<Rightarrow> fault + xor_request" where
  "read_method c item q = bindE (copy_value c (data_server_method (q_server q)) item)
     (\<lambda>b. Inr (q\<lparr>q_server := (q_server q)\<lparr>data_server_method := b\<rparr>\<rparr>))"

definition read_output :: "'j cjson \<Rightarrow> 'j \<Rightarrow> xor_request \<Rightarrow> fault + xor_request" where
  "read_output c item q = bindE (copy_value c (q_output q) item) (\<lambda>b. Inr (q\<lparr>q_output := b\<rparr>))"

definition read_file :: "'j cjson \<Rightarrow> 'j \<Rightarrow> nat \<Rightarrow> xor_request \<Rightarrow> fault + xor_request" where
  "read_file c array i q =
     (case item_of c (GetArrayItem c array i) ''file_path'' of
        Some item \<Rightarrow> bindE (string_of c item) (\<lambda>s. Inr (q\<lparr>q_files := q_files q @ [s]\<rparr>))
      | None \<Rightarrow> Inr (q\<lparr>q_sign := -1\<rparr>))"

fun read_files :: "'j cjson \<Rightarrow> 'j \<Rightarrow> nat list \<Rightarrow> xor_request \<Rightarrow> fault + xor_request" where
  "read_files c array [] q = Inr q"
| "read_files c array (i # is') q = bindE (read_file c array i q) (read_files c array is')"

definition read_file_names :: "'j cjson \<Rightarrow> 'j \<Rightarrow> xor_request \<Rightarrow> fault + xor_request" where
  "read_file_names c array = read_files c array [0..<GetArraySize c array]"

definition get_json_need_xor_file_info ::
    "'j cjson \<Rightarrow> string \<Rightarrow> tDataServerInfo \<Rightarrow> string list \<Rightarrow> cbuf \<Rightarrow> fault + (int \<times> xor_request)" where
  "get_json_need_xor_file_info c info server a_set_of_files output_file_name =
     (let q = \<lparr>q_server = server, q_sign = 0, q_files = a_set_of_files, q_output = output_file_name\<rparr>
      in case Parse c info of
           None \<Rightarrow> Inr (ERROR_CJSON_PARSE, q)
         | Some json \<Rightarrow>
             bindE (on_member c json ''data_server_ip'' (read_ip c) q) (\<lambda>q.
             bindE (on_member c json ''data_server_port'' (read_port c) q) (\<lambda>q.
             bindE (on_member c json ''data_server_method'' (read_method c) q) (\<lambda>q.
             bindE (on_member c json ''output_file_name'' (read_output c) q) (\<lambda>q.
             bindE (on_member c json ''file_name_total'' (read_file_names c) q) (\<lambda>q.
             Inr (if q_sign q \<noteq> 0 then ERROR_CJSON_FORMAT else RIGHT, q)))))))"

text \<open>The form a request must have, as a predicate on the parsed value.\<close>

definition keys :: "string list" where
  "keys = [''data_server_ip'', ''data_server_port'', ''data_server_method'', ''output_file_name'', ''file_name_total'']"

definition format_ok :: "'j cjson \<Rightarrow> 'j \<Rightarrow> bool" where
  "format_ok c json \<longleftrightarrow> (\<forall>k \<in> set keys. GetObjectItem c json k \<noteq> None)
     \<and> (\<forall>a. GetObjectItem c json ''file_name_total'' = Some a \<longrightarrow>
          (\<forall>i < GetArraySize c a. item_of c (GetArrayItem c a i) ''file_path'' \<noteq> None))"

lemma read_files_sign:
  assumes "read_files c a is' q = Inr q'"
  shows "q_sign q' = 0 \<longleftrightarrow> q_sign q = 0 \<and> (\<forall>i \<in> set is'. item_of c (GetArrayItem c a i) ''file_path'' \<noteq> None)"
  using assms
proof (induction is' arbitrary: q)
  case (Cons i is')
  then obtain q1 where q1: "read_file c a i q = Inr q1" "read_files c a is' q1 = Inr q'"
    by (auto simp: bindE_Inr_iff)
  have "q_sign q1 = 0 \<longleftrightarrow> q_sign q = 0 \<and> item_of c (GetArrayItem c a i) ''file_path'' \<noteq> None"
    using q1(1) by (auto simp: read_file_def bindE_Inr_iff split: option.splits)
  with Cons.IH [OF q1(2)] show ?case by auto
qed simp

lemma member_sign:
  assumes "on_member c j k f q = Inr q'" "\<And>item q'. f item q = Inr q' \<Longrightarrow> q_sign q' = q_sign q"
  shows "q_sign q' = 0 \<longleftrightarrow> q_sign q = 0 \<and> GetObjectItem c j k \<noteq> None"
  using assms by (auto simp: on_member_def split: option.splits)

lemma read_sign:
  "read_ip c item q = Inr q' \<Longrightarrow> q_sign q' = q_sign q" "read_port c item q = Inr q' \<Longrightarrow> q_sign q' = q_sign q"
  "read_method c item q = Inr q' \<Longrightarrow> q_sign q' = q_sign q" "read_output c item q = Inr q' \<Longrightarrow> q_sign q' = q_sign q"
  by (auto simp: read_ip_def read_port_def read_method_def read_output_def bindE_Inr_iff)

lemma member_signs:
  assumes "on_member c j k1 (read_ip c) q0 = Inr q1" "on_member c j k2 (read_port c) q1 = Inr q2"
    "on_member c j k3 (read_method c) q2 = Inr q3" "on_member c j k4 (read_output c) q3 = Inr q4"
  shows "q_sign q4 = 0 \<longleftrightarrow> q_sign q0 = 0 \<and> GetObjectItem c j k1 \<noteq> None \<and> GetObjectItem c j k2 \<noteq> None
    \<and> GetObjectItem c j k3 \<noteq> None \<and> GetObjectItem c j k4 \<noteq> None"
proof -
  have "q_sign q1 = 0 \<longleftrightarrow> q_sign q0 = 0 \<and> GetObjectItem c j k1 \<noteq> None"
    by (rule member_sign [OF assms(1)]) (rule read_sign(1))
  moreover have "q_sign q2 = 0 \<longleftrightarrow> q_sign q1 = 0 \<and> GetObjectItem c j k2 \<noteq> None"
    by (rule member_sign [OF assms(2)]) (rule read_sign(2))
  moreover have "q_sign q3 = 0 \<longleftrightarrow> q_sign q2 = 0 \<and> GetObjectItem c j k3 \<noteq> None"
    by (rule member_sign [OF assms(3)]) (rule read_sign(3))
  moreover have "q_sign q4 = 0 \<longleftrightarrow> q_sign q3 = 0 \<and> GetObjectItem c j k4 \<noteq> None"
    by (rule member_sign [OF assms(4)]) (rule read_sign(4))
  ultimately show ?thesis by simp
qed

lemma member_read:
  assumes "GetObjectItem c j k = Some item" "valuestring c item = Some s"
  shows "on_member c j k (read_ip c) q = bindE (strcpy (data_server_ip (q_server q)) s)
      (\<lambda>b. Inr (q\<lparr>q_server := (q_server q)\<lparr>data_server_ip := b\<rparr>\<rparr>))"
    "on_member c j k (read_port c) q = bindE (strcpy (data_server_port (q_server q)) s)
      (\<lambda>b. Inr (q\<lparr>q_server := (q_server q)\<lparr>data_server_port := b\<rparr>\<rparr>))"
    "on_member c j k (read_method c) q = bindE (strcpy (data_server_method (q_server q)) s)
      (\<lambda>b. Inr (q\<lparr>q_server := (q_server q)\<lparr>data_server_method := b\<rparr>\<rparr>))"
    "on_member c j k (read_output c) q = bindE (strcpy (q_output q) s) (\<lambda>b. Inr (q\<lparr>q_output := b\<rparr>))"
  using assms
  by (simp_all add: on_member_def read_ip_def read_port_def read_method_def read_output_def copy_value_def string_of_def)

definition file_path_at :: "'j cjson \<Rightarrow> 'j \<Rightarrow> nat \<Rightarrow> string option" where
  "file_path_at c a i =
     (case item_of c (GetArrayItem c a i) ''file_path'' of None \<Rightarrow> None | Some item \<Rightarrow> valuestring c item)"

lemma read_files_all:
  assumes "\<forall>i \<in> set is'. file_path_at c a i = Some (f i)"
  shows "read_files c a is' q = Inr (q\<lparr>q_files := q_files q @ map f is'\<rparr>)"
  using assms
proof (induction is' arbitrary: q)
  case (Cons i is')
  obtain item where "item_of c (GetArrayItem c a i) ''file_path'' = Some item" "valuestring c item = Some (f i)"
    using Cons.prems by (auto simp: file_path_at_def split: option.splits)
  then have "read_file c a i q = Inr (q\<lparr>q_files := q_files q @ [f i]\<rparr>)" by (simp add: read_file_def string_of_def)
  then show ?case using Cons by simp
qed simp

subsection \<open>\<open>set_send_nonlocal_http_content\<close>\<close>

definition name_pieces :: "string \<Rightarrow> string list" where
  "name_pieces f = [''{'' @ QUOTE @ ''file_name'' @ QUOTE @ '': '' @ QUOTE, f, QUOTE @ ''}'']"

fun put_names :: "string list \<Rightarrow> cbuf \<Rightarrow> fault + cbuf" where
  "put_names [] b = Inr b"
| "put_names (f # fs) b =
     bindE (strcats b (name_pieces f)) (\<lambda>b.
     bindE (if fs \<noteq> [] then strcat b '','' else Inr b) (put_names fs))"

definition ip_port_method :: "cbuf \<Rightarrow> tDataServerInfo \<Rightarrow> fault + cbuf" where
  "ip_port_method b server =
     bindE (read_cstr (data_server_ip server)) (\<lambda>ip. bindE (strcpy b ip) (\<lambda>b.
     bindE (strcat b '':'') (\<lambda>b.
     bindE (read_cstr (data_server_port server)) (\<lambda>port. bindE (strcat b port) (\<lambda>b.
     bindE (strcat b ''/'') (\<lambda>b.
     bindE (read_cstr (data_server_method server)) (\<lambda>method. strcat b method)))))))"

definition set_send_nonlocal_http_content ::
    "cbuf \<Rightarrow> cbuf \<Rightarrow> string list \<Rightarrow> tDataServerInfo \<Rightarrow> fault + (cbuf \<times> cbuf)" where
  "set_send_nonlocal_http_content send_http_content send_http_ip_port_method file_name_total server =
     bindE (strcat send_http_content (''{'' @ QUOTE @ ''nonlocal_file_name'' @ QUOTE @ '': ['')) (\<lambda>b.
     bindE (put_names file_name_total b) (\<lambda>b.
     bindE (strcat b '']}'') (\<lambda>content.
     bindE (ip_port_method send_http_ip_port_method server) (\<lambda>ipm. Inr (content, ipm)))))"

text \<open>The text as one string.\<close>

definition name_object :: "string \<Rightarrow> string" where
  "name_object f = ''{'' @ QUOTE @ ''file_name'' @ QUOTE @ '': '' @ QUOTE @ f @ QUOTE @ ''}''"

fun comma_separated :: "string list \<Rightarrow> string" where
  "comma_separated [] = ''''"
| "comma_separated [s] = s"
| "comma_separated (s # t # ss) = s @ '','' @ comma_separated (t # ss)"

definition nonlocal_content :: "string list \<Rightarrow> string" where
  "nonlocal_content fs = ''{'' @ QUOTE @ ''nonlocal_file_name'' @ QUOTE @ '': ['' @ comma_separated (map name_object fs) @ '']}''"

fun names_pieces :: "string list \<Rightarrow> string list" where
  "names_pieces [] = []"
| "names_pieces (f # fs) = name_pieces f @ (if fs \<noteq> [] then ['',''] else []) @ names_pieces fs"

lemma concat_names_pieces: "concat (names_pieces fs) = comma_separated (map name_object fs)"
  by (induction fs rule: induct_list012) (simp_all add: name_pieces_def name_object_def)

lemma put_names_strcats: "put_names fs b = strcats b (names_pieces fs)"
proof (induction fs arbitrary: b)
  case (Cons f fs)
  have "put_names fs = (\<lambda>b. strcats b (names_pieces fs))" using Cons.IH by blast
  then show ?case
    by (cases "fs = []") (simp_all add: strcats_append)
qed simp

lemma names_pieces_clean: "\<forall>f \<in> set fs. NUL \<notin> set f \<Longrightarrow> \<forall>t \<in> set (names_pieces fs). NUL \<notin> set t"
proof (induction fs)
  case (Cons f fs)
  have "NUL \<notin> set ''{''" "NUL \<notin> set QUOTE" "NUL \<notin> set ''file_name''" "NUL \<notin> set '': ''"
    "NUL \<notin> set ''}''" "NUL \<notin> set '',''"
    by (simp_all add: NUL_def QUOTE_def)
  then have "\<forall>t \<in> set (name_pieces f). NUL \<notin> set t" using Cons.prems by (simp add: name_pieces_def)
  moreover have "NUL \<notin> set '',''" by (simp add: NUL_def)
  ultimately show ?case using Cons by auto
qed simp

definition content_pieces :: "string list \<Rightarrow> string list" where
  "content_pieces fs = [''{'' @ QUOTE @ ''nonlocal_file_name'' @ QUOTE @ '': [''] @ names_pieces fs @ ['']}'']"

lemma concat_content_pieces: "concat (content_pieces fs) = nonlocal_content fs"
  by (simp add: content_pieces_def nonlocal_content_def concat_names_pieces)

lemma content_pieces_clean: "\<forall>f \<in> set fs. NUL \<notin> set f \<Longrightarrow> \<forall>t \<in> set (content_pieces fs). NUL \<notin> set t"
proof -
  assume fs: "\<forall>f \<in> set fs. NUL \<notin> set f"
  have "NUL \<notin> set (''{'' @ QUOTE @ ''nonlocal_file_name'' @ QUOTE @ '': ['')" "NUL \<notin> set '']}''"
    by (simp_all add: NUL_def QUOTE_def)
  then show ?thesis using names_pieces_clean [OF fs] by (auto simp: content_pieces_def)
qed

lemma set_send_nonlocal_eq:
  "set_send_nonlocal_http_content b ipm fs server =
     bindE (strcats b (content_pieces fs)) (\<lambda>content. bindE (ip_port_method ipm server) (\<lambda>i. Inr (content, i)))"
  by (simp add: set_send_nonlocal_http_content_def put_names_strcats content_pieces_def strcats_append bindE_assoc)

lemma ip_port_method_holds:
  assumes "holds (data_server_ip s) 32 ip" "holds (data_server_port s) 16 port" "holds (data_server_method s) 128 method"
    and "length b = 1024"
  shows "\<exists>b'. ip_port_method b s = Inr b' \<and> holds b' 1024 (ip @ '':'' @ port @ ''/'' @ method)"
proof -
  note nul = holds_NUL [OF assms(1)] holds_NUL [OF assms(2)] holds_NUL [OF assms(3)]
  have len: "length ip < 32" "length port < 16" "length method < 128"
    using holds_length [OF assms(1)] holds_length [OF assms(2)] holds_length [OF assms(3)] by auto
  obtain b0 where b0: "strcpy b ip = Inr b0" "holds b0 1024 ip"
    using strcpy_holds [OF assms(4) nul(1)] len by auto
  have lit: "NUL \<notin> set '':''" "NUL \<notin> set ''/''" by (simp_all add: NUL_def)
  obtain b' where "strcats b0 ['':'', port, ''/'', method] = Inr b'"
      "holds b' 1024 (ip @ concat ['':'', port, ''/'', method])"
    using strcats_holds [OF b0(2), of "['':'', port, ''/'', method]"] nul lit len by auto
  moreover have "ip_port_method b s = strcats b0 ['':'', port, ''/'', method]"
    using b0 assms(1-3) [THEN holds_read] by (simp add: ip_port_method_def bindE_def split: sum.splits)
  ultimately show ?thesis by auto
qed

subsection \<open>\<open>get_json_nonlocal_file_attribute_info\<close>\<close>

definition get_json_nonlocal_file_attribute_info ::
    "'j cjson \<Rightarrow> string \<Rightarrow> int \<Rightarrow> fault + (int \<times> int)" where
  "get_json_nonlocal_file_attribute_info c info file_size =
     (case Parse c info of
        None \<Rightarrow> Inr (ERROR_FILE_NAME, file_size)
      | Some json \<Rightarrow>
          bindE (case GetObjectItem c json ''file_total_size'' of
                   Some item \<Rightarrow> bindE (string_of c item) (\<lambda>s. Inr (atoi s))
                 | None \<Rightarrow> Inr file_size) (\<lambda>file_size.
          if GetObjectItem c json ''error_file_name'' \<noteq> None then Inr (ERROR_FILE_NAME, file_size)
          else if GetObjectItem c json ''error_file_size'' \<noteq> None then Inr (ERROR_FILE_SIZE, file_size)
          else Inr (RIGHT, file_size)))"

subsection \<open>\<open>get_total_json_file_path\<close> and \<open>get_json_read_file_info\<close>\<close>

definition json_entry :: "dir_env \<Rightarrow> string \<Rightarrow> string \<Rightarrow> scan \<Rightarrow> fault + scan" where
  "json_entry env path_dir d_name s =
     (if has_prefix ''.'' d_name \<or> has_prefix ''..'' d_name then Inr s
      else bindE (snprintf (p_buf s) (MAX_PATH_SIZE - 1) (path_dir @ ''/'' @ d_name)) (\<lambda>p.
        bindE (read_cstr p) (\<lambda>path.
        let d = (case stat_dir env path of Some b \<Rightarrow> b | None \<Rightarrow> st_dir s);
            s' = s\<lparr>p_buf := p, st_dir := d\<rparr>
        in Inr (if \<not> d then s'\<lparr>dir_file_path := dir_file_path s @ [path]\<rparr> else s'))))"

interpretation json_dir: dir_listing json_entry
proof
  show "json_entry env path n s = Inr s" if "hidden n" for env path n s
    using that by (simp add: json_entry_def hidden_def)
  show "\<exists>b. json_entry env path n s = Inr ((visit env (entry_path path n) s)\<lparr>p_buf := b\<rparr>) \<and> length b = MAX_PATH_SIZE"
    if hyps: "\<not> hidden n" "NUL \<notin> set path" "NUL \<notin> set n" "length (p_buf s) = MAX_PATH_SIZE" for n path s env
  proof -
    have "NUL \<notin> set (path @ ''/'' @ n)" using hyps(2,3) by (simp add: NUL_def)
    then obtain b where b: "snprintf (p_buf s) (MAX_PATH_SIZE - 1) (path @ ''/'' @ n) = Inr b"
        "holds b MAX_PATH_SIZE (entry_path path n)"
      using snprintf_path hyps(4) by (metis entry_path_def)
    then show ?thesis
      using hyps(1) holds_read [OF b(2)]
      by (intro exI [of _ b], cases s) (auto simp: json_entry_def hidden_def visit_def Let_def holds_def)
  qed
qed

definition get_total_json_file_path :: "dir_env \<Rightarrow> string option \<Rightarrow> string list \<Rightarrow> fault + (int \<times> string list)" where
  "get_total_json_file_path env path_dir files =
     (case path_dir of
        None \<Rightarrow> Inr (ERROR_FILE_PATH, files)
      | Some path \<Rightarrow>
          if stat_dir env path \<noteq> Some True then Inr (ERROR_FILE_PATH, files)
          else case opendir env path of
            None \<Rightarrow> Inr (ERROR_FILE_OPEN, files)
          | Some names \<Rightarrow>
              bindE (entries json_entry env path names
                  \<lparr>st_dir = True, p_buf = zbuf MAX_PATH_SIZE, dir_file_path = files\<rparr>) (\<lambda>s.
              Inr (RIGHT, dir_file_path s)))"

definition read_item ::
    "dir_env \<Rightarrow> 'j cjson \<Rightarrow> 'j \<Rightarrow> nat \<Rightarrow> cbuf \<times> string list \<Rightarrow> fault + (int \<times> cbuf \<times> string list)" where
  "read_item env c array i st =
     (let object = GetArrayItem c array i; out = fst st; files = snd st
      in case item_of c object ''input_file_path'' of
           Some item \<Rightarrow>
             (case valuestring c item of
                None \<Rightarrow> Inr (ERROR_FILE_PATH, st)
              | Some path \<Rightarrow>
                  if stat_dir env path = None then Inr (ERROR_FILE_PATH, st)
                  else Inr (RIGHT, out, files @ [path]))
         | None \<Rightarrow>
           (case item_of c object ''output_file_path'' of
              Some item \<Rightarrow> bindE (copy_value c out item) (\<lambda>out. Inr (RIGHT, out, files))
            | None \<Rightarrow>
              (case item_of c object ''input_dir_path'' of
                 Some item \<Rightarrow> bindE (get_total_json_file_path env (valuestring c item) files) (\<lambda>r.
                   Inr (fst r, out, snd r))
               | None \<Rightarrow> Inr (RIGHT, st))))"

fun read_items ::
    "dir_env \<Rightarrow> 'j cjson \<Rightarrow> 'j \<Rightarrow> nat list \<Rightarrow> cbuf \<times> string list \<Rightarrow> fault + (int \<times> cbuf \<times> string list)" where
  "read_items env c array [] st = Inr (RIGHT, st)"
| "read_items env c array (i # is') st =
     bindE (read_item env c array i st) (\<lambda>r.
     if fst r < 0 then Inr r else read_items env c array is' (snd r))"

definition get_json_read_file_info ::
    "dir_env \<Rightarrow> 'j cjson \<Rightarrow> string \<Rightarrow> cbuf \<Rightarrow> string list \<Rightarrow> fault + (int \<times> cbuf \<times> string list)" where
  "get_json_read_file_info env c info return_output_file_name files =
     (case Parse c info of
        None \<Rightarrow> Inr (ERROR_CJSON_PARSE, return_output_file_name, files)
      | Some json \<Rightarrow>
          (case GetObjectItem c json ''path_file'' of
             None \<Rightarrow> Inr (RIGHT, return_output_file_name, files)
           | Some array \<Rightarrow>
               read_items env c array [0..<GetArraySize c array] (return_output_file_name, files)))"

subsection \<open>Properties\<close>

lemma json_answer_fits:
  assumes "NUL \<notin> set strerr" "length strerr \<le> 67" "\<bar>errno\<bar> < 10 ^ 3" "\<bar>ret\<bar> < 10 ^ 3"
  shows "\<exists>b. set_send_json_info (zbuf 128) ret errno strerr = Inr b \<and> holds b 128 (json_answer ret (message_text ret errno strerr))"
proof -
  let ?t = "json_answer ret (message_text ret errno strerr)"
  have "NUL \<notin> set (message_text ret errno strerr)"
    using assms(1) literals_clean(1,2) [of ret] by (cases "errno_what ret") (auto simp: message_text_def clean_def)
  then have nul: "NUL \<notin> set ?t" by (simp add: json_answer_def QUOTE_def) (simp add: NUL_def)
  have "length ?t < 128"
    using message_text_length [OF assms(3), of ret strerr] length_fmt_d [of ret 2] assms(2,4)
    by (simp add: json_answer_length)
  then obtain b where "strcpy (zbuf 128) ?t = Inr b" "holds b 128 ?t"
    using strcpy_holds [of "zbuf 128" 128 ?t] nul by auto
  then show ?thesis using set_send_json_info_eq [of strerr errno "zbuf 128" ret] assms by simp
qed

text \<open>The answer sent to the client: for every return code, every \<open>errno\<close> below 1000 and every
  error text of at most 67 characters the JSON text fits the 128 bytes reserved for it, carries the
  message of that code, and the code is read back from it as a number.\<close>

theorem set_send_json_info_text:
  assumes "NUL \<notin> set strerr" "length strerr \<le> 67" "\<bar>errno\<bar> < 10 ^ 3" "\<bar>ret\<bar> < 10 ^ 3"
  shows "\<exists>b. set_send_json_info (zbuf 128) ret errno strerr = Inr b
    \<and> holds b 128 (json_answer ret (message_text ret errno strerr)) \<and> strtol (drop 9 (cstr b)) = ret"
proof -
  let ?t = "json_answer ret (message_text ret errno strerr)"
  obtain b where b: "set_send_json_info (zbuf 128) ret errno strerr = Inr b" "holds b 128 ?t"
    using json_answer_fits [OF assms] by blast
  have "drop 9 ?t = fmt_d ret @ CHR 0x22 # ('', '' @ QUOTE @ ''message''
       @ QUOTE @ '':'' @ QUOTE @ message_text ret errno strerr @ QUOTE @ ''}'')"
    by (simp add: json_answer_def QUOTE_def)
  moreover have "\<not> is_digit (CHR 0x22)" by (simp add: is_digit_def)
  ultimately have "strtol (drop 9 ?t) = ret" using strtol_fmt_d [of ret "CHR 0x22"] assms(4) by simp
  moreover have "cstr b = ?t" using b(2) by (rule holds_cstr)
  ultimately show ?thesis using b by auto
qed

theorem set_send_json_info_text_witness:
  "\<exists>b. set_send_json_info (zbuf 128) (-3) 2 ''No such file or directory'' = Inr b
    \<and> holds b 128 (json_answer (-3) (message_text (-3) 2 ''No such file or directory'')) \<and> strtol (drop 9 (cstr b)) = -3"
  by (rule set_send_json_info_text) (simp_all add: NUL_def)

text \<open>C27. The verdict on a request: text that is no JSON is answered with ERROR_CJSON_PARSE and leaves
  everything as it was; otherwise, whenever no copy faults, the answer is RIGHT exactly if the four
  members, the file list and a \<open>file_path\<close> in each of its items exist, and ERROR_CJSON_FORMAT
  otherwise. The number of files is not part of the check.\<close>

theorem get_json_need_xor_file_info_verdict:
  assumes "get_json_need_xor_file_info c info server files out = Inr (ret, q)"
  shows "(case Parse c info of
      None \<Rightarrow> ret = ERROR_CJSON_PARSE \<and> q_server q = server \<and> q_files q = files \<and> q_output q = out
    | Some json \<Rightarrow> ret = (if format_ok c json then RIGHT else ERROR_CJSON_FORMAT))"
proof (cases "Parse c info")
  case None
  then show ?thesis using assms by (auto simp: get_json_need_xor_file_info_def Let_def)
next
  case (Some json)
  define q0 where "q0 = \<lparr>q_server = server, q_sign = 0, q_files = files, q_output = out\<rparr>"
  obtain q1 q2 q3 q4 where st: "on_member c json ''data_server_ip'' (read_ip c) q0 = Inr q1"
      "on_member c json ''data_server_port'' (read_port c) q1 = Inr q2"
      "on_member c json ''data_server_method'' (read_method c) q2 = Inr q3"
      "on_member c json ''output_file_name'' (read_output c) q3 = Inr q4"
      "on_member c json ''file_name_total'' (read_file_names c) q4 = Inr q"
      and ret: "ret = (if q_sign q \<noteq> 0 then ERROR_CJSON_FORMAT else RIGHT)"
    using assms Some
    by (auto simp: get_json_need_xor_file_info_def Let_def bindE_Inr_iff simp flip: q0_def)
  have s4: "q_sign q4 = 0 \<longleftrightarrow> (\<forall>k \<in> set (butlast keys). GetObjectItem c json k \<noteq> None)"
    using member_signs [OF st(1-4)] by (auto simp: keys_def q0_def)
  have "q_sign q = 0 \<longleftrightarrow> format_ok c json"
  proof (cases "GetObjectItem c json ''file_name_total''")
    case None
    then show ?thesis using st(5) by (auto simp: on_member_def format_ok_def keys_def)
  next
    case (Some a)
    then have "read_files c a [0..<GetArraySize c a] q4 = Inr q"
      using st(5) by (simp add: on_member_def read_file_names_def)
    from read_files_sign [OF this] s4 Some show ?thesis
      by (auto simp: format_ok_def keys_def)
  qed
  then show ?thesis using Some ret by simp
qed

text \<open>A small JSON value to state witnesses with.\<close>

datatype json = JStr string | JArr "json list" | JObj "(string \<times> json) list"

definition json_lib :: "(string \<Rightarrow> json option) \<Rightarrow> json cjson" where
  "json_lib parse = \<lparr>Parse = parse,
     GetObjectItem = (\<lambda>j k. case j of JObj m \<Rightarrow> map_of m k | _ \<Rightarrow> None),
     GetArraySize = (\<lambda>j. case j of JArr l \<Rightarrow> length l | _ \<Rightarrow> 0),
     GetArrayItem = (\<lambda>j i. case j of JArr l \<Rightarrow> if i < length l then Some (l ! i) else None | _ \<Rightarrow> None),
     valuestring = (\<lambda>j. case j of JStr s \<Rightarrow> Some s | _ \<Rightarrow> None)\<rparr>"

definition sample_request :: json where
  "sample_request = JObj [(''data_server_ip'', JStr ''10.0.0.1''), (''data_server_port'', JStr ''99''),
     (''data_server_method'', JStr ''size''), (''output_file_name'', JStr ''out''),
     (''file_name_total'', JArr [JObj [(''file_path'', JStr ''/a'')]])]"

theorem get_json_need_xor_file_info_verdict_witness:
  "\<exists>q. get_json_need_xor_file_info (json_lib (\<lambda>_. None)) '''' no_data_server [] [] = Inr (ERROR_CJSON_PARSE, q)
    \<and> q_server q = no_data_server"
proof -
  obtain q where q: "get_json_need_xor_file_info (json_lib (\<lambda>_. None)) '''' no_data_server [] [] = Inr (ERROR_CJSON_PARSE, q)"
    by (simp add: get_json_need_xor_file_info_def json_lib_def)
  from get_json_need_xor_file_info_verdict [OF q] q show ?thesis by (simp add: json_lib_def)
qed

lemma request_reads:
  assumes "Parse c info = Some j" "server_wf server" "length out = 1024"
    and "GetObjectItem c j ''data_server_ip'' = Some i1" "valuestring c i1 = Some ip" "NUL \<notin> set ip" "length ip < 32"
    and "GetObjectItem c j ''data_server_port'' = Some i2" "valuestring c i2 = Some port" "NUL \<notin> set port" "length port < 16"
    and "GetObjectItem c j ''data_server_method'' = Some i3" "valuestring c i3 = Some method" "NUL \<notin> set method" "length method < 128"
    and "GetObjectItem c j ''output_file_name'' = Some i4" "valuestring c i4 = Some outname" "NUL \<notin> set outname" "length outname < 1024"
    and "GetObjectItem c j ''file_name_total'' = Some a" "\<forall>i < GetArraySize c a. file_path_at c a i = Some (path i)"
  shows "\<exists>q. get_json_need_xor_file_info c info server files out = Inr (RIGHT, q)
    \<and> holds (data_server_ip (q_server q)) 32 ip \<and> holds (data_server_port (q_server q)) 16 port
    \<and> holds (data_server_method (q_server q)) 128 method \<and> holds (q_output q) 1024 outname
    \<and> q_files q = files @ map path [0..<GetArraySize c a]"
proof -
  have len: "length (data_server_ip server) = 32" "length (data_server_port server) = 16" "length (data_server_method server) = 128"
    using assms(2) by (auto simp: server_wf_def holds_def)
  obtain b1 where b1: "strcpy (data_server_ip server) ip = Inr b1" "holds b1 32 ip"
    using strcpy_holds [OF len(1)] assms(6,7) by blast
  obtain b2 where b2: "strcpy (data_server_port server) port = Inr b2" "holds b2 16 port"
    using strcpy_holds [OF len(2)] assms(10,11) by blast
  obtain b3 where b3: "strcpy (data_server_method server) method = Inr b3" "holds b3 128 method"
    using strcpy_holds [OF len(3)] assms(14,15) by blast
  obtain b4 where b4: "strcpy out outname = Inr b4" "holds b4 1024 outname"
    using strcpy_holds [OF assms(3)] assms(18,19) by blast
  have files: "read_file_names c a q = Inr (q\<lparr>q_files := q_files q @ map path [0..<GetArraySize c a]\<rparr>)" for q
    using read_files_all [of "[0..<GetArraySize c a]" c a path q] assms(21) by (simp add: read_file_names_def)
  have last: "on_member c j ''file_name_total'' (read_file_names c) q = read_file_names c a q" for q
    using assms(20) by (simp add: on_member_def)
  show ?thesis
    using b1 b2 b3 b4
    by (simp add: get_json_need_xor_file_info_def assms(1) Let_def last files
        member_read(1) [OF assms(4,5)] member_read(2) [OF assms(8,9)] member_read(3) [OF assms(12,13)]
        member_read(4) [OF assms(16,17)])
qed

text \<open>C28. A request with all its members and texts that fit is read completely: the address of the
  data server, the output file and the file paths in their order. Nothing asks for two files: the
  list may be empty.\<close>

theorem get_json_need_xor_file_info_reads:
  assumes "Parse c info = Some j" "server_wf server" "length out = 1024"
    and "GetObjectItem c j ''data_server_ip'' = Some i1" "valuestring c i1 = Some ip" "NUL \<notin> set ip" "length ip < 32"
    and "GetObjectItem c j ''data_server_port'' = Some i2" "valuestring c i2 = Some port" "NUL \<notin> set port" "length port < 16"
    and "GetObjectItem c j ''data_server_method'' = Some i3" "valuestring c i3 = Some method" "NUL \<notin> set method" "length method < 128"
    and "GetObjectItem c j ''output_file_name'' = Some i4" "valuestring c i4 = Some outname" "NUL \<notin> set outname" "length outname < 1024"
    and "GetObjectItem c j ''file_name_total'' = Some a" "\<forall>i < GetArraySize c a. file_path_at c a i = Some (path i)"
  shows "\<exists>q. get_json_need_xor_file_info c info server files out = Inr (RIGHT, q)
    \<and> holds (data_server_ip (q_server q)) 32 ip \<and> holds (data_server_port (q_server q)) 16 port
    \<and> holds (data_server_method (q_server q)) 128 method \<and> holds (q_output q) 1024 outname
    \<and> q_files q = files @ map path [0..<GetArraySize c a]"
  using assms by (rule request_reads)

theorem get_json_need_xor_file_info_reads_witness:
  "\<exists>q. get_json_need_xor_file_info (json_lib (\<lambda>_. Some sample_request)) ''x'' no_data_server [] (zbuf 1024) = Inr (RIGHT, q)
    \<and> holds (data_server_ip (q_server q)) 32 ''10.0.0.1'' \<and> q_files q = [''/a'']"
  using get_json_need_xor_file_info_reads [of "json_lib (\<lambda>_. Some sample_request)" "''x''" sample_request no_data_server
      "zbuf 1024" "JStr ''10.0.0.1''" "''10.0.0.1''" "JStr ''99''" "''99''" "JStr ''size''" "''size''" "JStr ''out''" "''out''"
      "JArr [JObj [(''file_path'', JStr ''/a'')]]" "\<lambda>_. ''/a''" "[]"] no_data_server_wf
  by (simp add: json_lib_def sample_request_def NUL_def file_path_at_def item_of_def) blast

text \<open>Bounds of the request: an address of 32 characters or more, or a port of 16 or more, in the
  JSON text is written past the end of the global array.\<close>

theorem get_json_long_address_overflows:
  assumes "Parse c info = Some j" "server_wf server"
    and "GetObjectItem c j ''data_server_ip'' = Some i1" "valuestring c i1 = Some ip"
    and "GetObjectItem c j ''data_server_port'' = Some i2" "valuestring c i2 = Some port"
    and "32 \<le> length ip \<or> 16 \<le> length port"
  shows "get_json_need_xor_file_info c info server files out = Inl BufferOverflow"
proof -
  have len: "length (data_server_ip server) = 32" "length (data_server_port server) = 16"
    using assms(2) by (auto simp: server_wf_def holds_def)
  have two: "bindE (strcpy (data_server_ip server) ip) (\<lambda>b. bindE (strcpy (data_server_port server) port) (F b)) = Inl BufferOverflow"
    for F :: "cbuf \<Rightarrow> cbuf \<Rightarrow> fault + (int \<times> xor_request)"
    using assms(7) len by (auto simp: strcpy_def)
  show ?thesis
    using two by (simp add: get_json_need_xor_file_info_def assms(1) Let_def bindE_assoc
        member_read(1) [OF assms(3,4)] member_read(2) [OF assms(5,6)])
qed

theorem get_json_long_address_overflows_witness:
  "get_json_need_xor_file_info (json_lib (\<lambda>_. Some (JObj [(''data_server_ip'', JStr (replicate 32 CHR ''1'')),
     (''data_server_port'', JStr ''99'')]))) ''x'' no_data_server [] [] = Inl BufferOverflow"
  by (rule get_json_long_address_overflows [OF _ no_data_server_wf]) (auto simp: json_lib_def)

lemma nonlocal_text:
  assumes "holds (data_server_ip server) 32 ip" "holds (data_server_port server) 16 port"
    and "holds (data_server_method server) 128 method" "\<forall>f \<in> set fs. NUL \<notin> set f" "0 < n"
  shows "if length (nonlocal_content fs) < n
    then \<exists>content ipm. set_send_nonlocal_http_content (zbuf n) (zbuf 1024) fs server = Inr (content, ipm)
      \<and> holds content n (nonlocal_content fs) \<and> holds ipm 1024 (ip @ '':'' @ port @ ''/'' @ method)
    else set_send_nonlocal_http_content (zbuf n) (zbuf 1024) fs server = Inl BufferOverflow"
proof (cases "length (nonlocal_content fs) < n")
  case True
  have "\<exists>b'. strcats (zbuf n) (content_pieces fs) = Inr b' \<and> holds b' n ('''' @ concat (content_pieces fs))"
    by (rule strcats_holds) (use assms(4,5) True content_pieces_clean in \<open>auto simp: concat_content_pieces\<close>)
  then obtain b where b: "strcats (zbuf n) (content_pieces fs) = Inr b" "holds b n (nonlocal_content fs)"
    by (auto simp: concat_content_pieces)
  obtain i where i: "ip_port_method (zbuf 1024) server = Inr i" "holds i 1024 (ip @ '':'' @ port @ ''/'' @ method)"
    using ip_port_method_holds [OF assms(1-3), of "zbuf 1024"] by auto
  show ?thesis using True b i by (simp add: set_send_nonlocal_eq)
next
  case False
  have "strcats (zbuf n) (content_pieces fs) = Inl BufferOverflow"
    by (rule strcats_overflow [of _ n "''''"]) (use assms(4,5) False content_pieces_clean in \<open>auto simp: concat_content_pieces\<close>)
  then show ?thesis using False by (simp add: set_send_nonlocal_eq)
qed

text \<open>The request to the file server is the JSON object with the list of the file names in order,
  comma separated, and the address is \<open>ip:port/method\<close>. The address always fits its 1024 bytes; the
  content fits exactly if it is shorter than its array, and the copy runs past the array otherwise.\<close>

theorem set_send_nonlocal_http_content_text:
  assumes "holds (data_server_ip server) 32 ip" "holds (data_server_port server) 16 port"
    and "holds (data_server_method server) 128 method" "\<forall>f \<in> set fs. NUL \<notin> set f" "0 < n"
  shows "if length (nonlocal_content fs) < n
    then \<exists>content ipm. set_send_nonlocal_http_content (zbuf n) (zbuf 1024) fs server = Inr (content, ipm)
      \<and> holds content n (nonlocal_content fs) \<and> holds ipm 1024 (ip @ '':'' @ port @ ''/'' @ method)
    else set_send_nonlocal_http_content (zbuf n) (zbuf 1024) fs server = Inl BufferOverflow"
  using assms by (rule nonlocal_text)

lemma no_server_empty: "holds (zbuf 32) 32 ''''" "holds (zbuf 16) 16 ''''" "holds (zbuf 128) 128 ''''"
  by (rule holds_zbuf; simp)+

theorem set_send_nonlocal_http_content_text_witness:
  "\<exists>content ipm. set_send_nonlocal_http_content (zbuf 200) (zbuf 1024) [''/a'', ''/b''] no_data_server = Inr (content, ipm)
    \<and> holds content 200 (nonlocal_content [''/a'', ''/b'']) \<and> holds ipm 1024 '':/''"
  using set_send_nonlocal_http_content_text [of no_data_server "''''" "''''" "''''" "[''/a'', ''/b'']" 200] no_server_empty
  by (simp add: no_data_server_def NUL_def nonlocal_content_def name_object_def QUOTE_def)

text \<open>The size the file server reports in decimal is read with \<open>atoi\<close>: it is the size of the file
  exactly below 2^31 bytes; a larger one arrives as its low 32 bits, taken as signed.\<close>

theorem file_size_roundtrip:
  assumes "Parse c info = Some j" "GetObjectItem c j ''file_total_size'' = Some item"
    and "valuestring c item = Some (dec n)" "n < 2 ^ 63"
    and "GetObjectItem c j ''error_file_name'' = None" "GetObjectItem c j ''error_file_size'' = None"
  shows "\<exists>size. get_json_nonlocal_file_attribute_info c info size0 = Inr (RIGHT, size)
    \<and> size = to_int32 (int n) \<and> (size = int n \<longleftrightarrow> n < 2 ^ 31)"
proof -
  have "atoi (dec n) = to_int32 (int n)" using strtol_dec [of n] assms(4) by (simp add: atoi_def LONG_MAX_def)
  moreover have "to_int32 (int n) = int n \<longleftrightarrow> n < 2 ^ 31"
  proof
    assume eq: "to_int32 (int n) = int n"
    have "to_int32 (int n) < 2 ^ 31" unfolding to_int32_def by (rule signed_take_bit_int_less_exp)
    then show "n < 2 ^ 31" using eq by simp
  qed (simp add: to_int32_id)
  ultimately show ?thesis
    using assms by (simp add: get_json_nonlocal_file_attribute_info_def string_of_def)
qed

theorem file_size_roundtrip_witness:
  "\<exists>size. get_json_nonlocal_file_attribute_info (json_lib (\<lambda>_. Some (JObj [(''file_total_size'', JStr (dec (2 ^ 31)))])))
      ''x'' 0 = Inr (RIGHT, size) \<and> size \<noteq> 2 ^ 31"
  using file_size_roundtrip [of "json_lib (\<lambda>_. Some (JObj [(''file_total_size'', JStr (dec (2 ^ 31)))]))" "''x''"
      "JObj [(''file_total_size'', JStr (dec (2 ^ 31)))]" "JStr (dec (2 ^ 31))" "2 ^ 31" 0]
  by (simp add: json_lib_def)

text \<open>Listing a directory never faults, and where every visible entry can be looked up it appends
  exactly the visible entries that are no directories, in the order of the directory, each as
  \<open>dir/name\<close> cut down to 254 characters.\<close>

theorem get_total_json_file_path_lists:
  assumes "stat_dir env path = Some True" "opendir env path = Some names" "NUL \<notin> set path"
    and "\<forall>n \<in> set names. NUL \<notin> set n"
    and "\<forall>n \<in> set names. \<not> hidden n \<longrightarrow> stat_dir env (entry_path path n) \<noteq> None"
  shows "get_total_json_file_path env (Some path) files = Inr (RIGHT, files @ regular_entries env path names)"
  using json_dir.entries_collect [of path names "\<lparr>st_dir = True, p_buf = zbuf MAX_PATH_SIZE, dir_file_path = files\<rparr>" env] assms
  by (auto simp: get_total_json_file_path_def)

theorem get_total_json_file_path_lists_witness:
  "get_total_json_file_path \<lparr>stat_dir = (\<lambda>p. Some (p = ''d'')), opendir = (\<lambda>_. Some [''.'', ''..'', ''a''])\<rparr> (Some ''d'') []
    = Inr (RIGHT, [''d/a''])"
  using get_total_json_file_path_lists [of "\<lparr>stat_dir = (\<lambda>p. Some (p = ''d'')), opendir = (\<lambda>_. Some [''.'', ''..'', ''a''])\<rparr>"
      "''d''" "[''.'', ''..'', ''a'']" "[]"]
  by (simp add: NUL_def regular_entries_def hidden_def has_prefix_def entry_path_def)

lemma read_items_inputs:
  assumes "\<forall>i \<in> set is'. \<exists>item. item_of c (GetArrayItem c a i) ''input_file_path'' = Some item \<and> valuestring c item = Some (path i)"
  shows "read_items env c a is' (out, files) = Inr
    (if \<forall>i \<in> set is'. stat_dir env (path i) \<noteq> None then RIGHT else ERROR_FILE_PATH, out,
     files @ takeWhile (\<lambda>p. stat_dir env p \<noteq> None) (map path is'))"
  using assms
proof (induction is' arbitrary: files)
  case (Cons i is')
  obtain item where "item_of c (GetArrayItem c a i) ''input_file_path'' = Some item" "valuestring c item = Some (path i)"
    using Cons.prems by auto
  then have "read_item env c a i (out, files) = (if stat_dir env (path i) = None then Inr (ERROR_FILE_PATH, out, files)
      else Inr (RIGHT, out, files @ [path i]))"
    by (simp add: read_item_def Let_def)
  then show ?case using Cons by (auto simp: codes)
qed simp

text \<open>A list of input files is taken up to the first that does not exist: the answer is then
  ERROR_FILE_PATH with the files before it, and RIGHT with all of them where all exist.\<close>

theorem get_json_read_file_info_inputs:
  assumes "Parse c info = Some j" "GetObjectItem c j ''path_file'' = Some a"
    and "\<forall>i < GetArraySize c a. \<exists>item. item_of c (GetArrayItem c a i) ''input_file_path'' = Some item \<and> valuestring c item = Some (path i)"
  shows "get_json_read_file_info env c info out files = Inr
    (if \<forall>i < GetArraySize c a. stat_dir env (path i) \<noteq> None then RIGHT else ERROR_FILE_PATH, out,
     files @ takeWhile (\<lambda>p. stat_dir env p \<noteq> None) (map path [0..<GetArraySize c a]))"
  using assms read_items_inputs [of "[0..<GetArraySize c a]" c a path env out files]
  by (auto simp: get_json_read_file_info_def Ball_def)

theorem get_json_read_file_info_inputs_witness:
  "get_json_read_file_info \<lparr>stat_dir = (\<lambda>p. None), opendir = (\<lambda>_. None)\<rparr>
      (json_lib (\<lambda>_. Some (JObj [(''path_file'', JArr [JObj [(''input_file_path'', JStr ''/a'')]])]))) ''x'' (zbuf 8) []
    = Inr (ERROR_FILE_PATH, zbuf 8, [])"
  using get_json_read_file_info_inputs [of "json_lib (\<lambda>_. Some (JObj [(''path_file'', JArr [JObj [(''input_file_path'', JStr ''/a'')]])]))" "''x''"
      "JObj [(''path_file'', JArr [JObj [(''input_file_path'', JStr ''/a'')]])]" "JArr [JObj [(''input_file_path'', JStr ''/a'')]]"
      "\<lambda>_. ''/a''" "\<lparr>stat_dir = (\<lambda>p. None), opendir = (\<lambda>_. None)\<rparr>" "zbuf 8" "[]"]
  by (auto simp: json_lib_def item_of_def split: if_splits)

end
