(* ===== verification/Sock.thy ===== *)
theory Sock
  imports DirScan
begin

text \<open>
  \<open>src/sock.cpp\<close>: the file list of a request that is not HTTP, paths separated by white space, with
  directories expanded. \<open>st\<close> is one variable for all lookups: a failing \<open>stat\<close> leaves it as the
  last successful one set it, which the code relies on for the last path, the output file.
\<close>

fun words_acc :: "string \<Rightarrow> string \<Rightarrow> string list" where
  "words_acc w [] = (if w = [] then [] else [rev w])"
| "words_acc w (c # s) =
     (if is_space c then (if w = [] then words_acc [] s else rev w # words_acc [] s)
      else words_acc (c # w) s)"

text \<open>\<open>while (pp >> f)\<close> reads the words of the text.\<close>

definition tokens :: "string \<Rightarrow> string list" where
  "tokens s = words_acc [] s"

fun count_blanks :: "string \<Rightarrow> int" where
  "count_blanks [] = 0"
| "count_blanks (c # s) = (if c = CHR '' '' then count_blanks s + 1 else count_blanks s)"

definition sock_entry :: "dir_env \<Rightarrow> string \<Rightarrow> string \<Rightarrow> scan \<Rightarrow> fault + scan" where
  "sock_entry env path_file d_name s =
     (if has_prefix ''.'' d_name \<or> has_prefix ''..'' d_name then Inr s
      else bindE (snprintf (p_buf s) (MAX_PATH_SIZE - 1) (path_file @ ''/'' @ d_name)) (\<lambda>p.
        bindE (read_cstr p) (\<lambda>path.
        let d = (case stat_dir env path of Some b \<Rightarrow> b | None \<Rightarrow> st_dir s);
            s' = s\<lparr>p_buf := p, st_dir := d\<rparr>
        in Inr (if \<not> d then s'\<lparr>dir_file_path := dir_file_path s @ [path]\<rparr> else s'))))"

interpretation sock_dir: dir_listing sock_entry
proof
  show "sock_entry env path n s = Inr s" if "hidden n" for env path n s
    using that by (simp add: sock_entry_def hidden_def)
  show "\<exists>b. sock_entry env path n s = Inr ((visit env (entry_path path n) s)\<lparr>p_buf := b\<rparr>) \<and> length b = MAX_PATH_SIZE"
    if hyps: "\<not> hidden n" "NUL \<notin> set path" "NUL \<notin> set n" "length (p_buf s) = MAX_PATH_SIZE" for n path s env
  proof -
    have "NUL \<notin> set (path @ ''/'' @ n)" using hyps(2,3) by (simp add: NUL_def)
    then obtain b where b: "snprintf (p_buf s) (MAX_PATH_SIZE - 1) (path @ ''/'' @ n) = Inr b"
        "holds b MAX_PATH_SIZE (entry_path path n)"
      using snprintf_path hyps(4) by (metis entry_path_def)
    then show ?thesis
      using hyps(1) holds_read [OF b(2)]
      by (intro exI [of _ b], cases s) (auto simp: sock_entry_def hidden_def visit_def Let_def holds_def)
  qed
qed

text \<open>The loop over the words: \<open>num\<close> is the number of words still expected behind this one.\<close>

fun sock_words :: "dir_env \<Rightarrow> string list \<Rightarrow> int \<Rightarrow> scan \<Rightarrow> fault + (int \<times> scan)" where
  "sock_words env [] num s = Inr (0, s)"
| "sock_words env (f # fs) num s =
     (let num' = num - 1; st = stat_dir env f
      in if st = None \<and> num' \<noteq> 0 then Inr (-1, s)
         else
           let s = s\<lparr>st_dir := (case st of Some d \<Rightarrow> d | None \<Rightarrow> st_dir s)\<rparr>
           in if st_dir s
              then (case opendir env f of
                      None \<Rightarrow> Inr (-1, s)
                    | Some names \<Rightarrow> bindE (entries sock_entry env f names s) (sock_words env fs num'))
              else sock_words env fs num' (s\<lparr>dir_file_path := dir_file_path s @ [f]\<rparr>))"

definition get_sock_read_file_info :: "dir_env \<Rightarrow> string \<Rightarrow> string list \<Rightarrow> fault + (int \<times> string list)" where
  "get_sock_read_file_info env info files =
     bindE (sock_words env (tokens info) (count_blanks info + 1)
         \<lparr>st_dir = False, p_buf = zbuf MAX_PATH_SIZE, dir_file_path = files\<rparr>) (\<lambda>r.
     Inr (fst r, dir_file_path (snd r)))"

subsection \<open>Words\<close>

definition word :: "string \<Rightarrow> bool" where
  "word w \<longleftrightarrow> w \<noteq> [] \<and> (\<forall>c \<in> set w. \<not> is_space c)"

fun unwords :: "string list \<Rightarrow> string" where
  "unwords [] = ''''"
| "unwords [w] = w"
| "unwords (w # v # ws) = w @ CHR '' '' # unwords (v # ws)"

lemma words_acc_word: "\<forall>c \<in> set w. \<not> is_space c \<Longrightarrow> words_acc a (w @ r) = words_acc (rev w @ a) r"
  by (induction w arbitrary: a) auto

lemma space_blank [simp]: "is_space CHR '' ''"
  by (simp add: is_space_def)

lemma tokens_unwords: "\<forall>w \<in> set ws. word w \<Longrightarrow> tokens (unwords ws) = ws"
  unfolding tokens_def
proof (induction ws rule: unwords.induct)
  case (2 w)
  then show ?case using words_acc_word [of w "[]" "[]"] by (simp add: word_def)
next
  case (3 w v ws)
  then show ?case using words_acc_word [of w "[]" "CHR '' '' # unwords (v # ws)"] by (simp add: word_def)
qed simp

lemma count_blanks_append: "count_blanks (s @ t) = count_blanks s + count_blanks t"
  by (induction s) auto

lemma count_blanks_word: "\<forall>c \<in> set w. \<not> is_space c \<Longrightarrow> count_blanks w = 0"
  by (induction w) auto

lemma count_blanks_unwords: "\<forall>w \<in> set ws. word w \<Longrightarrow> ws \<noteq> [] \<Longrightarrow> count_blanks (unwords ws) + 1 = int (length ws)"
  by (induction ws rule: unwords.induct) (auto simp: count_blanks_append count_blanks_word word_def)

subsection \<open>The expansion of the words\<close>

text \<open>What one word stands for.\<close>

definition expansion :: "dir_env \<Rightarrow> string \<Rightarrow> string list" where
  "expansion env f =
     (if stat_dir env f = Some True
      then regular_entries env f (case opendir env f of Some names \<Rightarrow> names | None \<Rightarrow> []) else [f])"

definition readable :: "dir_env \<Rightarrow> string \<Rightarrow> bool" where
  "readable env f \<longleftrightarrow> stat_dir env f = Some False
     \<or> (stat_dir env f = Some True \<and> (\<exists>names. opendir env f = Some names \<and> (\<forall>n \<in> set names. NUL \<notin> set n)
         \<and> (\<forall>n \<in> set names. \<not> hidden n \<longrightarrow> stat_dir env (entry_path f n) \<noteq> None)))"

lemma sock_words_all:
  assumes "\<forall>f \<in> set fs. readable env f \<and> NUL \<notin> set f" "length (p_buf s) = MAX_PATH_SIZE"
  shows "\<exists>s'. sock_words env fs num s = Inr (0, s') \<and> length (p_buf s') = MAX_PATH_SIZE
    \<and> dir_file_path s' = dir_file_path s @ concat (map (expansion env) fs)"
  using assms
proof (induction fs arbitrary: num s)
  case (Cons f fs)
  have rf: "readable env f" and nul: "NUL \<notin> set f" using Cons.prems(1) by auto
  show ?case
  proof (cases "stat_dir env f = Some False")
    case True
    then show ?thesis
      using Cons.IH [of "s\<lparr>st_dir := False, dir_file_path := dir_file_path s @ [f]\<rparr>" "num - 1"] Cons.prems
      by (simp add: expansion_def)
  next
    case False
    then obtain names where n: "stat_dir env f = Some True" "opendir env f = Some names" "\<forall>n \<in> set names. NUL \<notin> set n"
        "\<forall>n \<in> set names. \<not> hidden n \<longrightarrow> stat_dir env (entry_path f n) \<noteq> None"
      using rf by (auto simp: readable_def)
    obtain s1 where s1: "entries sock_entry env f names (s\<lparr>st_dir := True\<rparr>) = Inr s1" "length (p_buf s1) = MAX_PATH_SIZE"
        "dir_file_path s1 = dir_file_path s @ regular_entries env f names"
      using sock_dir.entries_collect [OF nul n(3) _ n(4), of "s\<lparr>st_dir := True\<rparr>"] Cons.prems(2) by auto
    then show ?thesis
      using Cons.IH [of s1 "num - 1"] Cons.prems(1) n by (auto simp: expansion_def)
  qed
qed simp

lemma sock_words_append:
  "sock_words env fs num s = Inr (0, s') \<Longrightarrow>
   sock_words env (fs @ gs) num s = sock_words env gs (num - int (length fs)) s'"
proof (induction fs arbitrary: num s)
  case (Cons f fs)
  obtain m where m: "num = m + 1" by (metis diff_add_cancel)
  have ih: "sock_words env fs k t = Inr (0, s') \<Longrightarrow>
      sock_words env (fs @ gs) k t = sock_words env gs (k - int (length fs)) s'" for k t by (rule Cons.IH)
  from Cons.prems show ?case
    unfolding m by (auto simp: Let_def bindE_Inr_iff ih split: if_splits option.splits)
qed simp

subsection \<open>Properties\<close>

text \<open>A list of readable paths, separated by blanks, is answered with 0 and the files themselves,
  a directory being replaced by its visible files that are no directories.\<close>

theorem get_sock_read_file_info_expands:
  assumes "\<forall>f \<in> set fs. word f \<and> NUL \<notin> set f \<and> readable env f"
  shows "get_sock_read_file_info env (unwords fs) files = Inr (0, files @ concat (map (expansion env) fs))"
  using sock_words_all [of fs env "\<lparr>st_dir = False, p_buf = zbuf MAX_PATH_SIZE, dir_file_path = files\<rparr>" "count_blanks (unwords fs) + 1"]
    assms tokens_unwords [of fs]
  by (auto simp: get_sock_read_file_info_def)

theorem get_sock_read_file_info_expands_witness:
  "get_sock_read_file_info \<lparr>stat_dir = (\<lambda>p. Some (p = ''d'')), opendir = (\<lambda>_. Some [''.'', ''a''])\<rparr> (unwords [''f'', ''d'']) []
    = Inr (0, [''f'', ''d/a''])"
  using get_sock_read_file_info_expands [of "[''f'', ''d'']" "\<lparr>stat_dir = (\<lambda>p. Some (p = ''d'')), opendir = (\<lambda>_. Some [''.'', ''a''])\<rparr>" "[]"]
  by (simp add: word_def is_space_def NUL_def readable_def expansion_def regular_entries_def hidden_def has_prefix_def entry_path_def)

text \<open>A missing file is an error everywhere but at the end of the list, where it is the output file
  to be: behind readable files it is then appended, because \<open>st\<close> still holds a regular file; behind a
  directory without visible entries \<open>st\<close> still holds the directory, and the request fails.\<close>

theorem get_sock_read_file_info_missing:
  assumes "\<forall>f \<in> set (pre @ [g] @ post). word f" "\<forall>f \<in> set pre. NUL \<notin> set f" "\<forall>f \<in> set pre. stat_dir env f = Some False"
    and "stat_dir env g = None"
  shows "(post \<noteq> [] \<longrightarrow> get_sock_read_file_info env (unwords (pre @ [g] @ post)) files = Inr (-1, files @ pre))
    \<and> (post = [] \<longrightarrow> get_sock_read_file_info env (unwords (pre @ [g])) files = Inr (0, files @ pre @ [g]))
    \<and> (word d \<and> stat_dir env d = Some True \<and> opendir env d = Some names \<and> (\<forall>n \<in> set names. hidden n) \<and> opendir env g = None
        \<longrightarrow> get_sock_read_file_info env (unwords (pre @ [d, g])) files = Inr (-1, files @ pre))"
proof -
  let ?s = "\<lparr>st_dir = False, p_buf = zbuf MAX_PATH_SIZE, dir_file_path = files\<rparr>"
  have pre: "sock_words env pre num s = Inr (0, s\<lparr>st_dir := False, dir_file_path := dir_file_path s @ pre\<rparr>)"
    if "\<not> st_dir s" for num s
    using that assms(3)
  proof (induction pre arbitrary: num s)
    case Nil
    then show ?case by (cases s) simp
  qed simp
  have run: "sock_words env (pre @ gs) (int (length pre) + k) ?s = sock_words env gs k (?s\<lparr>dir_file_path := files @ pre\<rparr>)" for gs k
    using sock_words_append [OF pre, of ?s gs "int (length pre) + k"] by simp
  have ws: "\<forall>f \<in> set (pre @ [d, g]). word f" if "word d" using assms(1) that by auto
  have cb: "count_blanks (unwords (pre @ gs)) + 1 = int (length pre) + int (length gs)"
    if "\<forall>f \<in> set (pre @ gs). word f" "gs \<noteq> []" for gs
    using count_blanks_unwords [OF that(1)] that(2) by simp
  have info: "get_sock_read_file_info env (unwords (pre @ gs)) files
      = bindE (sock_words env gs (int (length gs)) (?s\<lparr>dir_file_path := files @ pre\<rparr>)) (\<lambda>r. Inr (fst r, dir_file_path (snd r)))"
    if "\<forall>f \<in> set (pre @ gs). word f" "gs \<noteq> []" for gs
    using tokens_unwords [OF that(1)] cb [OF that] run [of gs "int (length gs)"] by (simp add: get_sock_read_file_info_def)
  have all: "\<forall>n \<in> set names. hidden n \<Longrightarrow> entries sock_entry env d names s = Inr s" for s
    by (rule sock_dir.entries_all_hidden)
  show ?thesis
    using info [of "g # post"] info [of "[g]"] info [of "[d, g]"] ws assms all
    by (auto simp: Let_def)
qed

theorem get_sock_read_file_info_missing_witness:
  "get_sock_read_file_info \<lparr>stat_dir = (\<lambda>p. if p = ''d'' then Some True else None), opendir = (\<lambda>p. if p = ''d'' then Some [''.''] else None)\<rparr>
     (unwords [''d'', ''out'']) [] = Inr (-1, [])"
  using get_sock_read_file_info_missing [of "[]" "''out''" "[]"
      "\<lparr>stat_dir = (\<lambda>p. if p = ''d'' then Some True else None), opendir = (\<lambda>p. if p = ''d'' then Some [''.''] else None)\<rparr>" "[]" "''d''" "[''.'']"]
  by (simp add: word_def is_space_def hidden_def has_prefix_def)

end
