(* ===== verification/SendFeedback.thy ===== *)
theory SendFeedback
  imports Json
begin

text \<open>
  \<open>src/send_feedback_info.cpp\<close>: the request to the file server with its retries, and the loop that
  writes an answer to a socket.

  \<open>RestClient::post\<close> is the parameter \<open>post\<close>, the answer to the n-th call as a function of the URL
  and the content; \<open>write\<close> is the parameter \<open>os\<close>, for the n-th call and the number of bytes offered
  its return value and \<open>errno\<close>. The interface \<open>retry_writer\<close> is the loop around \<open>write\<close>; the data
  server client contains the same loop and interprets it as well.
\<close>

definition BUF_MAX :: nat where "BUF_MAX = 1024 * 16"

subsection \<open>\<open>send_file_name_main\<close>\<close>

record response =
  resp_code :: int
  resp_body :: string

function post_retry :: "(nat \<Rightarrow> response) \<Rightarrow> nat \<Rightarrow> response \<Rightarrow> int + response" where
  "post_retry post k r =
     (if 3 \<le> k then Inr r
      else if resp_code r \<noteq> 200
      then let r' = post (Suc k) in if k = 2 then Inl ERROR_SEND_FILE_NAME_CLIENT else post_retry post (Suc k) r'
      else Inr r)"
  by pat_completeness auto
termination by (relation "measure (\<lambda>(post, k, r). 3 - k)") auto

declare post_retry.simps [simp del]

definition send_file_name_main ::
    "(string \<Rightarrow> string \<Rightarrow> nat \<Rightarrow> response) \<Rightarrow> string list \<Rightarrow> tDataServerInfo \<Rightarrow> cbuf \<Rightarrow> fault + (int \<times> cbuf)" where
  "send_file_name_main post a_set_of_files server file_attribyte =
     bindE (set_send_nonlocal_http_content (zbuf BUF_MAX) (zbuf 1024) a_set_of_files server) (\<lambda>b.
     bindE (read_cstr (fst b)) (\<lambda>content.
     bindE (read_cstr (snd b)) (\<lambda>url.
     case post_retry (post url content) 0 (post url content 0) of
       Inl e \<Rightarrow> Inr (e, file_attribyte)
     | Inr r \<Rightarrow> bindE (strcpy file_attribyte (cstr (resp_body r @ [NUL]))) (\<lambda>a. Inr (RIGHT, a)))))"

text \<open>The first of the three answers that count.\<close>

definition answer :: "(nat \<Rightarrow> response) \<Rightarrow> response option" where
  "answer post = find (\<lambda>r. resp_code r = 200) (map post [0, 1, 2])"

lemma post_retry_eq:
  "post_retry post 0 (post 0) = (case answer post of None \<Rightarrow> Inl ERROR_SEND_FILE_NAME_CLIENT | Some r \<Rightarrow> Inr r)"
  by (simp add: answer_def post_retry.simps Let_def numeral_2_eq_2)

subsection \<open>The write loop\<close>

definition EINTR :: int where "EINTR = 4"
definition EAGAIN :: int where "EAGAIN = 11"

type_synonym write_os = "nat \<Rightarrow> int \<Rightarrow> int \<times> int"

text \<open>\<open>write\<close> returns at most the number of bytes it was given.\<close>

definition write_ok :: "write_os \<Rightarrow> bool" where
  "write_ok os \<longleftrightarrow> (\<forall>i n. 0 < n \<longrightarrow> fst (os i n) \<le> n)"

text \<open>The state of the loop: calls made, \<open>bytes_left\<close>, the offset of \<open>ptr\<close>, the bytes taken so far.\<close>

type_synonym 'b wstate = "nat \<times> int \<times> nat \<times> 'b list"

locale retry_writer =
  fixes iter :: "write_os \<Rightarrow> 'b list \<Rightarrow> 'b wstate \<Rightarrow> 'b wstate + (int \<times> 'b list)"
  assumes all_sent: "left \<le> 0 \<Longrightarrow> iter os buf (i, left, ptr, out) = Inr (0, out)"
    and interrupted: "0 < left \<Longrightarrow> os i left = (w, EINTR) \<Longrightarrow> w \<le> 0 \<Longrightarrow>
      iter os buf (i, left, ptr, out) = Inl (Suc i, left, ptr, out)"
    and would_block: "0 < left \<Longrightarrow> os i left = (w, EAGAIN) \<Longrightarrow> w \<le> 0 \<Longrightarrow> iter os buf (i, left, ptr, out) = Inr (0, out)"
    and failed: "0 < left \<Longrightarrow> os i left = (w, e) \<Longrightarrow> w \<le> 0 \<Longrightarrow> e \<noteq> EINTR \<Longrightarrow> e \<noteq> EAGAIN \<Longrightarrow>
      iter os buf (i, left, ptr, out) = Inr (- WRITE_EXEC_ERROR, out)"
    and progress: "0 < left \<Longrightarrow> os i left = (w, e) \<Longrightarrow> 0 < w \<Longrightarrow> iter os buf (i, left, ptr, out)
      = Inl (Suc i, left - w, ptr + nat w, out @ take (nat w) (drop ptr buf))"
begin

text \<open>What has been taken is the part of the buffer before \<open>ptr\<close>.\<close>

definition consistent :: "'b list \<Rightarrow> 'b wstate \<Rightarrow> bool" where
  "consistent buf st = (case st of (i, left, ptr, out) \<Rightarrow>
     out = take ptr buf \<and> int ptr + left = int (length buf) \<and> 0 \<le> left)"

lemma consistent_step:
  assumes "write_ok os" "consistent buf st" "iter os buf st = Inl st'"
  shows "consistent buf st'"
proof -
  obtain i left ptr out where st: "st = (i, left, ptr, out)" by (cases st) auto
  obtain w e where os: "os i left = (w, e)" by fastforce
  have w: "0 < left \<Longrightarrow> w \<le> left" using assms(1) os by (metis write_ok_def fst_conv)
  show ?thesis
  proof (cases "0 < left \<and> 0 < w")
    case True
    then have st': "st' = (Suc i, left - w, ptr + nat w, out @ take (nat w) (drop ptr buf))"
      using assms(3) progress [of left os i w e buf ptr out] os st by simp
    have "out @ take (nat w) (drop ptr buf) = take (ptr + nat w) buf"
      using assms(2) st by (simp add: consistent_def take_add)
    then show ?thesis using assms(2) st True w by (simp add: consistent_def st')
  next
    case False
    have l: "0 < left" using all_sent [of left os buf i ptr out] assms(3) st by fastforce
    then have w0: "w \<le> 0" using False by simp
    have "e \<noteq> EAGAIN" using would_block [of left os i w buf ptr out] l os assms(3) st w0 by fastforce
    then have "e = EINTR" using failed [of left os i w e buf ptr out] l os assms(3) st w0 by fastforce
    then have "st' = (Suc i, left, ptr, out)"
      using interrupted [of left os i w buf ptr out] l os assms(3) st w0 by simp
    then show ?thesis using assms(2) st by (simp add: consistent_def)
  qed
qed

definition verdict :: "write_os \<Rightarrow> 'b list \<Rightarrow> int \<times> 'b list \<Rightarrow> bool" where
  "verdict os buf r \<longleftrightarrow> (\<exists>k. snd r = take k buf)
     \<and> ((fst r = 0 \<and> (snd r = buf \<or> (\<exists>i n w. os i n = (w, EAGAIN) \<and> w \<le> 0)))
        \<or> (fst r = - WRITE_EXEC_ERROR \<and> (\<exists>i n w e. os i n = (w, e) \<and> w \<le> 0 \<and> e \<noteq> EINTR \<and> e \<noteq> EAGAIN)))"

lemma consistent_exit:
  assumes "consistent buf st" "iter os buf st = Inr r"
  shows "verdict os buf r"
proof -
  obtain i left ptr out where st: "st = (i, left, ptr, out)" by (cases st) auto
  obtain w e where os: "os i left = (w, e)" by fastforce
  have out: "out = take ptr buf" "left \<le> 0 \<Longrightarrow> out = buf" using assms(1) st by (auto simp: consistent_def)
  show ?thesis
  proof (cases "left \<le> 0")
    case True
    then show ?thesis using all_sent [of left os buf i ptr out] assms(2) st out by (auto simp: verdict_def)
  next
    case False
    then have "w \<le> 0" using progress [of left os i w e buf ptr out] os assms(2) st by fastforce
    moreover have "e \<noteq> EINTR" using interrupted [of left os i w buf ptr out] False os assms(2) st \<open>w \<le> 0\<close> by fastforce
    ultimately show ?thesis
      using would_block [of left os i w buf ptr out] failed [of left os i w e buf ptr out] False os assms(2) st out
      by (cases "e = EAGAIN") (auto simp: verdict_def)
  qed
qed

lemma run_verdict:
  assumes "write_ok os" "run_loop (iter os buf) (0, int (length buf), 0, []) = Some r"
  shows "verdict os buf r"
proof (rule run_loop_partial [OF assms(2), where I = "consistent buf"])
  show "consistent buf (0, int (length buf), 0, [])" by (simp add: consistent_def)
qed (use assms(1) consistent_step consistent_exit in blast)+

text \<open>The loop ends unless \<open>write\<close> is interrupted for ever.\<close>

definition left_of :: "nat \<Rightarrow> 'b wstate \<Rightarrow> nat" where
  "left_of N st = (case st of (i, left, ptr, out) \<Rightarrow> (N - i) + nat left)"

lemma run_total:
  assumes "write_ok os" "\<And>i n w. N \<le> i \<Longrightarrow> os i n = (w, EINTR) \<Longrightarrow> 0 < w"
  shows "\<exists>r. run_loop (iter os buf) (0, int (length buf), 0, []) = Some r \<and> verdict os buf r"
proof (rule run_loop_total [where I = "consistent buf" and m = "left_of N"])
  show "consistent buf (0, int (length buf), 0, [])" by (simp add: consistent_def)
next
  fix st assume c: "consistent buf st"
  obtain i left ptr out where st: "st = (i, left, ptr, out)" by (cases st) auto
  obtain w e where os: "os i left = (w, e)" by fastforce
  have "left_of N st' < left_of N st" if st': "iter os buf st = Inl st'" for st'
  proof (cases "0 < w")
    case True
    have "0 < left" using all_sent [of left os buf i ptr out] st st' by fastforce
    then show ?thesis using progress [of left os i w e buf ptr out] os st st' True by (auto simp: left_of_def)
  next
    case False
    have l: "0 < left" using all_sent [of left os buf i ptr out] st st' by fastforce
    have "e = EINTR" using would_block [of left os i w buf ptr out] failed [of left os i w e buf ptr out] l os st st' False
      by (cases "e = EAGAIN") auto
    moreover have "i < N" using assms(2) [of i left w] os False calculation by fastforce
    ultimately show ?thesis using interrupted [of left os i w buf ptr out] l os st st' False by (auto simp: left_of_def)
  qed
  then show "case iter os buf st of Inl st' \<Rightarrow> consistent buf st' \<and> left_of N st' < left_of N st | Inr r \<Rightarrow> verdict os buf r"
    using consistent_step [OF assms(1) c] consistent_exit [OF c] by (auto split: sum.splits)
qed

lemma run_all:
  assumes "write_ok os" "\<And>i n. 0 < fst (os i n)"
  shows "run_loop (iter os buf) (0, int (length buf), 0, []) = Some (0, buf)"
proof -
  have w: "os i n = (w, e) \<Longrightarrow> 0 < w" for i n w e using assms(2) [of i n] by simp
  obtain r where r: "run_loop (iter os buf) (0, int (length buf), 0, []) = Some r" "verdict os buf r"
    using run_total [OF assms(1), of 0 buf] w by blast
  then have "fst r = 0" "snd r = buf" using w by (fastforce simp: verdict_def)+
  then show ?thesis using r(1) by (cases r) simp
qed

lemma run_interrupted:
  assumes "\<And>i n. \<exists>w. os i n = (w, EINTR) \<and> w \<le> 0" "buf \<noteq> []"
  shows "run_loop (iter os buf) (0, int (length buf), 0, []) = None"
proof (rule run_loop_diverges [where I = "\<lambda>st. \<exists>i ptr out. st = (i, int (length buf), ptr, out)"])
  fix st :: "'b wstate" assume "\<exists>i ptr out. st = (i, int (length buf), ptr, out)"
  then obtain i ptr out where st: "st = (i, int (length buf), ptr, out)" by blast
  obtain w where "os i (int (length buf)) = (w, EINTR)" "w \<le> 0" using assms(1) by blast
  then show "\<exists>st'. iter os buf st = Inl st' \<and> (\<exists>i ptr out. st' = (i, int (length buf), ptr, out))"
    using interrupted [of "int (length buf)" os i w buf ptr out] assms(2) st by auto
qed simp

lemma run_would_block:
  assumes "os 0 (int (length buf)) = (w, EAGAIN)" "w \<le> 0"
  shows "run_loop (iter os buf) (0, int (length buf), 0, []) = Some (0, [])"
proof (cases "buf = []")
  case True
  then show ?thesis using all_sent [of "0" os buf 0 0 "[]"] by (simp add: run_loop_exit)
next
  case False
  then show ?thesis using would_block [of "int (length buf)" os 0 w buf 0 "[]"] assms by (simp add: run_loop_exit)
qed

end

subsection \<open>\<open>write_buf\<close>\<close>

definition write_buf_iter :: "write_os \<Rightarrow> 'b list \<Rightarrow> 'b wstate \<Rightarrow> 'b wstate + (int \<times> 'b list)" where
  "write_buf_iter os buf st =
     (case st of (i, bytes_left, ptr, out) \<Rightarrow>
        if 0 < bytes_left
        then
          let written_bytes = fst (os i bytes_left); errno = snd (os i bytes_left)
          in if written_bytes \<le> 0
             then if errno = EINTR then Inl (Suc i, bytes_left - 0, ptr + 0, out)
                  else if errno = EAGAIN then Inr (0, out)
                  else Inr (- WRITE_EXEC_ERROR, out)
             else Inl (Suc i, bytes_left - written_bytes, ptr + nat written_bytes,
                    out @ take (nat written_bytes) (drop ptr buf))
        else Inr (0, out))"

definition write_buf :: "write_os \<Rightarrow> 'b list \<Rightarrow> (int \<times> 'b list) option" where
  "write_buf os buf = run_loop (write_buf_iter os buf) (0, int (length buf), 0, [])"

interpretation feedback_writer: retry_writer write_buf_iter
  by unfold_locales (auto simp: write_buf_iter_def EINTR_def EAGAIN_def)

lemma send_file_name_result:
  assumes "holds (data_server_ip server) 32 ip" "holds (data_server_port server) 16 port"
    and "holds (data_server_method server) 128 m" "\<forall>f \<in> set fs. NUL \<notin> set f"
    and "length (nonlocal_content fs) < BUF_MAX"
  shows "send_file_name_main post fs server (zbuf BUF_MAX) =
    (case answer (post (ip @ '':'' @ port @ ''/'' @ m) (nonlocal_content fs)) of
       None \<Rightarrow> Inr (ERROR_SEND_FILE_NAME_CLIENT, zbuf BUF_MAX)
     | Some r \<Rightarrow> bindE (strcpy (zbuf BUF_MAX) (cstr (resp_body r @ [NUL]))) (\<lambda>a. Inr (RIGHT, a)))"
proof -
  have "\<exists>content ipm. set_send_nonlocal_http_content (zbuf BUF_MAX) (zbuf 1024) fs server = Inr (content, ipm)
      \<and> holds content BUF_MAX (nonlocal_content fs) \<and> holds ipm 1024 (ip @ '':'' @ port @ ''/'' @ m)"
    using nonlocal_text [OF assms(1-4), of BUF_MAX] assms(5) by (simp add: BUF_MAX_def)
  then obtain content ipm where "set_send_nonlocal_http_content (zbuf BUF_MAX) (zbuf 1024) fs server = Inr (content, ipm)"
      "holds content BUF_MAX (nonlocal_content fs)" "holds ipm 1024 (ip @ '':'' @ port @ ''/'' @ m)"
    by blast
  then show ?thesis
    by (simp add: send_file_name_main_def holds_read post_retry_eq split: option.splits)
qed

subsection \<open>Properties\<close>

text \<open>C31. Asking for the file sizes: the server posts at most four times and takes the first answer with
  code 200 among the first three; its body is the result if it fits. If none of the three has code 200
  the request fails, whatever the fourth post brings back.\<close>

theorem send_file_name_main_answer:
  assumes "holds (data_server_ip server) 32 ip" "holds (data_server_port server) 16 port"
    and "holds (data_server_method server) 128 m" "\<forall>f \<in> set fs. NUL \<notin> set f"
    and "length (nonlocal_content fs) < BUF_MAX"
  shows "send_file_name_main post fs server (zbuf BUF_MAX) =
    (case answer (post (ip @ '':'' @ port @ ''/'' @ m) (nonlocal_content fs)) of
       None \<Rightarrow> Inr (ERROR_SEND_FILE_NAME_CLIENT, zbuf BUF_MAX)
     | Some r \<Rightarrow> bindE (strcpy (zbuf BUF_MAX) (cstr (resp_body r @ [NUL]))) (\<lambda>a. Inr (RIGHT, a)))"
  using assms by (rule send_file_name_result)

definition three_failures :: "string \<Rightarrow> string \<Rightarrow> nat \<Rightarrow> response" where
  "three_failures url content i = (if i < 3 then \<lparr>resp_code = 500, resp_body = ''''\<rparr> else \<lparr>resp_code = 200, resp_body = ''{}''\<rparr>)"

theorem send_file_name_main_answer_witness:
  "send_file_name_main three_failures [''/a''] no_data_server (zbuf BUF_MAX) = Inr (ERROR_SEND_FILE_NAME_CLIENT, zbuf BUF_MAX)"
proof -
  have "answer (three_failures url c) = None" for url c by (simp add: answer_def three_failures_def)
  then show ?thesis
    using send_file_name_main_answer [of no_data_server "''''" "''''" "''''" "[''/a'']" three_failures] no_server_empty
    by (simp add: no_data_server_def NUL_def BUF_MAX_def nonlocal_content_def name_object_def QUOTE_def)
qed

text \<open>Bounds: an answer of 16384 bytes or more from the file server is copied past the end of the
  caller's array.\<close>

theorem send_file_name_main_long_answer:
  assumes "server_wf server" "\<forall>f \<in> set fs. NUL \<notin> set f" "length (nonlocal_content fs) < BUF_MAX"
    and "\<And>url c. \<exists>r. answer (post url c) = Some r \<and> NUL \<notin> set (resp_body r) \<and> BUF_MAX \<le> length (resp_body r)"
  shows "send_file_name_main post fs server (zbuf BUF_MAX) = Inl BufferOverflow"
proof -
  obtain ip port m where h: "holds (data_server_ip server) 32 ip" "holds (data_server_port server) 16 port"
      "holds (data_server_method server) 128 m"
    using assms(1) by (auto simp: server_wf_def)
  let ?url = "ip @ '':'' @ port @ ''/'' @ m"
  obtain r where "answer (post ?url (nonlocal_content fs)) = Some r" "NUL \<notin> set (resp_body r)" "BUF_MAX \<le> length (resp_body r)"
    using assms(4) by blast
  then show ?thesis using send_file_name_result [OF h assms(2,3), of post] cstr_append_NUL [of "resp_body r" "[]"] by (simp add: strcpy_def)
qed

theorem send_file_name_main_long_answer_witness:
  "send_file_name_main (\<lambda>_ _ _. \<lparr>resp_code = 200, resp_body = replicate BUF_MAX CHR ''x''\<rparr>) [] no_data_server (zbuf BUF_MAX)
    = Inl BufferOverflow"
  by (rule send_file_name_main_long_answer [OF no_data_server_wf])
     (auto simp: answer_def NUL_def BUF_MAX_def nonlocal_content_def QUOTE_def)

text \<open>The write loop: it ends if \<open>write\<close> is not interrupted for ever, the bytes it wrote are a prefix
  of the buffer, it answers -WRITE_EXEC_ERROR only if a write failed, and an answer of 0 means that
  everything was written unless a write would have blocked.\<close>

theorem write_buf_delivers:
  assumes "write_ok os" "\<And>i n w. N \<le> i \<Longrightarrow> os i n = (w, EINTR) \<Longrightarrow> 0 < w"
  shows "\<exists>ret out. write_buf os buf = Some (ret, out) \<and> (\<exists>k. out = take k buf)
    \<and> (ret = 0 \<or> ret = - WRITE_EXEC_ERROR)
    \<and> (ret = 0 \<longrightarrow> out = buf \<or> (\<exists>i n w. os i n = (w, EAGAIN) \<and> w \<le> 0))
    \<and> (ret = - WRITE_EXEC_ERROR \<longrightarrow> (\<exists>i n w e. os i n = (w, e) \<and> w \<le> 0 \<and> e \<noteq> EINTR \<and> e \<noteq> EAGAIN))"
proof -
  obtain r where r: "write_buf os buf = Some r" "feedback_writer.verdict os buf r"
    using feedback_writer.run_total [of os N buf] assms unfolding write_buf_def by blast
  have "- WRITE_EXEC_ERROR \<noteq> 0" by (simp add: codes)
  with r show ?thesis
    by (cases r) (fastforce simp: feedback_writer.verdict_def)
qed

theorem write_buf_delivers_witness:
  "\<exists>ret out. write_buf (\<lambda>i n. (min n 2, 0)) [7, 8, 9::nat] = Some (ret, out) \<and> (ret = 0 \<longrightarrow> out = [7, 8, 9])"
  using write_buf_delivers [of "\<lambda>i n. (min n 2, 0)" 0 "[7, 8, 9::nat]"]
  by (auto simp: write_ok_def EINTR_def EAGAIN_def)

text \<open>A socket that is not ready is taken for success: when the first write would block, the loop
  answers 0 and nothing was sent. A write that is interrupted for ever keeps the loop running.\<close>

theorem write_buf_would_block:
  assumes "os 0 (int (length buf)) = (w, EAGAIN)" "w \<le> 0" "buf \<noteq> []"
    and "\<And>i n. \<exists>w. os' i n = (w, EINTR) \<and> w \<le> 0"
  shows "write_buf os buf = Some (0, []) \<and> write_buf os' buf = None"
  using feedback_writer.run_would_block [of os buf w] feedback_writer.run_interrupted [of os' buf] assms
  by (simp add: write_buf_def)

theorem write_buf_would_block_witness:
  "write_buf (\<lambda>i n. (- 1, EAGAIN)) ''HTTP'' = Some (0, []) \<and> write_buf (\<lambda>i n. (- 1, EINTR)) ''HTTP'' = None"
  by (rule write_buf_would_block [where w = "-1"]) auto

end
