(* ===== verification/GroupState.thy ===== *)
theory GroupState
  imports CString XorSpec ReturnCodes
begin

text \<open>
  The shared state of \<open>src/get_data_client_file_data.cpp\<close>, \<open>g_tgroupFile\<close>, and the function
  \<open>write_buf\<close> of that file, which every receiving thread runs to put what it received into its two
  buffers.

  A buffer is the whole allocated memory, \<open>cap\<close> bytes (\<open>READ_BUF_SIZE\<close> in the code, a parameter
  here); \<open>contents\<close> are the \<open>buf_size\<close> bytes of it in use. \<open>alive\<close> tells whether the two buffers of
  a file are still allocated. Pointers to libevent's objects are numbers. The two branches of the loop for buffer 0 and buffer 1 are the same
  code up to the index and are one definition, \<open>store k\<close>. With no other thread running, the parts of \<open>write_buf\<close> are divided
  as \<open>GroupRun\<close> divides them.
\<close>

definition READ_BUF_SIZE :: int where "READ_BUF_SIZE = 100 * 1024 * 1024"
definition MAXLINE :: nat where "MAXLINE = 2048000"

subsection \<open>State\<close>

record in_file_info =
  in_buf :: "nat \<Rightarrow> byte list"
  buf_size :: "nat \<Rightarrow> int"
  cp_size :: int
  buf_flag :: "nat \<Rightarrow> int"
  alive :: bool

record single_file_info =
  in_buf_info :: in_file_info
  fd :: int
  file_fd :: int
  base :: nat
  ev_accept :: nat
  write_state :: int
  write_index :: u64
  write_total_size :: u64
  file_path :: cbuf
  file_total_size :: int
  file_index :: int
  write_offset :: int

record tGroupFileInfo =
  single_file_array :: "single_file_info list"
  file_size :: int
  file_num :: int
  not_transfer_end_num :: int
  group_empty :: int
  xor_size :: int
  buf_full_num :: "nat \<Rightarrow> int"
  xor_flag :: int
  correct_flag :: int

definition get_file :: "tGroupFileInfo \<Rightarrow> nat \<Rightarrow> single_file_info" where
  "get_file g i = single_file_array g ! i"

definition put_file :: "nat \<Rightarrow> single_file_info \<Rightarrow> tGroupFileInfo \<Rightarrow> tGroupFileInfo" where
  "put_file i f g = g\<lparr>single_file_array := (single_file_array g)[i := f]\<rparr>"

definition put_info :: "nat \<Rightarrow> in_file_info \<Rightarrow> tGroupFileInfo \<Rightarrow> tGroupFileInfo" where
  "put_info i b g = put_file i ((get_file g i)\<lparr>in_buf_info := b\<rparr>) g"

text \<open>\<open>g_tgroupFile.buf_full_num[k]++\<close>\<close>

definition bump :: "nat \<Rightarrow> tGroupFileInfo \<Rightarrow> tGroupFileInfo" where
  "bump k g = g\<lparr>buf_full_num := (buf_full_num g)(k := buf_full_num g k + 1)\<rparr>"

subsection \<open>\<open>write_buf\<close>\<close>

definition memcpy :: "byte list \<Rightarrow> int \<Rightarrow> byte list \<Rightarrow> int \<Rightarrow> int \<Rightarrow> fault + byte list" where
  "memcpy dst off src soff n =
     (if n < 0 \<or> off < 0 \<or> int (length dst) < off + n then Inl BufferOverflow
      else if soff < 0 \<or> int (length src) < soff + n then Inl OutOfBounds
      else Inr (take (nat off) dst @ take (nat n) (drop (nat soff) src) @ drop (nat (off + n)) dst))"

definition append_to :: "nat \<Rightarrow> byte list \<Rightarrow> int \<Rightarrow> int \<Rightarrow> in_file_info \<Rightarrow> fault + in_file_info" where
  "append_to k buf soff n b =
     bindE (memcpy (in_buf b k) (buf_size b k) buf soff n) (\<lambda>m.
     Inr (b\<lparr>in_buf := (in_buf b)(k := m), buf_size := (buf_size b)(k := buf_size b k + n)\<rparr>))"

text \<open>The branch for buffer \<open>k\<close>; the result tells whether the loop is left, and the new \<open>flag\<close>.\<close>

definition store ::
    "int \<Rightarrow> nat \<Rightarrow> nat \<Rightarrow> byte list \<Rightarrow> int \<Rightarrow> int \<Rightarrow> tGroupFileInfo \<Rightarrow> fault + (bool \<times> int \<times> tGroupFileInfo)" where
  "store cap k i buf len flag g =
     (let f = get_file g i; b = in_buf_info f
      in if \<not> alive b then Inl UseAfterFree
         else if cap < buf_size b k + len
         then let cp = cap - buf_size b k
              in bindE (append_to k buf 0 cp (b\<lparr>cp_size := cp\<rparr>)) (\<lambda>b.
                 Inr (False, 1, bump k (put_info i (b\<lparr>buf_flag := (buf_flag b)(k := 2)\<rparr>) g)))
         else let f = f\<lparr>file_index := file_index f + len\<rparr>
              in bindE (if flag = 1
                        then bindE (append_to k buf (cp_size b) (len - cp_size b) b) (\<lambda>b. Inr (b\<lparr>cp_size := 0\<rparr>))
                        else append_to k buf 0 len b) (\<lambda>b.
                 if file_size g \<le> file_index f
                 then Inr (True, 0, bump k (put_file i (f\<lparr>in_buf_info := b\<lparr>buf_flag := (buf_flag b)(k := 2)\<rparr>\<rparr>) g))
                 else Inr (True, 0, put_file i (f\<lparr>in_buf_info := b\<rparr>) g)))"

text \<open>The two ifs at the end of the loop body, which make an empty buffer the one to be filled.\<close>

definition make_writable :: "int \<Rightarrow> nat \<Rightarrow> in_file_info \<Rightarrow> fault + in_file_info" where
  "make_writable cap k b =
     (if buf_flag b k = 0 \<and> buf_flag b (1 - k) \<noteq> 1
      then if \<not> alive b then Inl UseAfterFree
           else Inr (b\<lparr>in_buf := (in_buf b)(k := replicate (nat cap) 0), buf_flag := (buf_flag b)(k := 1),
             buf_size := (buf_size b)(k := 0)\<rparr>)
      else Inr b)"

definition rotate_bufs :: "int \<Rightarrow> nat \<Rightarrow> tGroupFileInfo \<Rightarrow> fault + tGroupFileInfo" where
  "rotate_bufs cap i g =
     bindE (make_writable cap 0 (in_buf_info (get_file g i))) (\<lambda>b.
     bindE (make_writable cap 1 b) (\<lambda>b. Inr (put_info i b g)))"

text \<open>The first part of the loop body: buffer 0, buffer 1, or \<open>usleep\<close>.\<close>

definition store_step ::
    "int \<Rightarrow> nat \<Rightarrow> byte list \<Rightarrow> int \<Rightarrow> int \<Rightarrow> tGroupFileInfo \<Rightarrow> fault + (bool \<times> int \<times> tGroupFileInfo)" where
  "store_step cap i buf len flag g =
     (let b = in_buf_info (get_file g i)
      in if buf_flag b 0 = 1 then store cap 0 i buf len flag g
         else if buf_flag b 1 = 1 then store cap 1 i buf len flag g
         else Inr (False, flag, g))"

definition write_buf_body ::
    "int \<Rightarrow> nat \<Rightarrow> byte list \<Rightarrow> int \<Rightarrow> int \<times> tGroupFileInfo \<Rightarrow> (int \<times> tGroupFileInfo) + (fault + tGroupFileInfo)" where
  "write_buf_body cap i buf len st =
     (case store_step cap i buf len (fst st) (snd st) of
        Inl e \<Rightarrow> Inr (Inl e)
      | Inr r \<Rightarrow>
          if fst r then Inr (Inr (snd (snd r)))
          else (case rotate_bufs cap i (snd (snd r)) of
                  Inl e \<Rightarrow> Inr (Inl e)
                | Inr g \<Rightarrow> Inl (fst (snd r), g)))"

text \<open>\<open>write_buf\<close> with no other thread running; it always returns 0.\<close>

definition write_buf :: "int \<Rightarrow> byte list \<Rightarrow> int \<Rightarrow> nat \<Rightarrow> tGroupFileInfo \<Rightarrow> (fault + tGroupFileInfo) option" where
  "write_buf cap buf len i g = run_loop (write_buf_body cap i buf len) (0, g)"

subsection \<open>Accessors\<close>

lemma get_put_file [simp]:
  "i < length (single_file_array g) \<Longrightarrow> get_file (put_file i f g) i = f"
  "j \<noteq> i \<Longrightarrow> get_file (put_file i f g) j = get_file g j"
  "length (single_file_array (put_file i f g)) = length (single_file_array g)"
  by (simp_all add: get_file_def put_file_def)

lemma bump_frame [simp]:
  "get_file (bump k g) i = get_file g i" "single_file_array (bump k g) = single_file_array g"
  "file_size (bump k g) = file_size g" "file_num (bump k g) = file_num g" "xor_size (bump k g) = xor_size g"
  "xor_flag (bump k g) = xor_flag g" "correct_flag (bump k g) = correct_flag g"
  "buf_full_num (bump k g) = (buf_full_num g)(k := buf_full_num g k + 1)"
  by (simp_all add: bump_def get_file_def)

lemma put_frame [simp]:
  "file_size (put_file i f g) = file_size g" "file_num (put_file i f g) = file_num g" "xor_size (put_file i f g) = xor_size g"
  "xor_flag (put_file i f g) = xor_flag g" "correct_flag (put_file i f g) = correct_flag g"
  "buf_full_num (put_file i f g) = buf_full_num g"
  by (simp_all add: put_file_def)

lemma put_info_frame [simp]:
  "file_size (put_info i f g) = file_size g" "file_num (put_info i f g) = file_num g" "xor_size (put_info i f g) = xor_size g"
  "xor_flag (put_info i f g) = xor_flag g" "correct_flag (put_info i f g) = correct_flag g"
  "buf_full_num (put_info i f g) = buf_full_num g" "length (single_file_array (put_info i f g)) = length (single_file_array g)"
  by (simp_all add: put_info_def)

lemma get_put_info [simp]:
  "i < length (single_file_array g) \<Longrightarrow> get_file (put_info i b g) i = (get_file g i)\<lparr>in_buf_info := b\<rparr>"
  "j \<noteq> i \<Longrightarrow> get_file (put_info i b g) j = get_file g j"
  by (simp_all add: put_info_def)

subsection \<open>Buffers as byte sequences\<close>

definition contents :: "in_file_info \<Rightarrow> nat \<Rightarrow> byte list" where
  "contents b k = take (nat (buf_size b k)) (in_buf b k)"

definition buf_wf :: "int \<Rightarrow> in_file_info \<Rightarrow> bool" where
  "buf_wf cap b \<longleftrightarrow> alive b \<and> (\<forall>k < 2. length (in_buf b k) = nat cap \<and> 0 \<le> buf_size b k \<and> buf_size b k \<le> cap)"

lemma length_contents: "buf_wf cap b \<Longrightarrow> k < 2 \<Longrightarrow> int (length (contents b k)) = buf_size b k"
  by (auto simp: buf_wf_def contents_def)

lemma memcpy_ok:
  assumes "0 \<le> off" "0 \<le> n" "off + n \<le> int (length dst)" "0 \<le> soff" "soff + n \<le> int (length src)"
  shows "\<exists>m. memcpy dst off src soff n = Inr m \<and> length m = length dst
    \<and> take (nat (off + n)) m = take (nat off) dst @ take (nat n) (drop (nat soff) src)"
proof -
  have e: "nat (off + n) = nat off + nat n" using assms by (simp add: nat_add_distrib)
  have l1: "nat n \<le> length src - nat soff" and l2: "nat off \<le> length dst" and l3: "nat off + nat n \<le> length dst"
    using assms by linarith+
  let ?m = "take (nat off) dst @ take (nat n) (drop (nat soff) src) @ drop (nat (off + n)) dst"
  have "memcpy dst off src soff n = Inr ?m" using assms by (simp add: memcpy_def)
  moreover have "length ?m = length dst" using l1 l2 l3 unfolding e by simp
  moreover have "take (nat (off + n)) ?m = take (nat off) dst @ take (nat n) (drop (nat soff) src)"
    using l1 l2 unfolding e by simp
  ultimately show ?thesis by blast
qed

lemma append_to_ok:
  assumes "buf_wf cap b" "k < 2" "0 \<le> n" "buf_size b k + n \<le> cap" "0 \<le> soff" "soff + n \<le> int (length src)"
  shows "\<exists>m. append_to k src soff n b = Inr (b\<lparr>in_buf := (in_buf b)(k := m), buf_size := (buf_size b)(k := buf_size b k + n)\<rparr>)
    \<and> length m = nat cap \<and> take (nat (buf_size b k + n)) m = contents b k @ take (nat n) (drop (nat soff) src)"
proof -
  have "0 \<le> buf_size b k" "length (in_buf b k) = nat cap" "0 \<le> cap" using assms(1,2) by (fastforce simp: buf_wf_def)+
  then show ?thesis
    using memcpy_ok [of "buf_size b k" n "in_buf b k" soff src] assms by (auto simp: append_to_def contents_def)
qed

end
