(* ===== verification/WriteBuf.thy ===== *)
theory WriteBuf
  imports GroupState
begin

text \<open>
  What \<open>write_buf\<close> does to the two buffers of a file: bytes that fit are appended, bytes that do not
  are split over the two buffers, no byte is lost or written outside, and a thread with both buffers
  full waits for the XOR loop.
\<close>

text \<open>Where the bytes still to be stored begin in the received chunk.\<close>

definition from_pos :: "int \<Rightarrow> in_file_info \<Rightarrow> int" where
  "from_pos flag b = (if flag = 1 then cp_size b else 0)"

text \<open>\<open>b'\<close> is \<open>b\<close> with \<open>xs\<close> appended to buffer \<open>k\<close>.\<close>

definition appended :: "int \<Rightarrow> nat \<Rightarrow> byte list \<Rightarrow> in_file_info \<Rightarrow> in_file_info \<Rightarrow> bool" where
  "appended cap k xs b b' \<longleftrightarrow> buf_wf cap b' \<and> contents b' k = contents b k @ xs
     \<and> buf_size b' k = buf_size b k + int (length xs)
     \<and> (\<forall>j < 2. j \<noteq> k \<longrightarrow> contents b' j = contents b j \<and> buf_size b' j = buf_size b j)"

lemma appended_info:
  assumes "buf_wf cap b" "k < 2" "length m = nat cap" "take (nat (buf_size b k + int (length xs))) m = contents b k @ xs"
    and "buf_size b k + int (length xs) \<le> cap"
  shows "appended cap k xs b (b\<lparr>in_buf := (in_buf b)(k := m), buf_size := (buf_size b)(k := buf_size b k + int (length xs)),
     cp_size := c, buf_flag := fl\<rparr>)"
  using assms by (auto simp: appended_def buf_wf_def contents_def)

lemma append_to_appended:
  assumes "buf_wf cap b" "k < 2" "0 \<le> n" "buf_size b k + n \<le> cap" "0 \<le> soff" "soff + n \<le> int (length src)"
  shows "\<exists>m. append_to k src soff n b = Inr (b\<lparr>in_buf := (in_buf b)(k := m), buf_size := (buf_size b)(k := buf_size b k + n)\<rparr>)
    \<and> (\<forall>c fl. appended cap k (take (nat n) (drop (nat soff) src)) b
        (b\<lparr>in_buf := (in_buf b)(k := m), buf_size := (buf_size b)(k := buf_size b k + n), cp_size := c, buf_flag := fl\<rparr>))"
proof -
  obtain m where m: "append_to k src soff n b = Inr (b\<lparr>in_buf := (in_buf b)(k := m), buf_size := (buf_size b)(k := buf_size b k + n)\<rparr>)"
      "length m = nat cap" "take (nat (buf_size b k + n)) m = contents b k @ take (nat n) (drop (nat soff) src)"
    using append_to_ok [OF assms] by blast
  have "nat n \<le> length src - nat soff" using assms(3,5,6) by linarith
  then have len: "int (length (take (nat n) (drop (nat soff) src))) = n" using assms(3) by simp
  show ?thesis
    using m appended_info [OF assms(1,2) m(2), of "take (nat n) (drop (nat soff) src)"] assms(4) unfolding len by blast
qed

lemma store_append:
  fixes g i
  defines "f \<equiv> get_file g i" and "b \<equiv> in_buf_info (get_file g i)"
  assumes "buf_wf cap b" "k < 2" "0 \<le> len" "len \<le> int (length buf)" "buf_size b k + len \<le> cap"
    and "0 \<le> from_pos flag b" "from_pos flag b \<le> len"
  shows "\<exists>b'. store cap k i buf len flag g = Inr (True, 0, (if file_size g \<le> file_index f + len then bump k else id)
      (put_file i (f\<lparr>file_index := file_index f + len, in_buf_info := b'\<rparr>) g))
    \<and> appended cap k (drop (nat (from_pos flag b)) (take (nat len) buf)) b b'
    \<and> buf_flag b' = (if file_size g \<le> file_index f + len then (buf_flag b)(k := 2) else buf_flag b)"
proof -
  let ?p = "from_pos flag b"
  have xs: "take (nat (len - ?p)) (drop (nat ?p) buf) = drop (nat ?p) (take (nat len) buf)"
    using assms(8,9) by (simp add: drop_take nat_diff_distrib)
  obtain m where m: "append_to k buf ?p (len - ?p) b
      = Inr (b\<lparr>in_buf := (in_buf b)(k := m), buf_size := (buf_size b)(k := buf_size b k + (len - ?p))\<rparr>)"
    "\<And>c fl. appended cap k (drop (nat ?p) (take (nat len) buf)) b
        (b\<lparr>in_buf := (in_buf b)(k := m), buf_size := (buf_size b)(k := buf_size b k + (len - ?p)), cp_size := c, buf_flag := fl\<rparr>)"
    using append_to_appended [of cap b k "len - ?p" ?p buf] assms unfolding xs by auto
  let ?fl = "if file_size g \<le> file_index f + len then (buf_flag b)(k := 2) else buf_flag b"
  let ?b' = "b\<lparr>in_buf := (in_buf b)(k := m), buf_size := (buf_size b)(k := buf_size b k + (len - ?p)),
      cp_size := (if flag = 1 then 0 else cp_size b), buf_flag := ?fl\<rparr>"
  have alive: "alive b" using assms(3) by (simp add: buf_wf_def)
  have st: "store cap k i buf len flag g = Inr (True, 0, (if file_size g \<le> file_index f + len then bump k else id)
      (put_file i (f\<lparr>file_index := file_index f + len, in_buf_info := ?b'\<rparr>) g))"
    using m(1) assms(7) alive by (auto simp: store_def Let_def from_pos_def simp flip: f_def b_def) (simp_all add: b_def f_def)
  show ?thesis
    by (rule exI [of _ ?b']) (use st m(2) in simp)
qed

lemma store_spill:
  fixes g i
  defines "b \<equiv> in_buf_info (get_file g i)"
  assumes "buf_wf cap b" "k < 2" "0 \<le> len" "len \<le> int (length buf)" "cap < buf_size b k + len"
  shows "\<exists>b'. store cap k i buf len flag g = Inr (False, 1, bump k (put_info i b' g))
    \<and> appended cap k (take (nat (cap - buf_size b k)) buf) b b' \<and> buf_size b' k = cap
    \<and> cp_size b' = cap - buf_size b k \<and> buf_flag b' = (buf_flag b)(k := 2)"
proof -
  let ?cp = "cap - buf_size b k"
  have size: "0 \<le> buf_size b k" "buf_size b k \<le> cap" using assms(2,3) by (auto simp: buf_wf_def)
  have wf: "buf_wf cap (b\<lparr>cp_size := ?cp\<rparr>)" using assms(2) by (simp add: buf_wf_def)
  have "contents (b\<lparr>cp_size := ?cp\<rparr>) = contents b" by (rule ext) (simp add: contents_def)
  then have ap: "appended cap k xs (b\<lparr>cp_size := ?cp\<rparr>) b' \<longleftrightarrow> appended cap k xs b b'" for xs b'
    by (simp add: appended_def)
  obtain m where m: "append_to k buf 0 ?cp (b\<lparr>cp_size := ?cp\<rparr>)
      = Inr (b\<lparr>cp_size := ?cp, in_buf := (in_buf b)(k := m), buf_size := (buf_size b)(k := buf_size b k + ?cp)\<rparr>)"
    "\<And>c fl. appended cap k (take (nat ?cp) buf) b
        (b\<lparr>in_buf := (in_buf b)(k := m), buf_size := (buf_size b)(k := buf_size b k + ?cp), cp_size := c, buf_flag := fl\<rparr>)"
    using append_to_appended [OF wf assms(3), of ?cp 0 buf] assms(4-6) size unfolding ap by auto
  let ?b' = "b\<lparr>in_buf := (in_buf b)(k := m), buf_size := (buf_size b)(k := buf_size b k + ?cp), cp_size := ?cp,
      buf_flag := (buf_flag b)(k := 2)\<rparr>"
  have alive: "alive b" using assms(2) by (simp add: buf_wf_def)
  have upd: "b\<lparr>cp_size := c, in_buf := x, buf_size := y\<rparr> = b\<lparr>in_buf := x, buf_size := y, cp_size := c\<rparr>" for c x y
    by simp
  have st: "store cap k i buf len flag g = Inr (False, 1, bump k (put_info i ?b' g))"
    using m(1) assms(6) alive unfolding upd by (simp add: store_def Let_def flip: b_def)
  show ?thesis by (rule exI [of _ ?b']) (use st m(2) in simp)
qed

lemma make_writable_id: "buf_flag b k \<noteq> 0 \<or> buf_flag b (1 - k) = 1 \<Longrightarrow> make_writable cap k b = Inr b"
  by (auto simp: make_writable_def)

lemma rotate_to_1:
  assumes "in_buf_info (get_file g i) = b" "buf_wf cap b" "buf_flag b 0 = 2" "buf_flag b 1 = 0"
  shows "\<exists>b'. rotate_bufs cap i g = Inr (put_info i b' g) \<and> buf_wf cap b' \<and> contents b' 0 = contents b 0
    \<and> contents b' 1 = [] \<and> buf_size b' 0 = buf_size b 0 \<and> buf_size b' 1 = 0 \<and> cp_size b' = cp_size b
    \<and> buf_flag b' 0 = 2 \<and> buf_flag b' 1 = 1"
proof -
  let ?b = "b\<lparr>in_buf := (in_buf b)(1 := replicate (nat cap) 0), buf_flag := (buf_flag b)(1 := 1), buf_size := (buf_size b)(1 := 0)\<rparr>"
  have "make_writable cap 0 b = Inr b" "make_writable cap 1 b = Inr ?b"
    using assms(2-4) by (simp_all add: make_writable_def buf_wf_def)
  moreover have "0 \<le> cap" using assms(2) by (fastforce simp: buf_wf_def)
  ultimately show ?thesis
    using assms by (intro exI [of _ ?b]) (auto simp: rotate_bufs_def buf_wf_def contents_def less_2_cases_iff)
qed

subsection \<open>The loop\<close>

definition active :: "in_file_info \<Rightarrow> nat \<Rightarrow> bool" where
  "active b k \<longleftrightarrow> k < 2 \<and> buf_flag b k = 1 \<and> (k = 1 \<longrightarrow> buf_flag b 0 \<noteq> 1)"

lemma store_step_active:
  "active (in_buf_info (get_file g i)) k \<Longrightarrow> store_step cap i buf len flag g = store cap k i buf len flag g"
  by (auto simp: active_def store_step_def Let_def less_2_cases_iff)

text \<open>The state behind a finished \<open>write_buf\<close> that stored the last bytes into buffer \<open>k\<close>.\<close>

definition stored ::
    "nat \<Rightarrow> nat \<Rightarrow> int \<Rightarrow> in_file_info \<Rightarrow> tGroupFileInfo \<Rightarrow> tGroupFileInfo" where
  "stored k i len b' g =
     (let f = get_file g i
      in (if file_size g \<le> file_index f + len then bump k else id)
           (put_file i (f\<lparr>file_index := file_index f + len, in_buf_info := b'\<rparr>) g))"

lemma body_append:
  fixes g i
  defines "f \<equiv> get_file g i" and "b \<equiv> in_buf_info (get_file g i)"
  assumes "buf_wf cap b" "active b k" "0 \<le> len" "len \<le> int (length buf)" "buf_size b k + len \<le> cap"
    and "0 \<le> from_pos flag b" "from_pos flag b \<le> len"
  shows "\<exists>b'. write_buf_body cap i buf len (flag, g) = Inr (Inr (stored k i len b' g))
    \<and> appended cap k (drop (nat (from_pos flag b)) (take (nat len) buf)) b b'
    \<and> buf_flag b' = (if file_size g \<le> file_index f + len then (buf_flag b)(k := 2) else buf_flag b)"
proof -
  have k: "k < 2" using assms(4) by (simp add: active_def)
  obtain b' where b': "store cap k i buf len flag g = Inr (True, 0, stored k i len b' g)"
      "appended cap k (drop (nat (from_pos flag b)) (take (nat len) buf)) b b'"
      "buf_flag b' = (if file_size g \<le> file_index f + len then (buf_flag b)(k := 2) else buf_flag b)"
    using store_append [of cap g i k len buf flag] assms(3,5-9) k unfolding f_def b_def stored_def Let_def by blast
  have "store_step cap i buf len flag g = Inr (True, 0, stored k i len b' g)"
    using store_step_active [of g i k] assms(4) b'(1) by (simp add: b_def)
  then show ?thesis using b'(2,3) by (intro exI [of _ b']) (simp add: write_buf_body_def)
qed

lemma write_buf_fits:
  fixes g i
  defines "f \<equiv> get_file g i" and "b \<equiv> in_buf_info (get_file g i)"
  assumes "buf_wf cap b" "active b k" "buf_size b k + int (length buf) \<le> cap"
  shows "\<exists>b'. write_buf cap buf (int (length buf)) i g = Some (Inr (stored k i (int (length buf)) b' g))
    \<and> appended cap k buf b b'
    \<and> buf_flag b' = (if file_size g \<le> file_index f + int (length buf) then (buf_flag b)(k := 2) else buf_flag b)"
proof -
  obtain b' where b': "write_buf_body cap i buf (int (length buf)) (0, g) = Inr (Inr (stored k i (int (length buf)) b' g))"
      "appended cap k buf b b'"
      "buf_flag b' = (if file_size g \<le> file_index f + int (length buf) then (buf_flag b)(k := 2) else buf_flag b)"
    using body_append [of cap g i k "int (length buf)" buf 0] assms(3-5) unfolding f_def b_def by (auto simp: from_pos_def)
  then show ?thesis by (auto simp: write_buf_def run_loop_exit)
qed

lemma write_buf_spills:
  fixes g i
  defines "f \<equiv> get_file g i" and "b \<equiv> in_buf_info (get_file g i)"
  assumes "i < length (single_file_array g)" "buf_wf cap b" "buf_flag b 0 = 1" "buf_flag b 1 = 0"
    and "cap < buf_size b 0 + int (length buf)" "int (length buf) \<le> cap"
  shows "\<exists>b'. write_buf cap buf (int (length buf)) i g = Some (Inr (stored 1 i (int (length buf)) b' (bump 0 g)))
    \<and> buf_wf cap b' \<and> contents b' 0 = contents b 0 @ take (nat (cap - buf_size b 0)) buf
    \<and> contents b' 1 = drop (nat (cap - buf_size b 0)) buf
    \<and> buf_flag b' 0 = 2 \<and> buf_flag b' 1 = (if file_size g \<le> file_index f + int (length buf) then 2 else 1)"
proof -
  let ?len = "int (length buf)" and ?cp = "cap - buf_size b 0"
  have size: "0 \<le> ?cp" "?cp \<le> ?len" "0 \<le> buf_size b 0" using assms(4,7) by (auto simp: buf_wf_def)
  obtain b1 where b1: "store cap 0 i buf ?len 0 g = Inr (False, 1, bump 0 (put_info i b1 g))"
      "appended cap 0 (take (nat ?cp) buf) b b1" "cp_size b1 = ?cp" "buf_flag b1 = (buf_flag b)(0 := 2)"
    using store_spill [of cap g i 0 ?len buf 0] assms(4,7) unfolding b_def by auto
  let ?g1 = "bump 0 (put_info i b1 g)"
  have info1: "get_file ?g1 i = f\<lparr>in_buf_info := b1\<rparr>" using assms(3) by (simp add: f_def)
  obtain b2 where b2: "rotate_bufs cap i ?g1 = Inr (put_info i b2 ?g1)" "buf_wf cap b2" "contents b2 0 = contents b1 0"
      "contents b2 1 = []" "buf_size b2 1 = 0" "cp_size b2 = ?cp" "buf_flag b2 0 = 2" "buf_flag b2 1 = 1"
    using rotate_to_1 [of ?g1 i b1 cap] info1 b1(2-4) assms(6) by (auto simp: appended_def)
  let ?g2 = "put_info i b2 ?g1"
  have info2: "get_file ?g2 i = f\<lparr>in_buf_info := b2\<rparr>" using assms(3) info1 by simp
  have act: "active b2 1" using b2(7,8) by (simp add: active_def)
  have pos: "from_pos 1 b2 = ?cp" using b2(6) by (simp add: from_pos_def)
  obtain b3 where b3: "write_buf_body cap i buf ?len (1, ?g2) = Inr (Inr (stored 1 i ?len b3 ?g2))"
      "appended cap 1 (drop (nat ?cp) buf) b2 b3"
      "buf_flag b3 = (if file_size g \<le> file_index f + ?len then (buf_flag b2)(1 := 2) else buf_flag b2)"
    using body_append [of cap ?g2 i 1 ?len buf 1] act b2(2,5) assms(8) size unfolding info2 by (auto simp: pos)
  have "write_buf_body cap i buf ?len (0, g) = Inl (1, ?g2)"
    using store_step_active [of g i 0] b1(1) b2(1) assms(5) by (simp add: write_buf_body_def active_def b_def)
  then have run: "write_buf cap buf ?len i g = Some (Inr (stored 1 i ?len b3 ?g2))"
    using b3(1) by (simp add: write_buf_def run_loop_again run_loop_exit)
  have "stored 1 i ?len b3 ?g2 = stored 1 i ?len b3 (bump 0 g)"
    using info2 by (simp add: stored_def Let_def put_info_def put_file_def bump_def f_def get_file_def)
  moreover have "contents b3 0 = contents b 0 @ take (nat ?cp) buf" "contents b3 1 = drop (nat ?cp) buf" "buf_wf cap b3"
    using b3(2) b2(3,4) b1(2) by (simp_all add: appended_def)
  moreover have "buf_flag b3 0 = 2" "buf_flag b3 1 = (if file_size g \<le> file_index f + ?len then 2 else 1)"
    using b3(3) b2(7,8) by simp_all
  ultimately show ?thesis using run by (intro exI [of _ b3]) simp
qed

lemma body_waits:
  assumes "buf_flag (in_buf_info (get_file g i)) 0 = 2" "buf_flag (in_buf_info (get_file g i)) 1 = 2" "i < length (single_file_array g)"
  shows "write_buf_body cap i buf len (flag, g) = Inl (flag, g)"
proof -
  have "put_info i (in_buf_info (get_file g i)) g = g"
    by (simp add: put_info_def put_file_def get_file_def)
  then show ?thesis
    using assms by (simp add: write_buf_body_def store_step_def rotate_bufs_def make_writable_def Let_def)
qed

subsection \<open>Properties\<close>

text \<open>A file whose buffer \<open>0\<close> is the one to be filled, both buffers empty: the state a receiving thread
  starts with.\<close>

definition fresh_info :: "int \<Rightarrow> in_file_info" where
  "fresh_info cap = \<lparr>in_buf = (\<lambda>k. replicate (nat cap) 0), buf_size = (\<lambda>k. 0), cp_size = 0,
     buf_flag = (\<lambda>k. if k = 0 then 1 else 0), alive = True\<rparr>"

definition fresh_file :: "int \<Rightarrow> single_file_info" where
  "fresh_file cap = \<lparr>in_buf_info = fresh_info cap, fd = 0, file_fd = 0, base = 0, ev_accept = 0, write_state = 0,
     write_index = 0, write_total_size = 0, file_path = zbuf 1024, file_total_size = 0, file_index = 0, write_offset = 0\<rparr>"

definition fresh_group :: "int \<Rightarrow> nat \<Rightarrow> int \<Rightarrow> tGroupFileInfo" where
  "fresh_group cap n sz = \<lparr>single_file_array = replicate n (fresh_file cap), file_size = sz, file_num = int n,
     not_transfer_end_num = to_int32 sz, group_empty = 0, xor_size = 0, buf_full_num = (\<lambda>k. 0), xor_flag = 0, correct_flag = 0\<rparr>"

lemma fresh_wf: "0 \<le> cap \<Longrightarrow> buf_wf cap (fresh_info cap)"
  by (simp add: buf_wf_def fresh_info_def)

lemma fresh_get [simp]: "i < n \<Longrightarrow> get_file (fresh_group cap n sz) i = fresh_file cap"
  by (simp add: fresh_group_def get_file_def)

text \<open>Bytes that fit into the buffer being filled are appended to it and to nothing else; the buffer is
  marked full, and counted as full, exactly when the file has been received completely.\<close>

theorem write_buf_appends:
  assumes "i < length (single_file_array g)" "buf_wf cap (in_buf_info (get_file g i))" "active (in_buf_info (get_file g i)) k"
    and "buf_size (in_buf_info (get_file g i)) k + int (length buf) \<le> cap"
  shows "\<exists>g'. write_buf cap buf (int (length buf)) i g = Some (Inr g')
    \<and> contents (in_buf_info (get_file g' i)) k = contents (in_buf_info (get_file g i)) k @ buf
    \<and> (\<forall>j < 2. j \<noteq> k \<longrightarrow> contents (in_buf_info (get_file g' i)) j = contents (in_buf_info (get_file g i)) j)
    \<and> (\<forall>j. j \<noteq> i \<longrightarrow> get_file g' j = get_file g j)
    \<and> buf_wf cap (in_buf_info (get_file g' i)) \<and> file_index (get_file g' i) = file_index (get_file g i) + int (length buf)
    \<and> (buf_flag (in_buf_info (get_file g' i)) k = 2 \<longleftrightarrow> file_size g \<le> file_index (get_file g' i))
    \<and> buf_full_num g' k = buf_full_num g k + (if file_size g \<le> file_index (get_file g' i) then 1 else 0)"
proof -
  let ?b = "in_buf_info (get_file g i)" and ?len = "int (length buf)"
  obtain b' where b': "write_buf cap buf ?len i g = Some (Inr (stored k i ?len b' g))" "appended cap k buf ?b b'"
      "buf_flag b' = (if file_size g \<le> file_index (get_file g i) + ?len then (buf_flag ?b)(k := 2) else buf_flag ?b)"
    using write_buf_fits [OF assms(2-4)] by blast
  have info: "get_file (stored k i ?len b' g) i = (get_file g i)\<lparr>file_index := file_index (get_file g i) + ?len, in_buf_info := b'\<rparr>"
    using assms(1) by (simp add: stored_def Let_def)
  have other: "j \<noteq> i \<Longrightarrow> get_file (stored k i ?len b' g) j = get_file g j" for j
    by (simp add: stored_def Let_def)
  have num: "buf_full_num (stored k i ?len b' g) k
      = buf_full_num g k + (if file_size g \<le> file_index (get_file g i) + ?len then 1 else 0)"
    by (simp add: stored_def Let_def)
  show ?thesis
    using b' assms(3) by (intro exI [of _ "stored k i ?len b' g"]) (auto simp: info other num appended_def active_def)
qed

theorem write_buf_appends_witness:
  "\<exists>g'. write_buf 8 [1, 2, 3] (int (length [1, 2, 3 :: byte])) 0 (fresh_group 8 2 5) = Some (Inr g')
    \<and> contents (in_buf_info (get_file g' 0)) 0 = [1, 2, 3]"
  using write_buf_appends [of 0 "fresh_group 8 2 5" 8 0 "[1, 2, 3]"] fresh_wf [of 8]
  by (simp add: fresh_file_def active_def contents_def) (auto simp: fresh_group_def fresh_info_def)

text \<open>A chunk that does not fit is split: buffer 0 is filled up to its capacity and counted as full, the
  rest starts buffer 1, and nothing is lost or doubled.\<close>

theorem write_buf_splits:
  assumes "i < length (single_file_array g)" "buf_wf cap (in_buf_info (get_file g i))"
    and "buf_flag (in_buf_info (get_file g i)) 0 = 1" "buf_flag (in_buf_info (get_file g i)) 1 = 0"
    and "cap < buf_size (in_buf_info (get_file g i)) 0 + int (length buf)" "int (length buf) \<le> cap"
  shows "\<exists>g'. write_buf cap buf (int (length buf)) i g = Some (Inr g')
    \<and> contents (in_buf_info (get_file g' i)) 0 @ contents (in_buf_info (get_file g' i)) 1
      = contents (in_buf_info (get_file g i)) 0 @ buf
    \<and> int (length (contents (in_buf_info (get_file g' i)) 0)) = cap
    \<and> buf_flag (in_buf_info (get_file g' i)) 0 = 2 \<and> buf_full_num g' 0 = buf_full_num g 0 + 1
    \<and> file_index (get_file g' i) = file_index (get_file g i) + int (length buf)"
proof -
  let ?b = "in_buf_info (get_file g i)" and ?len = "int (length buf)"
  let ?cp = "nat (cap - buf_size ?b 0)"
  obtain b' where b': "write_buf cap buf ?len i g = Some (Inr (stored 1 i ?len b' (bump 0 g)))" "buf_wf cap b'"
      "contents b' 0 = contents ?b 0 @ take ?cp buf" "contents b' 1 = drop ?cp buf" "buf_flag b' 0 = 2"
    using write_buf_spills [OF assms] by blast
  let ?g' = "stored 1 i ?len b' (bump 0 g)"
  have info: "get_file ?g' i = (get_file g i)\<lparr>file_index := file_index (get_file g i) + ?len, in_buf_info := b'\<rparr>"
    using assms(1) by (simp add: stored_def Let_def)
  have num: "buf_full_num ?g' 0 = buf_full_num g 0 + 1" by (simp add: stored_def Let_def)
  have size: "0 \<le> buf_size ?b 0" "buf_size ?b 0 \<le> cap" using assms(2) by (auto simp: buf_wf_def)
  have "int (length (contents b' 0)) = buf_size ?b 0 + int (length (take ?cp buf))"
    using b'(3) length_contents [OF assms(2), of 0] by simp
  also have "\<dots> = cap" using size assms(5) by simp
  finally show ?thesis using b' num by (intro exI [of _ ?g']) (simp add: info del: One_nat_def)
qed

definition nearly_full :: in_file_info where
  "nearly_full = (fresh_info 2)\<lparr>buf_size := (\<lambda>k. if k = 0 then 2 else 0)\<rparr>"

theorem write_buf_splits_witness:
  "\<exists>g'. write_buf 2 [1] (int (length [1 :: byte])) 0 (put_info 0 nearly_full (fresh_group 2 1 3)) = Some (Inr g')
    \<and> buf_full_num g' 0 = 1"
proof -
  have l: "0 < length (single_file_array (put_info 0 nearly_full (fresh_group 2 1 3)))"
    by (simp add: fresh_group_def)
  have i: "in_buf_info (get_file (put_info 0 nearly_full (fresh_group 2 1 3)) 0) = nearly_full"
    by (simp add: fresh_group_def)
  have w: "buf_wf 2 nearly_full" by (simp add: buf_wf_def nearly_full_def fresh_info_def)
  have f: "buf_flag nearly_full 0 = 1" "buf_flag nearly_full 1 = 0" "buf_size nearly_full 0 = 2"
    by (simp_all add: nearly_full_def fresh_info_def)
  have n: "buf_full_num (fresh_group 2 1 3) 0 = 0" by (simp add: fresh_group_def)
  show ?thesis
    using write_buf_splits [of 0 "put_info 0 nearly_full (fresh_group 2 1 3)" 2 "[1]"] l w f n unfolding i by auto
qed

text \<open>A thread with both buffers full stays in the loop until another thread empties one: alone it never
  returns, whatever it has to store.\<close>

theorem write_buf_waits:
  assumes "i < length (single_file_array g)"
    and "buf_flag (in_buf_info (get_file g i)) 0 = 2" "buf_flag (in_buf_info (get_file g i)) 1 = 2"
  shows "write_buf cap buf len i g = None"
  unfolding write_buf_def
  by (rule run_loop_diverges [where I = "\<lambda>st. st = (0, g)"]) (use body_waits [OF assms(2,3,1)] in auto)

theorem write_buf_waits_witness:
  "write_buf 2 [1] 1 0 (put_info 0 ((fresh_info 2)\<lparr>buf_flag := (\<lambda>_. 2)\<rparr>) (fresh_group 2 1 3)) = None"
  by (rule write_buf_waits) (simp_all add: fresh_group_def get_file_def put_info_def put_file_def)

end
