(* ===== verification/BufXor.thy ===== *)
theory BufXor
  imports WriteBuf Streams
begin

text \<open>
  The consumer side of \<open>src/get_data_client_file_data.cpp\<close>: \<open>buf_xor\<close>, which XORs buffer \<open>k\<close> of all
  files of the group and appends the result to the output file, and \<open>judge_xor_condition\<close>, which
  calls it whenever all threads have reported buffer \<open>k\<close> full.

  \<open>num0\<close> is an \<open>int\<close> in the code and a natural number here: a buffer has 100 MB at most, so it is neither negative nor out
  of range. The array of pointers \<open>in_buf_full[100]\<close> is as long as \<open>in_buf\<close> of the caller, where the model checks the
  number of files; \<open>single_file_array\<close> has 50 entries.

  \<open>buf_xor\<close> is the second provider of the interface \<open>xor_kernel\<close>.
\<close>

subsection \<open>\<open>buf_xor\<close>\<close>

definition info_of :: "tGroupFileInfo \<Rightarrow> nat \<Rightarrow> in_file_info" where
  "info_of g i = in_buf_info (get_file g i)"

text \<open>The word loop over \<open>num0 / 4\<close> words and the byte loop over the bytes that remain.\<close>

definition xor_word_part :: "nat \<Rightarrow> byte list list \<Rightarrow> u32 list" where
  "xor_word_part num0 mem =
     (let ws = map (\<lambda>b. words_of (take (4 * (num0 div 4)) b)) mem in xor_words (num0 div 4) (hd ws) (tl ws))"

definition xor_byte_part :: "nat \<Rightarrow> byte list list \<Rightarrow> byte list" where
  "xor_byte_part num0 mem =
     (let bs = map (\<lambda>b. take (num0 mod 4) (drop (4 * (num0 div 4)) b)) mem in xor_bytes (hd bs) (tl bs))"

definition free_bufs :: "single_file_info \<Rightarrow> single_file_info" where
  "free_bufs f = f\<lparr>in_buf_info := (in_buf_info f)\<lparr>alive := False\<rparr>\<rparr>"

definition free_all :: "nat \<Rightarrow> tGroupFileInfo \<Rightarrow> tGroupFileInfo" where
  "free_all n g = g\<lparr>single_file_array := map free_bufs (take n (single_file_array g)) @ drop n (single_file_array g)\<rparr>"

definition xor_done :: "nat \<Rightarrow> nat \<Rightarrow> tGroupFileInfo \<Rightarrow> tGroupFileInfo" where
  "xor_done n num0 g =
     (let g = g\<lparr>xor_size := xor_size g + int num0\<rparr>
      in if xor_size g = file_size g then free_all n (g\<lparr>xor_flag := 1\<rparr>) else g)"

definition buf_xor ::
    "byte list list \<Rightarrow> nat \<Rightarrow> ostream \<Rightarrow> nat \<Rightarrow> tGroupFileInfo \<Rightarrow> fault + (int \<times> ostream \<times> tGroupFileInfo)" where
  "buf_xor mem n out_fd k g =
     (if n = 0 then Inl Uninitialised
      else
        let num0 = nat (buf_size (info_of g 0) k)
        in if \<not> list_all (\<lambda>i. buf_size (info_of g i) k = buf_size (info_of g 0) k) [1..<n]
           then Inr (-1, out_fd, g\<lparr>correct_flag := -1\<rparr>)
           else if \<not> list_all (\<lambda>i. alive (info_of g i)) [0..<n] then Inl UseAfterFree
           else
             let ws = xor_word_part num0 mem;
                 tail = xor_byte_part num0 mem;
                 memory = bytes_of ws @ tail @ drop num0 (hd mem);
                 g = put_info 0 ((info_of g 0)\<lparr>in_buf := (in_buf (info_of g 0))(k := memory)\<rparr>) g;
                 res = fwrite_words ws out_fd
             in if fst res \<noteq> num0 div 4 then Inr (-1, snd res, g\<lparr>correct_flag := -1\<rparr>)
                else
                  let out_fd = (if num0 mod 4 \<noteq> 0 then snd (fwrite_bytes tail (snd res)) else snd res)
                  in Inr (0, out_fd, xor_done n num0 g))"

subsection \<open>\<open>judge_xor_condition\<close>\<close>

definition reset_flag :: "nat \<Rightarrow> single_file_info \<Rightarrow> single_file_info" where
  "reset_flag k f = f\<lparr>in_buf_info := (in_buf_info f)\<lparr>buf_flag := (buf_flag (in_buf_info f))(k := 0)\<rparr>\<rparr>"

definition reset_num :: "nat \<Rightarrow> tGroupFileInfo \<Rightarrow> tGroupFileInfo" where
  "reset_num k g = g\<lparr>buf_full_num := (buf_full_num g)(k := 0)\<rparr>"

definition reset_flags :: "nat \<Rightarrow> nat \<Rightarrow> tGroupFileInfo \<Rightarrow> tGroupFileInfo" where
  "reset_flags n k g =
     g\<lparr>single_file_array := map (reset_flag k) (take n (single_file_array g)) @ drop n (single_file_array g)\<rparr>"

definition in_bufs :: "tGroupFileInfo \<Rightarrow> nat \<Rightarrow> nat \<Rightarrow> byte list list" where
  "in_bufs g n k = map (\<lambda>i. in_buf (info_of g i) k) [0..<n]"

text \<open>The branch for buffer \<open>k\<close>; \<open>in_buf[100]\<close> is the array of the pointers.\<close>

definition judge_xor :: "nat \<Rightarrow> ostream \<times> tGroupFileInfo \<Rightarrow> fault + (ostream \<times> tGroupFileInfo)" where
  "judge_xor k st =
     (let g = snd st; n = nat (file_num g)
      in if 100 < n then Inl BufferOverflow
         else bindE (buf_xor (in_bufs g n k) n (fst st) k g) (\<lambda>r.
              Inr (fst (snd r), reset_flags n k (reset_num k (snd (snd r))))))"

definition judge_poll :: "ostream \<times> tGroupFileInfo \<Rightarrow> fault + (ostream \<times> tGroupFileInfo)" where
  "judge_poll st =
     (if buf_full_num (snd st) 0 = file_num (snd st) then judge_xor 0 st
      else if buf_full_num (snd st) 1 = file_num (snd st) then judge_xor 1 st
      else Inr st)"

definition judge_verdict :: "tGroupFileInfo \<Rightarrow> int" where
  "judge_verdict g =
     (if correct_flag g \<noteq> 0 then ERROR_CREAT_TRANSMISSION_DATA_CONNECTION
      else if file_size g \<noteq> xor_size g then ERROR_CREAT_TRANSMISSION_DATA_CONNECTION
      else RIGHT)"

definition judge_body ::
    "ostream \<times> tGroupFileInfo \<Rightarrow> (ostream \<times> tGroupFileInfo) + (fault + (int \<times> ostream \<times> tGroupFileInfo))" where
  "judge_body st =
     (case judge_poll st of
        Inl e \<Rightarrow> Inr (Inl e)
      | Inr st \<Rightarrow>
          if xor_flag (snd st) = 0 \<and> correct_flag (snd st) = 0 then Inl st
          else Inr (Inr (judge_verdict (snd st), st)))"

text \<open>The loop while no thread runs: it does not end as long as no buffer is full everywhere.\<close>

definition judge_xor_condition :: "ostream \<Rightarrow> tGroupFileInfo \<Rightarrow> (fault + (int \<times> ostream \<times> tGroupFileInfo)) option" where
  "judge_xor_condition out_fd g = run_loop judge_body (out_fd, g)"

subsection \<open>The two loops compute the parity\<close>

lemma length_xor_word_part:
  assumes "mem \<noteq> []" "\<forall>b \<in> set mem. num0 \<le> length b"
  shows "length (xor_word_part num0 mem) = num0 div 4"
proof -
  have "num0 \<le> length (hd mem)" using assms by (cases mem) auto
  then have "length (take (4 * (num0 div 4)) (hd mem)) = 4 * (num0 div 4)" by simp
  then have "length (words_of (take (4 * (num0 div 4)) (hd mem))) = num0 div 4"
    unfolding length_words_of by simp
  then show ?thesis using assms(1) by (simp add: xor_word_part_def Let_def hd_map)
qed

lemma xor_word_part_parity:
  assumes "mem \<noteq> []" "\<forall>b \<in> set mem. num0 \<le> length b"
  shows "bytes_of (xor_word_part num0 mem) = parity (map (take (4 * (num0 div 4))) mem)"
proof -
  let ?q = "num0 div 4"
  let ?ws = "map (\<lambda>b. words_of (take (4 * ?q) b)) mem"
  have len: "\<forall>b \<in> set mem. length (take (4 * ?q) b) = 4 * ?q"
    using assms(2) by (auto simp: min_def)
  then have sl: "same_length ?q ?ws" by (auto simp: same_length_def length_words_of)
  have ne: "hd ?ws # tl ?ws = ?ws" using assms(1) by (cases mem) simp_all
  have bs: "map bytes_of ?ws = map (take (4 * ?q)) mem"
    using len by (auto simp: bytes_of_words_of)
  have "bytes_of (xor_words ?q (hd ?ws) (tl ?ws)) = parity (map bytes_of ?ws)"
    using bytes_of_xor_words [of ?q "hd ?ws" "tl ?ws"] sl unfolding ne by blast
  then show ?thesis unfolding bs by (simp add: xor_word_part_def Let_def)
qed

lemma xor_byte_part_parity:
  assumes "mem \<noteq> []" "\<forall>b \<in> set mem. num0 \<le> length b"
  shows "xor_byte_part num0 mem = parity (map (\<lambda>b. take (num0 mod 4) (drop (4 * (num0 div 4)) b)) mem)"
proof -
  let ?bs = "map (\<lambda>b. take (num0 mod 4) (drop (4 * (num0 div 4)) b)) mem"
  have q: "4 * (num0 div 4) + num0 mod 4 = num0" by simp
  have len: "same_length (num0 mod 4) ?bs"
    unfolding same_length_def
  proof
    fix f assume "f \<in> set ?bs"
    then obtain b where b: "b \<in> set mem" "f = take (num0 mod 4) (drop (4 * (num0 div 4)) b)" by auto
    have "num0 \<le> length b" using assms(2) b(1) by blast
    then have "num0 mod 4 \<le> length b - 4 * (num0 div 4)" using q by linarith
    then show "length f = num0 mod 4" unfolding b(2) by simp
  qed
  have ne: "hd ?bs # tl ?bs = ?bs" using assms(1) by (cases mem) simp_all
  have "length (hd ?bs) = num0 mod 4" using len ne by (metis same_length_Cons)
  moreover have "same_length (num0 mod 4) (tl ?bs)" using len ne by (metis same_length_Cons)
  ultimately show ?thesis
    using xor_bytes_parity [of "hd ?bs" "tl ?bs"] unfolding ne by (simp add: xor_byte_part_def Let_def)
qed

lemma xor_parts_parity:
  assumes "mem \<noteq> []" "\<forall>b \<in> set mem. num0 \<le> length b"
  shows "bytes_of (xor_word_part num0 mem) @ xor_byte_part num0 mem = parity (map (take num0) mem)"
proof -
  let ?q = "4 * (num0 div 4)"
  have sl: "same_length num0 (map (take num0) mem)" using assms(2) by (auto simp: same_length_def)
  have q: "?q + num0 mod 4 = num0" by simp
  then have t: "map (take ?q) (map (take num0) mem) = map (take ?q) mem" by (simp add: min_def)
  have "num0 - ?q = num0 mod 4" using q by linarith
  then have d: "map (drop ?q) (map (take num0) mem) = map (\<lambda>b. take (num0 mod 4) (drop ?q b)) mem"
    by (simp add: drop_take)
  show ?thesis
    using parity_append_split [of "map (take num0) mem" num0 ?q] assms sl q
      xor_word_part_parity [OF assms] xor_byte_part_parity [OF assms] unfolding t d by simp
qed

text \<open>Buffer \<open>k\<close> of all files ready: allocated, and with \<open>num0\<close> bytes each.\<close>

definition full_bufs :: "tGroupFileInfo \<Rightarrow> nat \<Rightarrow> nat \<Rightarrow> nat \<Rightarrow> bool" where
  "full_bufs g n k num0 \<longleftrightarrow> 0 < n \<and> (\<forall>i < n. alive (info_of g i) \<and> buf_size (info_of g i) k = int num0
     \<and> num0 \<le> length (in_buf (info_of g i) k))"

definition group_contents :: "tGroupFileInfo \<Rightarrow> nat \<Rightarrow> nat \<Rightarrow> byte list list" where
  "group_contents g n k = map (\<lambda>i. contents (info_of g i) k) [0..<n]"

lemma full_bufs_mem:
  assumes "full_bufs g n k num0"
  shows "in_bufs g n k \<noteq> []" "\<forall>b \<in> set (in_bufs g n k). num0 \<le> length b"
    "map (take num0) (in_bufs g n k) = group_contents g n k"
  using assms by (auto simp: full_bufs_def in_bufs_def group_contents_def contents_def)

text \<open>The state of the group behind the word loop: the first buffer holds the result.\<close>

definition xor_memory :: "nat \<Rightarrow> nat \<Rightarrow> nat \<Rightarrow> tGroupFileInfo \<Rightarrow> tGroupFileInfo" where
  "xor_memory n k num0 g =
     put_info 0 ((info_of g 0)\<lparr>in_buf := (in_buf (info_of g 0))(k := bytes_of (xor_word_part num0 (in_bufs g n k))
       @ xor_byte_part num0 (in_bufs g n k) @ drop num0 (hd (in_bufs g n k)))\<rparr>) g"

lemma buf_xor_full:
  assumes "full_bufs g n k num0"
  shows "buf_xor (in_bufs g n k) n out k g =
    (let ws = xor_word_part num0 (in_bufs g n k); tail = xor_byte_part num0 (in_bufs g n k); res = fwrite_words ws out
     in if fst res \<noteq> num0 div 4 then Inr (-1, snd res, (xor_memory n k num0 g)\<lparr>correct_flag := -1\<rparr>)
        else Inr (0, if num0 mod 4 \<noteq> 0 then snd (fwrite_bytes tail (snd res)) else snd res,
               xor_done n num0 (xor_memory n k num0 g)))"
proof -
  have "n \<noteq> 0" "buf_size (info_of g 0) k = int num0"
    "list_all (\<lambda>i. buf_size (info_of g i) k = buf_size (info_of g 0) k) [1..<n]"
    "list_all (\<lambda>i. alive (info_of g i)) [0..<n]"
    using assms by (auto simp: full_bufs_def list_all_iff)
  then show ?thesis by (simp add: buf_xor_def Let_def xor_memory_def)
qed

lemma buf_xor_room:
  assumes "full_bufs g n k num0" "num0 \<le> room out"
  shows "buf_xor (in_bufs g n k) n out k g = Inr (0,
      out\<lparr>written := written out @ parity (group_contents g n k), room := room out - num0\<rparr>,
      xor_done n num0 (xor_memory n k num0 g))"
proof -
  note mem = full_bufs_mem [OF assms(1)]
  let ?m = "in_bufs g n k"
  let ?ws = "xor_word_part num0 ?m" and ?tail = "xor_byte_part num0 ?m"
  have ws: "length ?ws = num0 div 4" using length_xor_word_part [OF mem(1,2)] .
  have q: "4 * (num0 div 4) + num0 mod 4 = num0" by simp
  have par: "bytes_of ?ws @ ?tail = parity (group_contents g n k)"
    using xor_parts_parity [OF mem(1,2)] mem(3) by simp
  have "length (parity (group_contents g n k)) = num0"
    using assms(1) by (auto simp: group_contents_def full_bufs_def contents_def hd_map)
  then have tail: "length ?tail = num0 mod 4" using par ws q
    by (metis add_left_imp_eq length_append length_bytes_of)
  let ?o1 = "out\<lparr>written := written out @ bytes_of ?ws, room := room out - 4 * (num0 div 4)\<rparr>"
  have f1: "fwrite_words ?ws out = (num0 div 4, ?o1)"
    using fwrite_words_fits [of ?ws out] ws assms(2) q by simp
  have f2: "fwrite_bytes ?tail ?o1 = (num0 mod 4, out\<lparr>written := written out @ parity (group_contents g n k), room := room out - num0\<rparr>)"
  proof -
    have "num0 mod 4 \<le> room out - 4 * (num0 div 4)" using assms(2) q by linarith
    then have le: "length ?tail \<le> room ?o1" using tail by simp
    have e: "room out - 4 * (num0 div 4) - num0 mod 4 = room out - num0" using q by linarith
    show ?thesis unfolding fwrite_bytes_fits [OF le] tail by (simp add: e flip: par)
  qed
  have f3: "num0 mod 4 = 0 \<Longrightarrow> ?o1 = out\<lparr>written := written out @ parity (group_contents g n k), room := room out - num0\<rparr>"
    using tail par q by simp
  show ?thesis
    unfolding buf_xor_full [OF assms(1)] Let_def f1 fst_conv snd_conv f2 using f3 by (cases "num0 mod 4 = 0") simp_all
qed

subsection \<open>Frames\<close>

lemma info_put_info [simp]:
  "i < length (single_file_array g) \<Longrightarrow> info_of (put_info i b g) i = b"
  "j \<noteq> i \<Longrightarrow> info_of (put_info i b g) j = info_of g j"
  by (simp_all add: info_of_def)

lemma xor_memory_frame [simp]:
  "file_size (xor_memory n k m g) = file_size g" "file_num (xor_memory n k m g) = file_num g"
  "xor_size (xor_memory n k m g) = xor_size g" "xor_flag (xor_memory n k m g) = xor_flag g"
  "correct_flag (xor_memory n k m g) = correct_flag g" "buf_full_num (xor_memory n k m g) = buf_full_num g"
  "length (single_file_array (xor_memory n k m g)) = length (single_file_array g)"
  by (simp_all add: xor_memory_def)

lemma xor_done_frame [simp]:
  "file_size (xor_done n m g) = file_size g" "file_num (xor_done n m g) = file_num g"
  "xor_size (xor_done n m g) = xor_size g + int m" "correct_flag (xor_done n m g) = correct_flag g"
  "xor_flag (xor_done n m g) = (if xor_size g + int m = file_size g then 1 else xor_flag g)"
  "buf_full_num (xor_done n m g) = buf_full_num g"
  "length (single_file_array (xor_done n m g)) = length (single_file_array g)"
  by (simp_all add: xor_done_def Let_def free_all_def min_def)

lemma reset_frame [simp]:
  "file_size (reset_num k g) = file_size g" "file_num (reset_num k g) = file_num g" "xor_size (reset_num k g) = xor_size g"
  "correct_flag (reset_num k g) = correct_flag g" "xor_flag (reset_num k g) = xor_flag g"
  "single_file_array (reset_num k g) = single_file_array g" "buf_full_num (reset_num k g) = (buf_full_num g)(k := 0)"
  "file_size (reset_flags n k g) = file_size g" "file_num (reset_flags n k g) = file_num g" "xor_size (reset_flags n k g) = xor_size g"
  "correct_flag (reset_flags n k g) = correct_flag g" "xor_flag (reset_flags n k g) = xor_flag g"
  "buf_full_num (reset_flags n k g) = buf_full_num g"
  by (simp_all add: reset_num_def reset_flags_def)

lemma get_reset_num [simp]: "get_file (reset_num k g) i = get_file g i"
  by (simp add: get_file_def)

lemma get_reset_flags:
  "n \<le> length (single_file_array g) \<Longrightarrow>
   get_file (reset_flags n k g) i = (if i < n then reset_flag k (get_file g i) else get_file g i)"
  by (auto simp: get_file_def reset_flags_def nth_append min_def)

lemma get_free_all:
  "n \<le> length (single_file_array g) \<Longrightarrow>
   get_file (free_all n g) i = (if i < n then free_bufs (get_file g i) else get_file g i)"
  by (auto simp: get_file_def free_all_def nth_append min_def)

subsection \<open>The loop over full buffers\<close>

definition after_xor :: "nat \<Rightarrow> nat \<Rightarrow> nat \<Rightarrow> tGroupFileInfo \<Rightarrow> tGroupFileInfo" where
  "after_xor n k m g = reset_flags n k (reset_num k (xor_done n m (xor_memory n k m g)))"

lemma judge_xor_room:
  assumes "full_bufs g n k m" "m \<le> room out" "file_num g = int n" "n \<le> 100"
  shows "judge_xor k (out, g)
    = Inr (out\<lparr>written := written out @ parity (group_contents g n k), room := room out - m\<rparr>, after_xor n k m g)"
  using buf_xor_room [OF assms(1,2)] assms(3,4) by (simp add: judge_xor_def Let_def after_xor_def)

lemma after_xor_frame [simp]:
  "file_size (after_xor n k m g) = file_size g" "file_num (after_xor n k m g) = file_num g"
  "xor_size (after_xor n k m g) = xor_size g + int m" "correct_flag (after_xor n k m g) = correct_flag g"
  "xor_flag (after_xor n k m g) = (if xor_size g + int m = file_size g then 1 else xor_flag g)"
  "buf_full_num (after_xor n k m g) = (buf_full_num g)(k := 0)"
  by (simp_all add: after_xor_def)

lemma judge_all:
  assumes "full_bufs g n 0 m" "m \<le> room out" "file_num g = int n" "n \<le> 100" "buf_full_num g 0 = int n"
    and "correct_flag g = 0" "xor_size g + int m = file_size g"
  shows "judge_xor_condition out g = Some (Inr (RIGHT,
      out\<lparr>written := written out @ parity (group_contents g n 0), room := room out - m\<rparr>, after_xor n 0 m g))"
  using judge_xor_room [OF assms(1-4)] assms(3,5-7)
  by (simp add: judge_xor_condition_def run_loop_exit judge_body_def judge_poll_def judge_verdict_def)

lemma judge_idle:
  assumes "buf_full_num g 0 \<noteq> file_num g" "buf_full_num g 1 \<noteq> file_num g" "xor_flag g = 0" "correct_flag g = 0"
  shows "judge_xor_condition out g = None"
  unfolding judge_xor_condition_def
  by (rule run_loop_diverges [where I = "\<lambda>st. st = (out, g)"])
     (use assms in \<open>auto simp: judge_body_def judge_poll_def\<close>)

subsection \<open>The consumer as an XOR kernel\<close>

definition loaded_file :: "byte list \<Rightarrow> single_file_info" where
  "loaded_file f = (fresh_file 0)\<lparr>in_buf_info := (fresh_info 0)\<lparr>in_buf := (\<lambda>k. f), buf_size := (\<lambda>k. int (length f)),
     buf_flag := (\<lambda>k. if k = 0 then 2 else 0)\<rparr>, file_index := int (length f)\<rparr>"

definition loaded :: "byte list list \<Rightarrow> tGroupFileInfo" where
  "loaded fs = (fresh_group 0 (length fs) (int (length (hd fs))))\<lparr>single_file_array := map loaded_file fs,
     buf_full_num := (\<lambda>k. if k = 0 then int (length fs) else 0)\<rparr>"

definition buf_kernel :: "byte list list \<Rightarrow> byte list" where
  "buf_kernel fs =
     (case judge_xor_condition \<lparr>written = [], room = length (hd fs)\<rparr> (loaded fs) of
        Some (Inr r) \<Rightarrow> if fst r = RIGHT then written (fst (snd r)) else []
      | _ \<Rightarrow> [])"

definition buf_accepts :: "nat \<Rightarrow> byte list list \<Rightarrow> bool" where
  "buf_accepts n fs \<longleftrightarrow> fs \<noteq> [] \<and> length fs \<le> 100 \<and> same_length n fs"

lemma loaded_fields:
  "file_num (loaded fs) = int (length fs)" "file_size (loaded fs) = int (length (hd fs))" "xor_size (loaded fs) = 0"
  "correct_flag (loaded fs) = 0" "xor_flag (loaded fs) = 0" "buf_full_num (loaded fs) 0 = int (length fs)"
  by (simp_all add: loaded_def fresh_group_def)

lemma loaded_info: "i < length fs \<Longrightarrow> info_of (loaded fs) i = in_buf_info (loaded_file (fs ! i))"
  by (simp add: info_of_def get_file_def loaded_def)

lemma loaded_full: "buf_accepts n fs \<Longrightarrow> full_bufs (loaded fs) (length fs) 0 n"
  by (auto simp: full_bufs_def buf_accepts_def loaded_info loaded_file_def fresh_info_def same_length_def)

lemma loaded_contents: "group_contents (loaded fs) (length fs) 0 = fs"
  by (rule nth_equalityI) (simp_all add: group_contents_def loaded_info contents_def loaded_file_def)

lemma judge_loaded:
  assumes "buf_accepts n fs" "n \<le> room out"
  shows "judge_xor_condition out (loaded fs) = Some (Inr (RIGHT,
      out\<lparr>written := written out @ parity fs, room := room out - n\<rparr>, after_xor (length fs) 0 n (loaded fs)))"
proof -
  have "length fs \<le> 100" "length (hd fs) = n" using assms(1) same_length_hd [of fs n] by (simp_all add: buf_accepts_def)
  then show ?thesis
    using judge_all [OF loaded_full [OF assms(1)] assms(2)] by (simp add: loaded_contents loaded_fields)
qed

interpretation buf: xor_kernel buf_kernel buf_accepts
proof unfold_locales
  fix n :: nat and fs :: "byte list list"
  assume a: "buf_accepts n fs"
  then show "fs \<noteq> [] \<and> same_length n fs" by (simp add: buf_accepts_def)
  have "length (hd fs) = n" using a same_length_hd [of fs n] by (simp add: buf_accepts_def)
  then show "buf_kernel fs = parity fs"
    using judge_loaded [OF a, of "\<lparr>written = [], room = n\<rparr>"] by (simp add: buf_kernel_def)
qed

subsection \<open>Properties\<close>

text \<open>C19. \<open>buf_xor\<close> on full buffers of one size appends their parity to the output, adds the size to the
  number of XORed bytes and, when that reaches the size of the files, sets \<open>xor_flag\<close> and frees the
  buffers of all files.\<close>

theorem buf_xor_appends_parity:
  assumes "full_bufs g n k m" "m \<le> room out" "n \<le> length (single_file_array g)"
  shows "\<exists>g'. buf_xor (in_bufs g n k) n out k g = Inr (0,
      out\<lparr>written := written out @ parity (group_contents g n k), room := room out - m\<rparr>, g')
    \<and> xor_size g' = xor_size g + int m
    \<and> (xor_size g' = file_size g \<longrightarrow> xor_flag g' = 1 \<and> (\<forall>i < n. \<not> alive (info_of g' i)))
    \<and> (xor_size g' \<noteq> file_size g \<longrightarrow> xor_flag g' = xor_flag g)"
proof -
  have "xor_size g + int m = file_size g \<Longrightarrow> i < n \<Longrightarrow> \<not> alive (info_of (xor_done n m (xor_memory n k m g)) i)" for i
    using assms(3) by (simp add: xor_done_def Let_def info_of_def get_free_all free_bufs_def)
  then show ?thesis using buf_xor_room [OF assms(1,2)] by simp
qed

theorem buf_xor_appends_parity_witness:
  "\<exists>g'. buf_xor (in_bufs (loaded [[1, 2, 3, 4, 5], [1, 1, 1, 1, 1]]) 2 0) 2 \<lparr>written = [], room = 9\<rparr> 0
        (loaded [[1, 2, 3, 4, 5], [1, 1, 1, 1, 1]])
      = Inr (0, \<lparr>written = [0, 3, 2, 5, 4], room = 4\<rparr>, g') \<and> xor_flag g' = 1"
proof -
  let ?fs = "[[1, 2, 3, 4, 5], [1, 1, 1, 1, 1 :: byte]]"
  have "full_bufs (loaded ?fs) 2 0 5" using loaded_full [of 5 ?fs] by (simp add: buf_accepts_def numeral_2_eq_2)
  moreover have "group_contents (loaded ?fs) 2 0 = ?fs" using loaded_contents [of ?fs] by (simp add: numeral_2_eq_2)
  moreover have "parity ?fs = [0, 3, 2, 5, 4]" by (simp add: parity_def column_def upt_rec)
  moreover have "2 \<le> length (single_file_array (loaded ?fs))" by (simp add: loaded_def)
  ultimately show ?thesis
    using buf_xor_appends_parity [of "loaded ?fs" 2 0 5 "\<lparr>written = [], room = 9\<rparr>"] loaded_fields [of ?fs] by auto
qed

text \<open>The errors of \<open>buf_xor\<close>: buffers of different sizes and words that do not fit on the device set
  \<open>correct_flag\<close>; the write of the last one to three bytes is not checked, and a device that is full
  just there is taken for success.\<close>

theorem buf_xor_errors:
  assumes "full_bufs g n k m"
  shows "(room out < 4 * (m div 4) \<longrightarrow> (\<exists>o' g'. buf_xor (in_bufs g n k) n out k g = Inr (-1, o', g') \<and> correct_flag g' = -1))
    \<and> (4 * (m div 4) \<le> room out \<and> room out < m \<longrightarrow>
        (\<exists>o' g'. buf_xor (in_bufs g n k) n out k g = Inr (0, o', g') \<and> correct_flag g' = correct_flag g
          \<and> xor_size g' = xor_size g + int m \<and> length (written o') = length (written out) + room out))
    \<and> (i < n' \<and> buf_size (info_of g' i) k \<noteq> buf_size (info_of g' 0) k \<longrightarrow>
        buf_xor (in_bufs g' n' k) n' out k g' = Inr (-1, out, g'\<lparr>correct_flag := -1\<rparr>))"
proof (intro conjI impI)
  note mem = full_bufs_mem [OF assms]
  let ?ws = "xor_word_part m (in_bufs g n k)" and ?tail = "xor_byte_part m (in_bufs g n k)"
  have ws: "length ?ws = m div 4" using length_xor_word_part [OF mem(1,2)] .
  {
    assume r: "room out < 4 * (m div 4)"
    then have "fst (fwrite_words ?ws out) \<noteq> m div 4" using fwrite_words_short [of out ?ws] ws by simp
    then show "\<exists>o' g'. buf_xor (in_bufs g n k) n out k g = Inr (-1, o', g') \<and> correct_flag g' = -1"
      unfolding buf_xor_full [OF assms] Let_def by simp
  next
    assume r: "4 * (m div 4) \<le> room out \<and> room out < m"
    let ?o1 = "out\<lparr>written := written out @ bytes_of ?ws, room := room out - 4 * (m div 4)\<rparr>"
    have f1: "fwrite_words ?ws out = (m div 4, ?o1)" using fwrite_words_fits [of ?ws out] ws r by simp
    have q: "4 * (m div 4) + m mod 4 = m" by simp
    then have "m mod 4 \<noteq> 0" using r by linarith
    moreover have "length ?tail = m mod 4"
    proof -
      have "length (bytes_of ?ws @ ?tail) = m"
        using xor_parts_parity [OF mem(1,2)] mem(3) assms
        by (auto simp: group_contents_def full_bufs_def contents_def hd_map)
      then have "4 * (m div 4) + length ?tail = m" using ws by simp
      then show ?thesis using q by linarith
    qed
    moreover have "min (m mod 4) (room out - 4 * (m div 4)) = room out - 4 * (m div 4)" using r q by linarith
    ultimately have "length (written (snd (fwrite_bytes ?tail ?o1))) = length (written out) + room out" "m mod 4 \<noteq> 0"
      using ws r by (simp_all add: fwrite_bytes_def Let_def)
    then show "\<exists>o' g'. buf_xor (in_bufs g n k) n out k g = Inr (0, o', g') \<and> correct_flag g' = correct_flag g
        \<and> xor_size g' = xor_size g + int m \<and> length (written o') = length (written out) + room out"
      unfolding buf_xor_full [OF assms] Let_def f1 by simp
  next
    assume a: "i < n' \<and> buf_size (info_of g' i) k \<noteq> buf_size (info_of g' 0) k"
    then have "0 < i" by (cases i) auto
    then have "\<not> list_all (\<lambda>i. buf_size (info_of g' i) k = buf_size (info_of g' 0) k) [1..<n']"
      using a by (auto simp: list_all_iff)
    then show "buf_xor (in_bufs g' n' k) n' out k g' = Inr (-1, out, g'\<lparr>correct_flag := -1\<rparr>)"
      using a by (auto simp: buf_xor_def)
  }
qed

theorem buf_xor_errors_witness:
  "\<exists>o' g'. buf_xor (in_bufs (loaded [[1, 2, 3, 4, 5]]) 1 0) 1 \<lparr>written = [], room = 4\<rparr> 0 (loaded [[1, 2, 3, 4, 5]]) = Inr (0, o', g')
    \<and> correct_flag g' = 0 \<and> length (written o') = 4"
proof -
  have "full_bufs (loaded [[1, 2, 3, 4, 5]]) 1 0 5" using loaded_full [of 5 "[[1, 2, 3, 4, 5]]"] by (simp add: buf_accepts_def)
  then show ?thesis
    using buf_xor_errors [of "loaded [[1, 2, 3, 4, 5]]" 1 0 5 "\<lparr>written = [], room = 4\<rparr>" 0 0 "loaded []"]
      loaded_fields [of "[[1, 2, 3, 4, 5]]"]
    by auto
qed

text \<open>The consumer of a group whose threads have all filled buffer 0 with the whole file writes the
  parity of the files and answers RIGHT; run again on the parity and the files that are left, it
  gives back the file that is lost.\<close>

theorem judge_xor_condition_recovers:
  assumes "buf_accepts n (as @ f # bs)" "n \<le> room out"
  shows "\<exists>out' g' out'' g''. judge_xor_condition out (loaded (as @ f # bs)) = Some (Inr (RIGHT, out', g'))
    \<and> written out' = written out @ parity (as @ f # bs)
    \<and> judge_xor_condition out (loaded (parity (as @ f # bs) # as @ bs)) = Some (Inr (RIGHT, out'', g''))
    \<and> written out'' = written out @ f"
proof -
  let ?p = "parity (as @ f # bs)"
  have "length ?p = n" using assms(1) by (intro length_parity) (auto simp: buf_accepts_def)
  then have acc: "buf_accepts n (?p # as @ bs)" using assms(1) by (simp add: buf_accepts_def)
  have "buf_kernel (as @ f # bs) = ?p" using buf.kernel_parity [OF assms(1)] .
  then have "buf_kernel (?p # as @ bs) = f" using buf.kernel_recovers [OF assms(1)] acc by simp
  then have "parity (?p # as @ bs) = f" using buf.kernel_parity [OF acc] by simp
  then show ?thesis
    using judge_loaded [OF assms] judge_loaded [OF acc assms(2)] by simp
qed

theorem judge_xor_condition_recovers_witness:
  "\<exists>out' g' out'' g''. judge_xor_condition \<lparr>written = [], room = 9\<rparr> (loaded ([[1, 2]] @ [7, 9] # [])) = Some (Inr (RIGHT, out', g'))
    \<and> written out' = [] @ parity ([[1, 2]] @ [7, 9] # [])
    \<and> judge_xor_condition \<lparr>written = [], room = 9\<rparr> (loaded (parity ([[1, 2]] @ [7, 9] # []) # [[1, 2]] @ [])) = Some (Inr (RIGHT, out'', g''))
    \<and> written out'' = [] @ [7, 9]"
  using judge_xor_condition_recovers [of 2 "[[1, 2]]" "[7, 9]" "[]" "\<lparr>written = [], room = 9\<rparr>"]
  by (simp add: buf_accepts_def)

text \<open>As long as no buffer is full in every file and no thread reports an error, the consumer polls for
  ever; in particular it never gives up when a thread ends without having filled its buffer.\<close>

theorem judge_xor_condition_waits:
  assumes "buf_full_num g 0 \<noteq> file_num g" "buf_full_num g 1 \<noteq> file_num g" "xor_flag g = 0" "correct_flag g = 0"
  shows "judge_xor_condition out g = None"
  using assms by (rule judge_idle)

theorem judge_xor_condition_waits_witness:
  "judge_xor_condition \<lparr>written = [], room = 9\<rparr> (fresh_group 4 2 8) = None"
  by (rule judge_xor_condition_waits) (simp_all add: fresh_group_def)

end
