(* ===== verification/SocketRead.thy ===== *)
theory SocketRead
  imports BufXor FileInfo SendFeedback
begin

text \<open>
  The receiving side of \<open>src/get_data_client_file_data.cpp\<close>: \<open>socket_read_file_data\<close>, the event
  handler of a connection, and \<open>write_buf_data_server\<close>, which sends its replies.

  A connection carries messages: a \<open>CMD_WRITE_T\<close> header with the length of the data and then the data,
  in as many pieces as \<open>recv\<close> delivers. The handler is called once per piece; \<open>write_state\<close>,
  \<open>write_index\<close> and \<open>write_total_size\<close> say how much of the current message has arrived. The result
  lists what the handler did to the connection, and is \<open>None\<close> where a call inside never returns.
\<close>

subsection \<open>\<open>write_buf_data_server\<close>\<close>

definition data_server_iter :: "write_os \<Rightarrow> 'b list \<Rightarrow> 'b wstate \<Rightarrow> 'b wstate + (int \<times> 'b list)" where
  "data_server_iter os buf st =
     (case st of (i, bytes_left, ptr, out) \<Rightarrow>
        if 0 < bytes_left
        then
          let written_bytes = fst (os i bytes_left); errno = snd (os i bytes_left)
          in if written_bytes \<le> 0
             then if errno = EINTR then Inl (Suc i, bytes_left - 0, ptr + 0, out)
                  else if errno = EAGAIN then Inr (0, out)
                  else Inr (- WRITE_EXEC_ERROR, out)
             else Inl (Suc i, bytes_left - written_bytes, ptr + nat written_bytes,
                    out @ take (nat written_bytes) (drop ptr buf))
        else Inr (0, out))"

definition write_buf_data_server :: "write_os \<Rightarrow> 'b list \<Rightarrow> (int \<times> 'b list) option" where
  "write_buf_data_server os buf = run_loop (data_server_iter os buf) (0, int (length buf), 0, [])"

interpretation data_writer: retry_writer data_server_iter
  by unfold_locales (auto simp: data_server_iter_def EINTR_def EAGAIN_def)

text \<open>The operating system takes everything at once.\<close>

definition os_all :: write_os where
  "os_all i n = (n, 0)"

lemma write_all: "write_buf_data_server os_all buf = Some (0, buf)"
proof -
  have z: "data_server_iter os_all buf (0, int (length buf), 0, []) = Inr (0, [])" if "buf = []"
    using that by (simp add: data_server_iter_def)
  show ?thesis
  proof (cases "buf = []")
    case True
    then show ?thesis using z by (simp add: write_buf_data_server_def run_loop_exit)
  next
    case False
    then have "data_server_iter os_all buf (0, int (length buf), 0, []) = Inl (1, 0, length buf, buf)"
      by (simp add: data_server_iter_def os_all_def)
    moreover have "data_server_iter os_all buf (1, 0, length buf, buf) = Inr (0, buf)"
      by (simp add: data_server_iter_def)
    ultimately show ?thesis by (simp add: write_buf_data_server_def run_loop_again run_loop_exit)
  qed
qed

subsection \<open>\<open>socket_read_file_data\<close>\<close>

datatype action =
    Deregister            \<comment> \<open>\<open>event_del\<close>, \<open>event_base_loopexit\<close>, \<open>free (ev_accept)\<close>\<close>
  | CloseSocket
  | Send "byte list"      \<comment> \<open>the bytes of a reply that were written\<close>

datatype received = RecvFailed | Received "byte list"

type_synonym 'a partial = "(fault + 'a) option"

definition bindP :: "'a partial \<Rightarrow> ('a \<Rightarrow> 'b partial) \<Rightarrow> 'b partial" where
  "bindP m f = (case m of None \<Rightarrow> None | Some (Inl e) \<Rightarrow> Some (Inl e) | Some (Inr x) \<Rightarrow> f x)"

lemma bindP_simps [simp]:
  "bindP None f = None" "bindP (Some (Inl e)) f = Some (Inl e)" "bindP (Some (Inr x)) f = f x"
  by (simp_all add: bindP_def)

lemma bindP_Inr_iff: "bindP m f = Some (Inr y) \<longleftrightarrow> (\<exists>x. m = Some (Inr x) \<and> f x = Some (Inr y))"
  by (auto simp: bindP_def split: option.splits sum.splits)
text \<open>\<open>unsigned char buf[MAXLINE] = {0}\<close> behind a \<open>recv\<close>\<close>

definition recv_buf :: "byte list \<Rightarrow> byte list" where
  "recv_buf bytes = bytes @ replicate (MAXLINE - length bytes) 0"

definition send_reply ::
    "write_os \<Rightarrow> CMD_REPLY_WRITE_T \<Rightarrow> tGroupFileInfo \<Rightarrow> (action list \<times> tGroupFileInfo) partial" where
  "send_reply os reply_obj g =
     (case write_buf_data_server os (encode_reply reply_obj) of
        None \<Rightarrow> None
      | Some r \<Rightarrow> Some (Inr ([Send (snd r)], g)))"

definition upd_file :: "nat \<Rightarrow> (single_file_info \<Rightarrow> single_file_info) \<Rightarrow> tGroupFileInfo \<Rightarrow> tGroupFileInfo" where
  "upd_file i u g = put_file i (u (get_file g i)) g"

text \<open>The first piece of a message.\<close>

definition first_piece ::
    "int \<Rightarrow> write_os \<Rightarrow> nat \<Rightarrow> byte list \<Rightarrow> int \<Rightarrow> tGroupFileInfo \<Rightarrow> (action list \<times> tGroupFileInfo) partial" where
  "first_piece cap os i buf ret g =
     (if cmd_of (buf ! 16) = Some CMD_WRITE
      then let cmd_obj = decode_write (take CMD_LEN buf); n = ret - int CMD_LEN
           in if w_data_len cmd_obj \<le> (of_int n :: u64)
              then bindP (GroupState.write_buf cap (drop CMD_LEN buf) n i g) (\<lambda>g.
                   send_reply os (zero_reply\<lparr>rw_reply_value := w_data_len cmd_obj, rw_command := cmd_byte CMD_WRITE\<rparr>)
                     (upd_file i (write_state_update (\<lambda>_. 0)) g))
              else bindP (GroupState.write_buf cap (drop CMD_LEN buf) n i g) (\<lambda>g.
                   Some (Inr ([], upd_file i (\<lambda>f. f\<lparr>write_state := 1, write_index := of_int n,
                     write_total_size := w_data_len cmd_obj\<rparr>) g)))
      else Some (Inr ([], g)))"

definition error_reply :: CMD_REPLY_WRITE_T where
  "error_reply = zero_reply\<lparr>rw_header := zero_header\<lparr>
     ReturnLenHighByte := of_int ((READ_EXEC_ERROR div 256) mod 256), ReturnLenLowByte := of_int (READ_EXEC_ERROR mod 256)\<rparr>\<rparr>"

text \<open>A further piece of a message.\<close>

definition next_piece ::
    "int \<Rightarrow> write_os \<Rightarrow> nat \<Rightarrow> byte list \<Rightarrow> int \<Rightarrow> tGroupFileInfo \<Rightarrow> (action list \<times> tGroupFileInfo) partial" where
  "next_piece cap os i buf ret g =
     (if ret \<le> 0 then send_reply os error_reply (upd_file i (write_state_update (\<lambda>_. 0)) g)
      else bindP (GroupState.write_buf cap buf ret i g) (\<lambda>g.
        let f = get_file g i
        in if write_total_size f \<le> of_int ret + write_index f
           then send_reply os (zero_reply\<lparr>rw_reply_value := write_total_size f, rw_command := cmd_byte CMD_WRITE\<rparr>)
                  (upd_file i (\<lambda>f. f\<lparr>write_index := 0, write_state := 0, write_total_size := 0\<rparr>) g)
           else Some (Inr ([], upd_file i (\<lambda>f. f\<lparr>write_index := write_index f + of_int ret\<rparr>) g))))"

definition socket_read_file_data ::
    "int \<Rightarrow> write_os \<Rightarrow> nat \<Rightarrow> received \<Rightarrow> tGroupFileInfo \<Rightarrow> (action list \<times> tGroupFileInfo) partial" where
  "socket_read_file_data cap os i rcv g =
     (if xor_flag g = 1 \<or> correct_flag g = -1
      then if alive (info_of g i) then Some (Inr ([], upd_file i free_bufs g)) else Some (Inl UseAfterFree)
      else case rcv of
        RecvFailed \<Rightarrow> Some (Inr ([Deregister, CloseSocket], g\<lparr>correct_flag := -1\<rparr>))
      | Received bytes \<Rightarrow>
          if bytes = [] \<and> write_state (get_file g i) = 0 then Some (Inr ([Deregister, CloseSocket], g))
          else if write_state (get_file g i) = 0
          then first_piece cap os i (recv_buf bytes) (int (length bytes)) g
          else next_piece cap os i (recv_buf bytes) (int (length bytes)) g)"

text \<open>The handler called once per piece.\<close>

fun read_pieces ::
    "int \<Rightarrow> write_os \<Rightarrow> nat \<Rightarrow> byte list list \<Rightarrow> tGroupFileInfo \<Rightarrow> (action list \<times> tGroupFileInfo) partial" where
  "read_pieces cap os i [] g = Some (Inr ([], g))"
| "read_pieces cap os i (p # ps) g =
     bindP (socket_read_file_data cap os i (Received p) g) (\<lambda>r.
     bindP (read_pieces cap os i ps (snd r)) (\<lambda>s. Some (Inr (fst r @ fst s, snd s))))"

subsection \<open>Messages in pieces\<close>

text \<open>A connection that is receiving: buffer \<open>k\<close> is the one being filled and nothing has gone wrong.\<close>

definition ready :: "int \<Rightarrow> nat \<Rightarrow> nat \<Rightarrow> tGroupFileInfo \<Rightarrow> bool" where
  "ready cap i k g \<longleftrightarrow> i < length (single_file_array g) \<and> buf_wf cap (info_of g i) \<and> active (info_of g i) k
     \<and> xor_flag g \<noteq> 1 \<and> correct_flag g \<noteq> -1"

text \<open>What \<open>len\<close> bytes \<open>xs\<close> stored into buffer \<open>k\<close> change.\<close>

definition received_into :: "int \<Rightarrow> nat \<Rightarrow> nat \<Rightarrow> byte list \<Rightarrow> tGroupFileInfo \<Rightarrow> tGroupFileInfo \<Rightarrow> bool" where
  "received_into cap i k xs g g' \<longleftrightarrow> i < length (single_file_array g')
     \<and> appended cap k xs (info_of g i) (info_of g' i)
     \<and> file_index (get_file g' i) = file_index (get_file g i) + int (length xs)
     \<and> file_size g' = file_size g \<and> xor_flag g' = xor_flag g \<and> correct_flag g' = correct_flag g
     \<and> (file_index (get_file g' i) < file_size g \<longrightarrow> active (info_of g' i) k)"

lemma write_buf_received:
  assumes "ready cap i k g" "0 \<le> len" "len \<le> int (length buf)" "buf_size (info_of g i) k + len \<le> cap"
  shows "\<exists>g'. GroupState.write_buf cap buf len i g = Some (Inr g') \<and> received_into cap i k (take (nat len) buf) g g'
    \<and> write_index (get_file g' i) = write_index (get_file g i)
    \<and> write_total_size (get_file g' i) = write_total_size (get_file g i)
    \<and> write_state (get_file g' i) = write_state (get_file g i)"
proof -
  obtain b' where b': "write_buf_body cap i buf len (0, g) = Inr (Inr (stored k i len b' g))"
      "appended cap k (take (nat len) buf) (info_of g i) b'"
      "buf_flag b' = (if file_size g \<le> file_index (get_file g i) + len then (buf_flag (info_of g i))(k := 2) else buf_flag (info_of g i))"
    using body_append [of cap g i k len buf 0] assms by (auto simp: ready_def info_of_def from_pos_def)
  have i: "i < length (single_file_array g)" using assms(1) by (simp add: ready_def)
  have info: "get_file (stored k i len b' g) i = (get_file g i)\<lparr>file_index := file_index (get_file g i) + len, in_buf_info := b'\<rparr>"
    using i by (simp add: stored_def Let_def)
  have frame: "file_size (stored k i len b' g) = file_size g" "xor_flag (stored k i len b' g) = xor_flag g"
      "correct_flag (stored k i len b' g) = correct_flag g"
      "length (single_file_array (stored k i len b' g)) = length (single_file_array g)"
    by (simp_all add: stored_def Let_def)
  have "active b' k" if "\<not> file_size g \<le> file_index (get_file g i) + len"
    using assms(1) b'(3) that by (simp add: ready_def active_def)
  moreover have "int (length (take (nat len) buf)) = len" using assms(2,3) by simp
  ultimately have "received_into cap i k (take (nat len) buf) g (stored k i len b' g)"
    using b'(2) i frame info by (auto simp: received_into_def info_of_def)
  then show ?thesis
    using b'(1) info by (intro exI [of _ "stored k i len b' g"]) (simp add: GroupState.write_buf_def run_loop_exit)
qed

lemma received_upd:
  assumes "received_into cap i k xs g g1" "\<And>f. in_buf_info (u f) = in_buf_info f \<and> file_index (u f) = file_index f"
  shows "received_into cap i k xs g (upd_file i u g1)" "get_file (upd_file i u g1) i = u (get_file g1 i)"
proof -
  have i: "i < length (single_file_array g1)" using assms(1) by (simp add: received_into_def)
  then show e: "get_file (upd_file i u g1) i = u (get_file g1 i)" by (simp add: upd_file_def)
  have "info_of (upd_file i u g1) i = info_of g1 i" using e assms(2) by (simp add: info_of_def)
  then show "received_into cap i k xs g (upd_file i u g1)"
    using assms(1) i assms(2) e by (auto simp: received_into_def) (simp_all add: upd_file_def)
qed

lemma received_trans:
  assumes "received_into cap i k xs g g1" "received_into cap i k ys g1 g2"
  shows "received_into cap i k (xs @ ys) g g2"
  using assms by (auto simp: received_into_def appended_def)

lemma received_ready:
  assumes "ready cap i k g" "received_into cap i k xs g g'" "file_index (get_file g' i) < file_size g"
  shows "ready cap i k g'"
  using assms by (auto simp: ready_def received_into_def appended_def)

lemma received_size: "received_into cap i k xs g g' \<Longrightarrow> buf_size (info_of g' i) k = buf_size (info_of g i) k + int (length xs)"
  by (simp add: received_into_def appended_def)

definition done_reply :: "u64 \<Rightarrow> action" where
  "done_reply t = Send (encode_reply (zero_reply\<lparr>rw_reply_value := t, rw_command := cmd_byte CMD_WRITE\<rparr>))"

lemma send_reply_all: "send_reply os_all r g = Some (Inr ([Send (encode_reply r)], g))"
  by (simp add: send_reply_def write_all)

lemma length_recv_buf: "length bs \<le> MAXLINE \<Longrightarrow> length (recv_buf bs) = MAXLINE"
  and take_recv_buf: "take (length bs) (recv_buf bs) = bs"
  by (simp_all add: recv_buf_def)

lemma next_piece_received:
  assumes "ready cap i k g" "write_state (get_file g i) = 1" "p \<noteq> []" "length p \<le> MAXLINE"
    and "buf_size (info_of g i) k + int (length p) \<le> cap"
  shows "\<exists>g'. received_into cap i k p g g'
    \<and> (if write_total_size (get_file g i) \<le> of_nat (length p) + write_index (get_file g i)
       then socket_read_file_data cap os_all i (Received p) g = Some (Inr ([done_reply (write_total_size (get_file g i))], g'))
         \<and> write_state (get_file g' i) = 0
       else socket_read_file_data cap os_all i (Received p) g = Some (Inr ([], g'))
         \<and> write_state (get_file g' i) = write_state (get_file g i)
         \<and> write_index (get_file g' i) = write_index (get_file g i) + of_nat (length p)
         \<and> write_total_size (get_file g' i) = write_total_size (get_file g i))"
proof -
  have len: "int (length p) \<le> int (length (recv_buf p))" using assms(4) by (simp add: length_recv_buf)
  obtain g1 where g1: "GroupState.write_buf cap (recv_buf p) (int (length p)) i g = Some (Inr g1)"
      "received_into cap i k p g g1" "write_index (get_file g1 i) = write_index (get_file g i)"
      "write_total_size (get_file g1 i) = write_total_size (get_file g i)" "write_state (get_file g1 i) = write_state (get_file g i)"
    using write_buf_received [OF assms(1) _ len assms(5)] by (auto simp: take_recv_buf)
  have ok: "\<not> (xor_flag g = 1 \<or> correct_flag g = -1)" using assms(1) by (simp add: ready_def)
  let ?u = "\<lambda>f. f\<lparr>write_index := 0, write_state := 0, write_total_size := 0\<rparr>"
  let ?v = "\<lambda>f. f\<lparr>write_index := write_index f + of_int (int (length p))\<rparr>"
  note u = received_upd [OF g1(2), of ?u] and v = received_upd [OF g1(2), of ?v]
  have run: "socket_read_file_data cap os_all i (Received p) g = next_piece cap os_all i (recv_buf p) (int (length p)) g"
    using ok assms(2,3) by (simp add: socket_read_file_data_def)
  show ?thesis
  proof (cases "write_total_size (get_file g i) \<le> of_nat (length p) + write_index (get_file g i)")
    case True
    then show ?thesis
      using u g1 assms(3) unfolding run by (intro exI [of _ "upd_file i ?u g1"])
        (simp add: next_piece_def Let_def send_reply_all done_reply_def)
  next
    case False
    then show ?thesis
      using v g1 assms(3) unfolding run by (intro exI [of _ "upd_file i ?v g1"]) (simp add: next_piece_def Let_def add.commute)
  qed
qed

lemma more_to_come: "a + l < t \<Longrightarrow> t < 2 ^ 63 \<Longrightarrow> \<not> (of_nat t :: u64) \<le> of_nat l + of_nat a"
  and all_here: "a + l = t \<Longrightarrow> (of_nat t :: u64) \<le> of_nat l + of_nat a"
proof -
  assume a: "a + l < t" "t < 2 ^ 63"
  have "(of_nat l + of_nat a :: u64) = of_nat (a + l)" by simp
  moreover have "\<not> (of_nat t :: u64) \<le> of_nat (a + l)"
  proof -
    have "unat (of_nat (a + l) :: u64) = a + l" "unat (of_nat t :: u64) = t"
      using a by (simp_all add: unat_of_nat take_bit_nat_eq_self del: of_nat_add)
    then show ?thesis using a by (simp only: word_le_nat_alt)
  qed
  ultimately show "\<not> (of_nat t :: u64) \<le> of_nat l + of_nat a" by (simp add: add.commute)
next
  assume "a + l = t"
  then have "(of_nat l + of_nat a :: u64) = of_nat t" by auto
  then show "(of_nat t :: u64) \<le> of_nat l + of_nat a" by simp
qed

lemma next_pieces_received:
  assumes "ready cap i k g" "write_state (get_file g i) = 1" "write_index (get_file g i) = of_nat a"
    and "write_total_size (get_file g i) = of_nat t" "a + length (concat ps) = t" "t < 2 ^ 63" "ps \<noteq> []"
    and "\<forall>p \<in> set ps. p \<noteq> [] \<and> length p \<le> MAXLINE"
    and "buf_size (info_of g i) k + int (length (concat ps)) \<le> cap"
    and "file_index (get_file g i) + int (length (concat ps)) \<le> file_size g"
  shows "\<exists>g'. read_pieces cap os_all i ps g = Some (Inr ([done_reply (of_nat t)], g'))
    \<and> received_into cap i k (concat ps) g g' \<and> write_state (get_file g' i) = 0"
  using assms
proof (induction ps arbitrary: g a)
  case (Cons p ps)
  have p: "p \<noteq> []" "length p \<le> MAXLINE" using Cons.prems(8) by auto
  obtain g1 where g1: "received_into cap i k p g g1"
      "if (of_nat t :: u64) \<le> of_nat (length p) + of_nat a
       then socket_read_file_data cap os_all i (Received p) g = Some (Inr ([done_reply (of_nat t)], g1))
         \<and> write_state (get_file g1 i) = 0
       else socket_read_file_data cap os_all i (Received p) g = Some (Inr ([], g1))
         \<and> write_state (get_file g1 i) = 1 \<and> write_index (get_file g1 i) = of_nat a + of_nat (length p)
         \<and> write_total_size (get_file g1 i) = of_nat t"
    using next_piece_received [OF Cons.prems(1,2) p] Cons.prems(2,3,4,9) by auto
  show ?case
  proof (cases "ps = []")
    case True
    then have "(of_nat t :: u64) \<le> of_nat (length p) + of_nat a" using all_here [of a "length p" t] Cons.prems(5) by simp
    then show ?thesis using g1 True by (intro exI [of _ g1]) simp
  next
    case False
    then obtain q qs where q: "ps = q # qs" by (cases ps) auto
    have "q \<noteq> []" using Cons.prems(8) q by simp
    then have "0 < length q" by blast
    then have pos: "0 < length (concat ps)" using q by (metis add_gr_0 concat.simps(2) length_append)
    have lt: "a + length p < t" using pos Cons.prems(5) by (simp only: concat.simps length_append)
    have "\<not> (of_nat t :: u64) \<le> of_nat (length p) + of_nat a"
      using more_to_come [OF lt Cons.prems(6)] .
    then have r1: "socket_read_file_data cap os_all i (Received p) g = Some (Inr ([], g1))" "write_state (get_file g1 i) = 1"
        "write_index (get_file g1 i) = of_nat (a + length p)" "write_total_size (get_file g1 i) = of_nat t"
      using g1(2) by simp_all
    have fi: "file_index (get_file g1 i) = file_index (get_file g i) + int (length p)" "file_size g1 = file_size g"
      using g1(1) by (simp_all add: received_into_def)
    have "ready cap i k g1"
    proof (rule received_ready [OF Cons.prems(1) g1(1)])
      have "int (length (concat (p # ps))) = int (length p) + int (length (concat ps))" by simp
      moreover have "0 < int (length (concat ps))" using pos by (simp only: of_nat_0_less_iff)
      ultimately show "file_index (get_file g1 i) < file_size g" using fi(1) Cons.prems(10) by linarith
    qed
    moreover have "buf_size (info_of g1 i) k + int (length (concat ps)) \<le> cap"
      using received_size [OF g1(1)] Cons.prems(9) by simp
    ultimately obtain g2 where g2: "read_pieces cap os_all i ps g1 = Some (Inr ([done_reply (of_nat t)], g2))"
        "received_into cap i k (concat ps) g1 g2" "write_state (get_file g2 i) = 0"
      using Cons.IH [of g1 "a + length p"] r1 Cons.prems(5,6,8,10) False fi by auto
    then show ?thesis using r1(1) received_trans [OF g1(1) g2(2)] by (intro exI [of _ g2]) simp
  qed
qed simp

lemma first_piece_received:
  assumes "ready cap i k g" "write_state (get_file g i) = 0" "write_wf m" "w_command m = cmd_byte CMD_WRITE"
    and "CMD_LEN + length d \<le> MAXLINE" "buf_size (info_of g i) k + int (length d) \<le> cap"
  shows "\<exists>g'. received_into cap i k d g g'
    \<and> (if w_data_len m \<le> of_nat (length d)
       then socket_read_file_data cap os_all i (Received (encode_write m @ d)) g = Some (Inr ([done_reply (w_data_len m)], g'))
         \<and> write_state (get_file g' i) = 0
       else socket_read_file_data cap os_all i (Received (encode_write m @ d)) g = Some (Inr ([], g'))
         \<and> write_state (get_file g' i) = 1 \<and> write_index (get_file g' i) = of_nat (length d)
         \<and> write_total_size (get_file g' i) = w_data_len m)"
proof -
  let ?p = "encode_write m @ d"
  have lm: "length (encode_write m) = CMD_LEN" using assms(3) by (rule length_encode_write)
  have ne: "?p \<noteq> []" using lm by (auto simp: CMD_LEN_def)
  have buf: "recv_buf ?p = encode_write m @ d @ replicate (MAXLINE - length ?p) 0" by (simp add: recv_buf_def)
  have drop: "drop CMD_LEN (recv_buf ?p) = d @ replicate (MAXLINE - length ?p) 0" unfolding buf using lm by simp
  have dec: "decode_write (take CMD_LEN (recv_buf ?p)) = m"
    unfolding buf using lm decode_encode_write [OF assms(3), of "[]"] by simp
  have com: "recv_buf ?p ! 16 = cmd_byte CMD_WRITE" unfolding buf using encode_write_command [OF assms(3)] assms(4) by simp
  have n: "int (length ?p) - int CMD_LEN = int (length d)" using lm by simp
  obtain g1 where g1: "GroupState.write_buf cap (drop CMD_LEN (recv_buf ?p)) (int (length d)) i g = Some (Inr g1)"
      "received_into cap i k d g g1"
    using write_buf_received [OF assms(1) _ _ assms(6), of "drop CMD_LEN (recv_buf ?p)"] unfolding drop by auto
  have ok: "\<not> (xor_flag g = 1 \<or> correct_flag g = -1)" using assms(1) by (simp add: ready_def)
  have run: "socket_read_file_data cap os_all i (Received ?p) g = first_piece cap os_all i (recv_buf ?p) (int (length ?p)) g"
    using ok assms(2) ne by (auto simp: socket_read_file_data_def)
  let ?u = "write_state_update (\<lambda>_. 0)"
  let ?v = "\<lambda>f. f\<lparr>write_state := 1, write_index := of_int (int (length d)), write_total_size := w_data_len m\<rparr>"
  note u = received_upd [OF g1(2), of ?u] and v = received_upd [OF g1(2), of ?v]
  show ?thesis
  proof (cases "w_data_len m \<le> of_nat (length d)")
    case True
    then show ?thesis
      using u g1(1) unfolding run first_piece_def com dec n Let_def
      by (intro exI [of _ "upd_file i ?u g1"]) (simp add: send_reply_all done_reply_def)
  next
    case False
    then show ?thesis
      using v g1(1) unfolding run first_piece_def com dec n Let_def
      by (intro exI [of _ "upd_file i ?v g1"]) simp
  qed
qed

text \<open>A write message whose data arrives in any number of pieces behind a first piece with the header.\<close>

lemma message_received:
  assumes "ready cap i k g" "write_state (get_file g i) = 0" "write_wf m" "w_command m = cmd_byte CMD_WRITE"
    and "w_data_len m = of_nat (length (d @ concat ps))" "length (d @ concat ps) < 2 ^ 63"
    and "CMD_LEN + length d \<le> MAXLINE" "\<forall>p \<in> set ps. p \<noteq> [] \<and> length p \<le> MAXLINE"
    and "buf_size (info_of g i) k + int (length (d @ concat ps)) \<le> cap"
    and "file_index (get_file g i) + int (length (d @ concat ps)) \<le> file_size g"
  shows "\<exists>g'. read_pieces cap os_all i ((encode_write m @ d) # ps) g
      = Some (Inr ([done_reply (of_nat (length (d @ concat ps)))], g'))
    \<and> received_into cap i k (d @ concat ps) g g' \<and> write_state (get_file g' i) = 0"
proof -
  have fit: "buf_size (info_of g i) k + int (length d) \<le> cap" using assms(9) by simp
  obtain g1 where g1: "received_into cap i k d g g1"
    "if w_data_len m \<le> of_nat (length d)
     then socket_read_file_data cap os_all i (Received (encode_write m @ d)) g = Some (Inr ([done_reply (w_data_len m)], g1))
       \<and> write_state (get_file g1 i) = 0
     else socket_read_file_data cap os_all i (Received (encode_write m @ d)) g = Some (Inr ([], g1))
       \<and> write_state (get_file g1 i) = 1 \<and> write_index (get_file g1 i) = of_nat (length d)
       \<and> write_total_size (get_file g1 i) = w_data_len m"
    using first_piece_received [OF assms(1-4,7) fit] by blast
  show ?thesis
  proof (cases "ps = []")
    case True
    then have "w_data_len m \<le> of_nat (length d)" using assms(5) by simp
    then show ?thesis using g1 True assms(5) by (intro exI [of _ g1]) simp
  next
    case False
    then obtain q qs where q: "ps = q # qs" by (cases ps) auto
    have "0 < length q" using assms(8) q by simp
    then have pos: "0 < length (concat ps)" using q by (metis add_gr_0 concat.simps(2) length_append)
    have lt: "0 + length d < length (d @ concat ps)" using pos by (simp only: length_append)
    have "\<not> w_data_len m \<le> of_nat (length d)" using more_to_come [OF lt assms(6)] assms(5) by simp
    then have r1: "socket_read_file_data cap os_all i (Received (encode_write m @ d)) g = Some (Inr ([], g1))"
        "write_state (get_file g1 i) = 1" "write_index (get_file g1 i) = of_nat (length d)"
        "write_total_size (get_file g1 i) = of_nat (length (d @ concat ps))"
      using g1(2) assms(5) by simp_all
    have fi: "file_index (get_file g1 i) = file_index (get_file g i) + int (length d)" "file_size g1 = file_size g"
      using g1(1) by (simp_all add: received_into_def)
    have "ready cap i k g1"
    proof (rule received_ready [OF assms(1) g1(1)])
      have "0 < int (length (concat ps))" using pos by (simp only: of_nat_0_less_iff)
      then show "file_index (get_file g1 i) < file_size g" using fi(1) assms(10) unfolding length_append of_nat_add by linarith
    qed
    moreover have "buf_size (info_of g1 i) k + int (length (concat ps)) \<le> cap"
      using received_size [OF g1(1)] assms(9) by simp
    moreover have "length d + length (concat ps) = length (d @ concat ps)"
      and "file_index (get_file g1 i) + int (length (concat ps)) \<le> file_size g1"
      using fi assms(10) by simp_all
    ultimately have "\<exists>g2. read_pieces cap os_all i ps g1 = Some (Inr ([done_reply (of_nat (length (d @ concat ps)))], g2))
        \<and> received_into cap i k (concat ps) g1 g2 \<and> write_state (get_file g2 i) = 0"
      by (intro next_pieces_received [OF _ r1(2,3,4) _ assms(6) False assms(8)])
    then obtain g2 where g2: "read_pieces cap os_all i ps g1 = Some (Inr ([done_reply (of_nat (length (d @ concat ps)))], g2))"
        "received_into cap i k (concat ps) g1 g2" "write_state (get_file g2 i) = 0"
      by blast
    then show ?thesis using r1(1) received_trans [OF g1(1) g2(2)] by (intro exI [of _ g2]) simp
  qed
qed

subsection \<open>Properties\<close>

lemma fresh_ready: "0 \<le> cap \<Longrightarrow> i < n \<Longrightarrow> ready cap i 0 (fresh_group cap n sz)"
  using fresh_wf [of cap] fresh_get [of i n cap sz]
  by (simp add: ready_def info_of_def active_def fresh_file_def)
     (simp add: fresh_group_def fresh_info_def)

lemma fresh_sizes: "i < n \<Longrightarrow> buf_size (info_of (fresh_group cap n sz) i) k = 0"
  "i < n \<Longrightarrow> contents (info_of (fresh_group cap n sz) i) k = []"
  "i < n \<Longrightarrow> file_index (get_file (fresh_group cap n sz) i) = 0" "i < n \<Longrightarrow> write_state (get_file (fresh_group cap n sz) i) = 0"
  by (simp_all add: info_of_def fresh_file_def fresh_info_def contents_def)

lemma fresh_fields: "file_size (fresh_group cap n sz) = sz" "file_num (fresh_group cap n sz) = int n"
  "xor_flag (fresh_group cap n sz) = 0" "correct_flag (fresh_group cap n sz) = 0" "buf_full_num (fresh_group cap n sz) k = 0"
  by (simp_all add: fresh_group_def)

definition sample_message :: "u64 \<Rightarrow> CMD_WRITE_T" where
  "sample_message n = zero_write\<lparr>w_command := 2, w_data_len := n\<rparr>"

lemma sample_message_facts:
  "write_wf (sample_message n)" "w_command (sample_message n) = cmd_byte CMD_WRITE" "w_data_len (sample_message n) = n"
  by (simp_all add: sample_message_def write_wf_def zero_write_def header_wf_def zero_header_def cmd_byte_def)

text \<open>C21. Reassembly: a write message whose data arrives in any number of pieces, the first one with the whole
  header, appends exactly its data to the buffer of the file, is answered with one reply that carries
  its length, and leaves the connection ready for the next message.\<close>

theorem socket_read_reassembles:
  assumes "ready cap i k g" "write_state (get_file g i) = 0" "write_wf m" "w_command m = cmd_byte CMD_WRITE"
    and "w_data_len m = of_nat (length (d @ concat ps))" "length (d @ concat ps) < 2 ^ 63"
    and "CMD_LEN + length d \<le> MAXLINE" "\<forall>p \<in> set ps. p \<noteq> [] \<and> length p \<le> MAXLINE"
    and "buf_size (info_of g i) k + int (length (d @ concat ps)) \<le> cap"
    and "file_index (get_file g i) + int (length (d @ concat ps)) \<le> file_size g"
  shows "\<exists>g'. read_pieces cap os_all i ((encode_write m @ d) # ps) g
      = Some (Inr ([done_reply (of_nat (length (d @ concat ps)))], g'))
    \<and> contents (info_of g' i) k = contents (info_of g i) k @ d @ concat ps
    \<and> file_index (get_file g' i) = file_index (get_file g i) + int (length (d @ concat ps))
    \<and> write_state (get_file g' i) = 0"
  using message_received [OF assms] by (auto simp: received_into_def appended_def)

theorem socket_read_reassembles_witness:
  "\<exists>g'. read_pieces 8 os_all 0 ((encode_write (sample_message 3) @ [7]) # [[8], [9]]) (fresh_group 8 2 5)
      = Some (Inr ([done_reply 3], g')) \<and> contents (info_of g' 0) 0 = [7, 8, 9]"
proof -
  have m: "write_wf (sample_message 3)" "w_command (sample_message 3) = cmd_byte CMD_WRITE" "w_data_len (sample_message 3) = 3"
    by (rule sample_message_facts)+
  show ?thesis
    using socket_read_reassembles [of 8 0 0 "fresh_group 8 2 5" "sample_message 3" "[7]" "[[8], [9]]"] m fresh_ready [of 8 0 2 5]
    by (simp add: fresh_sizes fresh_fields MAXLINE_def CMD_LEN_def del: read_pieces.simps fresh_get) blast
qed

text \<open>Framing is lost when \<open>recv\<close> delivers the end of one message together with what follows: all bytes of
  the piece are stored as file data, the header of the next message among them.\<close>

theorem socket_read_stores_what_follows:
  assumes "ready cap i k g" "write_state (get_file g i) = 0" "write_wf m" "w_command m = cmd_byte CMD_WRITE"
    and "w_data_len m = of_nat (length d)" "length d + length next < 2 ^ 63" "CMD_LEN + length (d @ next) \<le> MAXLINE"
    and "buf_size (info_of g i) k + int (length (d @ next)) \<le> cap"
  shows "\<exists>g'. socket_read_file_data cap os_all i (Received (encode_write m @ d @ next)) g
      = Some (Inr ([done_reply (of_nat (length d))], g'))
    \<and> contents (info_of g' i) k = contents (info_of g i) k @ d @ next \<and> write_state (get_file g' i) = 0"
proof -
  have "(of_nat (length d) :: u64) \<le> of_nat (length (d @ next))"
    using assms(6) by (simp add: word_le_nat_alt unat_of_nat take_bit_nat_eq_self del: of_nat_add)
  then show ?thesis
    using first_piece_received [OF assms(1-4,7,8)] assms(5) by (auto simp: received_into_def appended_def)
qed

theorem socket_read_stores_what_follows_witness:
  "\<exists>g'. socket_read_file_data 2000 os_all 0 (Received (encode_write (sample_message 1) @ [7] @ [0xFF]))
      (fresh_group 2000 2 5) = Some (Inr ([done_reply 1], g')) \<and> contents (info_of g' 0) 0 = [7, 0xFF]"
proof -
  have m: "write_wf (sample_message 1)" "w_command (sample_message 1) = cmd_byte CMD_WRITE" "w_data_len (sample_message 1) = 1"
    by (rule sample_message_facts)+
  show ?thesis
    using socket_read_stores_what_follows [of 2000 0 0 "fresh_group 2000 2 5" "sample_message 1" "[7]" "[0xFF]"] m fresh_ready [of 2000 0 2 5]
    by (simp add: fresh_sizes MAXLINE_def CMD_LEN_def del: fresh_get) blast
qed

text \<open>C36. Bounds: a first piece of a write message that ends inside its header, of 17 to 1064 bytes, crashes the
  program: the number of data bytes is negative and goes to \<open>memcpy\<close> as a length.\<close>

theorem socket_read_short_header_overflows:
  assumes "ready cap i k g" "write_state (get_file g i) = 0" "16 < length p" "length p < CMD_LEN" "cmd_of (p ! 16) = Some CMD_WRITE"
  shows "socket_read_file_data cap os i (Received p) g = Some (Inl BufferOverflow)"
proof -
  let ?n = "int (length p) - int CMD_LEN" and ?buf = "drop CMD_LEN (recv_buf p)"
  have ok: "\<not> (xor_flag g = 1 \<or> correct_flag g = -1)" using assms(1) by (simp add: ready_def)
  have com: "cmd_of (recv_buf p ! 16) = Some CMD_WRITE" using assms(3,5) by (simp add: recv_buf_def nth_append)
  have act: "active (in_buf_info (get_file g i)) k" "alive (in_buf_info (get_file g i))" "buf_size (in_buf_info (get_file g i)) k \<le> cap"
    using assms(1) by (auto simp: ready_def info_of_def buf_wf_def active_def)
  have neg: "?n < 0" using assms(4) by simp
  have "store cap k i ?buf ?n 0 g = Inl BufferOverflow"
    using act neg by (simp add: store_def Let_def append_to_def memcpy_def)
  then have "write_buf_body cap i ?buf ?n (0, g) = Inr (Inl BufferOverflow)"
    using store_step_active [OF act(1)] by (simp add: write_buf_body_def)
  then have "GroupState.write_buf cap ?buf ?n i g = Some (Inl BufferOverflow)"
    by (simp add: GroupState.write_buf_def run_loop_exit)
  then show ?thesis
    using ok assms(2,3) com by (auto simp: socket_read_file_data_def first_piece_def Let_def)
qed

theorem socket_read_short_header_overflows_witness:
  "socket_read_file_data 8 os_all 0 (Received (replicate 16 0 @ [2])) (fresh_group 8 2 5) = Some (Inl BufferOverflow)"
  by (rule socket_read_short_header_overflows [OF fresh_ready])
     (simp_all add: fresh_sizes nth_append CMD_LEN_def cmd_of_def del: fresh_get)

text \<open>Errors of a connection: a failing \<open>recv\<close> sets \<open>correct_flag\<close>, and the consumer then gives up; a connection
  closed between messages is given up silently, and a file that is not complete leaves the consumer
  polling until another connection fails.\<close>

theorem socket_read_closed:
  assumes "xor_flag g = 0" "correct_flag g = 0" "write_state (get_file g i) = 0"
  shows "socket_read_file_data cap os i RecvFailed g = Some (Inr ([Deregister, CloseSocket], g\<lparr>correct_flag := -1\<rparr>))
    \<and> (buf_full_num g 0 \<noteq> file_num g \<and> buf_full_num g 1 \<noteq> file_num g \<longrightarrow>
        judge_xor_condition out (g\<lparr>correct_flag := -1\<rparr>)
          = Some (Inr (ERROR_CREAT_TRANSMISSION_DATA_CONNECTION, out, g\<lparr>correct_flag := -1\<rparr>)))
    \<and> socket_read_file_data cap os i (Received []) g = Some (Inr ([Deregister, CloseSocket], g))
    \<and> (buf_full_num g 0 \<noteq> file_num g \<and> buf_full_num g 1 \<noteq> file_num g \<longrightarrow> judge_xor_condition out g = None)"
proof -
  have "judge_xor_condition out (g\<lparr>correct_flag := -1\<rparr>)
      = Some (Inr (ERROR_CREAT_TRANSMISSION_DATA_CONNECTION, out, g\<lparr>correct_flag := -1\<rparr>))"
    if "buf_full_num g 0 \<noteq> file_num g" "buf_full_num g 1 \<noteq> file_num g"
    unfolding judge_xor_condition_def
    by (rule run_loop_exit) (use that in \<open>simp add: judge_body_def judge_poll_def judge_verdict_def\<close>)
  then show ?thesis using assms judge_idle [of g out] by (simp add: socket_read_file_data_def)
qed

theorem socket_read_closed_witness:
  "socket_read_file_data 8 os_all 0 (Received []) (fresh_group 8 2 5) = Some (Inr ([Deregister, CloseSocket], fresh_group 8 2 5))
    \<and> judge_xor_condition \<lparr>written = [], room = 5\<rparr> (fresh_group 8 2 5) = None"
  using socket_read_closed [of "fresh_group 8 2 5" 0 8 os_all "\<lparr>written = [], room = 5\<rparr>"] fresh_sizes(4) [of 0 2 8 5]
  by (simp add: fresh_group_def)

text \<open>C37. Double free: after the consumer has finished a group with success, the next event on any of its
  connections frees buffers that are already freed.\<close>

theorem socket_read_double_free:
  assumes "buf_accepts n fs" "n \<le> room out" "i < length fs"
  shows "\<exists>out' g'. judge_xor_condition out (loaded fs) = Some (Inr (RIGHT, out', g'))
    \<and> socket_read_file_data cap os i rcv g' = Some (Inl UseAfterFree)"
proof -
  let ?g1 = "xor_done (length fs) n (xor_memory (length fs) 0 n (loaded fs))"
  let ?g = "after_xor (length fs) 0 n (loaded fs)"
  have fs: "fs \<noteq> []" "length (hd fs) = n" using assms(1) same_length_hd [of fs n] by (auto simp: buf_accepts_def)
  have flag: "xor_flag ?g = 1" using fs by (simp add: loaded_fields)
  have len: "length (single_file_array (loaded fs)) = length fs" by (simp add: loaded_def)
  have "\<not> alive (in_buf_info (get_file ?g1 i))"
    using fs assms(3) len by (simp add: xor_done_def Let_def loaded_fields get_free_all free_bufs_def)
  then have "\<not> alive (info_of ?g i)"
    using assms(3) len by (simp add: after_xor_def info_of_def get_reset_flags reset_flag_def)
  then show ?thesis
    using judge_loaded [OF assms(1,2)] flag by (simp add: socket_read_file_data_def)
qed

theorem socket_read_double_free_witness:
  "\<exists>out' g'. judge_xor_condition \<lparr>written = [], room = 5\<rparr> (loaded [[1], [2]]) = Some (Inr (RIGHT, out', g'))
    \<and> socket_read_file_data 8 os_all 0 (Received []) g' = Some (Inl UseAfterFree)"
  by (rule socket_read_double_free [of 1]) (simp_all add: buf_accepts_def)

end
