(* ===== verification/Connect.thy ===== *)
theory Connect
  imports SocketRead
begin

text \<open>
  How the data client of \<open>src/get_data_client_file_data.cpp\<close> sets a group up: \<open>connect_to_server\<close>,
  \<open>communicate_with_server\<close>, \<open>socket_write_header\<close>, the start of the thread of one file
  (\<open>process_in_new_thread_file_num\<close> up to its event loop) and \<open>create_client_connect_data_server\<close>.

  The answers of the system calls are the fields of \<open>net_os\<close>. What is done to sockets is a list of
  \<open>sock_action\<close>s; the sockets opened and never closed can be read off it.
\<close>

definition MAX_CONNECT_SOCKET_NUM :: int where "MAX_CONNECT_SOCKET_NUM = 65536"
definition EINPROGRESS :: int where "EINPROGRESS = 115"
definition FD_SETSIZE :: int where "FD_SETSIZE = 1024"

record net_os =
  setrlimit_ret :: int
  socket_ret :: int
  bind_ret :: int
  inet_aton_ret :: "string \<Rightarrow> int"
  connect_ret :: int
  connect_errno :: int
  select_ret :: int
  write_set :: bool            \<comment> \<open>\<open>FD_ISSET (socket_fd, &wset)\<close> after \<open>select\<close>\<close>
  send_ret :: int

datatype sock_action =
    Opened int
  | Closed int
  | NonBlocking int
  | Blocking int
  | ConnectTo int string "16 word"
  | SendTo int "byte list"

subsection \<open>\<open>setnonblocking\<close>\<close>

definition O_NONBLOCK :: u32 where "O_NONBLOCK = 0x800"

text \<open>\<open>F_GETFD\<close> reads the descriptor flags, not the status flags: what was set among the status flags is
  lost. The arguments are the descriptor flags and the answer of the second \<open>fcntl\<close>.\<close>

definition setnonblocking :: "u32 \<Rightarrow> int \<Rightarrow> int \<times> u32" where
  "setnonblocking fd_flags setfl_ret = (if setfl_ret = -1 then -1 else 0, fd_flags OR O_NONBLOCK)"

subsection \<open>\<open>connect_to_server\<close>\<close>

text \<open>The result: return value, \<open>socket_fd\<close>, actions. \<open>FD_SET\<close> on a descriptor that does not fit an \<open>fd_set\<close> writes
  behind it; the limit the function sets itself lets descriptors become that large.\<close>

definition connect_to_server ::
    "net_os \<Rightarrow> tDataServerInfo \<Rightarrow> int \<Rightarrow> fault + (int \<times> int \<times> sock_action list)" where
  "connect_to_server os server fd0 =
     (if setrlimit_ret os = -1 then Inr (- CONNECTSERVERFAILED, fd0, [])
      else
        let s = socket_ret os
        in if s < 0 then Inr (- CONNECTSERVERFAILED, s, [])
           else if bind_ret os \<noteq> 0 then Inr (- CONNECTSERVERFAILED, s, [Opened s, Closed s])
           else bindE (read_cstr (data_server_ip server)) (\<lambda>ip.
             if inet_aton_ret os ip = 0 then Inr (- CONNECTSERVERFAILED, s, [Opened s, Closed s])
             else bindE (read_cstr (data_server_port server)) (\<lambda>port.
               let acts = [Opened s, NonBlocking s, ConnectTo s ip (of_int (atoi port))]
               in if connect_ret os \<noteq> 0
                  then if connect_errno os \<noteq> EINPROGRESS then Inr (- CONNECTSERVERFAILED, s, acts @ [Closed s])
                       else if FD_SETSIZE \<le> s then Inl BufferOverflow
                       else if select_ret os < 0 then Inr (- CONNECTSERVERFAILED, s, acts @ [Closed s])
                       else if select_ret os = 0 then Inr (- CONNECTSERVERFAILED, s, acts @ [Closed s])
                       else if select_ret os = 1
                       then if write_set os then Inr (0, s, acts @ [Blocking s])
                            else Inr (- CONNECTSERVERFAILED, s, acts @ [Closed s])
                       else Inr (0, s, acts)
                  else Inr (0, s, acts))))"

subsection \<open>\<open>communicate_with_server\<close> and \<open>socket_write_header\<close>\<close>

text \<open>The reply is never received (that part is under \<open>#if 0\<close>): \<open>read_buff\<close> stays as it was.\<close>

definition communicate_with_server :: "net_os \<Rightarrow> int \<Rightarrow> byte list \<Rightarrow> int \<times> sock_action list" where
  "communicate_with_server os sfd buf =
     (let send_real_len = send_ret os
      in if send_real_len < 0 then (- CONNECTSERVERFAILED, [])
         else (0, [SendTo sfd (take (nat send_real_len) buf)]))"

definition byte_of :: "char \<Rightarrow> byte" where
  "byte_of c = of_nat (of_char c)"

definition file_header :: "cbuf \<Rightarrow> CMD_WRITE_T" where
  "file_header name = zero_write\<lparr>w_header := zero_header\<lparr>synCode := replicate 8 0xFF\<rparr>, w_file_name := map byte_of name\<rparr>"

definition socket_write_header :: "net_os \<Rightarrow> int \<Rightarrow> cbuf \<Rightarrow> fault + (int \<times> sock_action list)" where
  "socket_write_header os sfd path =
     bindE (read_cstr path) (\<lambda>p. bindE (strcpy (zbuf 1024) p) (\<lambda>name.
       let r = communicate_with_server os sfd (encode_write (file_header name));
           return_obj = zero_reply;
           error_code = uint (ReturnLenHighByte (rw_header return_obj)) * 256 + uint (ReturnLenLowByte (rw_header return_obj))
       in if fst r < 0 then Inr r
          else if error_code \<noteq> 0 then Inr (- error_code, snd r)
          else if rw_reply_value return_obj \<noteq> 0 then Inr (- uint (rw_reply_value return_obj), snd r)
          else Inr (0, snd r)))"

subsection \<open>The thread of a file\<close>

text \<open>\<open>int s_sub = *(long *)arg\<close>: eight bytes are read where \<open>malloc (sizeof (int))\<close> reserved four.\<close>

definition read_arg :: "byte list \<Rightarrow> byte list \<Rightarrow> int" where
  "read_arg reserved beyond = sint (ucast (u64_of (reserved @ beyond)) :: u32)"

record thread_os =
  first_socket :: int
  net :: net_os
  malloc0 :: bool
  malloc1 :: bool
  memory :: "nat \<Rightarrow> byte list"     \<comment> \<open>what the allocated memory holds\<close>
  new_event :: nat
  new_base :: nat

definition fail_group :: "tGroupFileInfo \<Rightarrow> tGroupFileInfo" where
  "fail_group g = g\<lparr>correct_flag := -1\<rparr>"

text \<open>\<open>Some fd\<close>: the event loop of this connection is entered.\<close>

definition thread_start ::
    "thread_os \<Rightarrow> tDataServerInfo \<Rightarrow> nat \<Rightarrow> tGroupFileInfo \<Rightarrow> fault + (int option \<times> sock_action list \<times> tGroupFileInfo)" where
  "thread_start os server i g =
     (if first_socket os = -1 then Inr (None, [], fail_group g)
      else bindE (connect_to_server (net os) server (first_socket os)) (\<lambda>c.
        let acts = Opened (first_socket os) # snd (snd c); sock_fd = fst (snd c)
        in if fst c \<noteq> 0 then Inr (None, acts, fail_group g)
           else bindE (socket_write_header (net os) sock_fd (file_path (get_file g i))) (\<lambda>h.
             let acts = acts @ snd h
             in if fst h \<noteq> 0 then Inr (None, acts @ [Closed sock_fd], fail_group g)
                else if \<not> malloc0 os \<or> correct_flag g = -1 then Inr (None, acts, g)
                else if \<not> malloc1 os \<or> correct_flag g = -1 then Inr (None, acts, g)
                else
                  let f = get_file g i; b = in_buf_info f
                  in Inr (Some sock_fd, acts, put_file i (f\<lparr>fd := sock_fd, ev_accept := new_event os, base := new_base os, in_buf_info := b\<lparr>
                       in_buf := memory os, alive := True,
                       buf_flag := (buf_flag b)(0 := 1, 1 := 0)\<rparr>\<rparr>) g))))"

subsection \<open>\<open>create_client_connect_data_server\<close>\<close>

definition zero_info :: in_file_info where
  "zero_info = \<lparr>in_buf = (\<lambda>k. []), buf_size = (\<lambda>k. 0), cp_size = 0, buf_flag = (\<lambda>k. 0), alive = False\<rparr>"

definition zero_file :: single_file_info where
  "zero_file = \<lparr>in_buf_info = zero_info, fd = 0, file_fd = 0, base = 0, ev_accept = 0, write_state = 0,
     write_index = 0, write_total_size = 0, file_path = zbuf 1024, file_total_size = 0, file_index = 0, write_offset = 0\<rparr>"

definition zero_group :: tGroupFileInfo where
  "zero_group = \<lparr>single_file_array = replicate 50 zero_file, file_size = 0, file_num = 0, not_transfer_end_num = 0, group_empty = 0,
     xor_size = 0, buf_full_num = (\<lambda>k. 0), xor_flag = 0, correct_flag = 0\<rparr>"

fun copy_names :: "nat \<Rightarrow> string list \<Rightarrow> tGroupFileInfo \<Rightarrow> fault + tGroupFileInfo" where
  "copy_names i [] g = Inr g"
| "copy_names i (p # ps) g =
     (if length (single_file_array g) \<le> i then Inl BufferOverflow
      else bindE (strcpy (file_path (get_file g i)) p) (\<lambda>b.
        copy_names (Suc i) ps (put_file i ((get_file g i)\<lparr>file_path := b\<rparr>) g)))"

definition group_init :: "int \<Rightarrow> string list \<Rightarrow> fault + tGroupFileInfo" where
  "group_init fsize paths =
     bindE (copy_names 0 paths zero_group) (\<lambda>g.
     Inr (g\<lparr>file_size := fsize, file_num := int (length paths), not_transfer_end_num := to_int32 fsize\<rparr>))"

record create_os =
  fopen_out :: "string \<Rightarrow> ostream option"
  malloc_arg :: "nat \<Rightarrow> bool"
  pthread_create_ret :: "nat \<Rightarrow> int"

datatype group_action = StreamOpened | StreamClosed | ThreadStarted nat

text \<open>The threads, one per file: \<open>None\<close> where all of them run.\<close>

fun start_threads :: "create_os \<Rightarrow> nat list \<Rightarrow> tGroupFileInfo \<Rightarrow> group_action list \<times> tGroupFileInfo \<times> int option" where
  "start_threads os [] g = ([], g, None)"
| "start_threads os (i # is') g =
     (if \<not> malloc_arg os i then ([], g, Some ERROR_CREAT_TRANSMISSION_DATA_CONNECTION)
      else if pthread_create_ret os i \<noteq> 0 then ([], fail_group g, Some ERROR_CREAT_TRANSMISSION_DATA_CONNECTION)
      else let r = start_threads os is' g in (ThreadStarted i # fst r, snd r))"

text \<open>\<open>judge\<close> is \<open>judge_xor_condition\<close> running beside the threads.\<close>

definition create_client_connect_data_server ::
    "create_os \<Rightarrow> (ostream \<Rightarrow> tGroupFileInfo \<Rightarrow> (int \<times> ostream \<times> tGroupFileInfo) partial)
      \<Rightarrow> int \<Rightarrow> string list \<Rightarrow> string \<Rightarrow> (int \<times> group_action list \<times> tGroupFileInfo) partial" where
  "create_client_connect_data_server os judge fsize paths output_file_name =
     bindP (Some (group_init fsize paths)) (\<lambda>g.
     bindP (Some (bindE (snprintf (zbuf 1024) 1024 (''/home/file/'' @ output_file_name)) read_cstr)) (\<lambda>tmp.
     case fopen_out os tmp of
       None \<Rightarrow> Some (Inr (ERROR_CREAT_TRANSMISSION_DATA_CONNECTION, [], g))
     | Some out_fd \<Rightarrow>
         let r = start_threads os [0..<length paths] g; acts = StreamOpened # fst r; g = fst (snd r)
         in (case snd (snd r) of
               Some err \<Rightarrow> Some (Inr (err, acts, g))
             | None \<Rightarrow> bindP (judge out_fd g) (\<lambda>j. Some (Inr (fst j, acts @ [StreamClosed], snd (snd j)))))))"

subsection \<open>Properties\<close>

definition connected :: "net_os \<Rightarrow> string \<Rightarrow> bool" where
  "connected os ip \<longleftrightarrow> setrlimit_ret os \<noteq> -1 \<and> 0 \<le> socket_ret os \<and> bind_ret os = 0 \<and> inet_aton_ret os ip \<noteq> 0
     \<and> (connect_ret os = 0 \<or> (connect_errno os = EINPROGRESS \<and> socket_ret os < FD_SETSIZE \<and> (1 < select_ret os \<or> (select_ret os = 1 \<and> write_set os))))"

text \<open>Connecting to the data server answers 0 exactly if the socket could be made and bound, the address is
  one, and \<open>connect\<close> succeeded or \<open>select\<close> reported the socket; on every other path the answer is
  -CONNECTSERVERFAILED and the socket that was opened is closed again.\<close>

theorem connect_to_server_verdict:
  assumes "holds (data_server_ip server) 32 ip" "holds (data_server_port server) 16 port" "socket_ret os < FD_SETSIZE"
  shows "\<exists>ret s acts. connect_to_server os server fd0 = Inr (ret, s, acts)
    \<and> ret = (if connected os ip then 0 else - CONNECTSERVERFAILED)
    \<and> (if connected os ip then Opened s \<in> set acts \<and> Closed s \<notin> set acts \<and> ConnectTo s ip (of_int (atoi port)) \<in> set acts
       else (\<forall>x. Opened x \<in> set acts \<longrightarrow> Closed x \<in> set acts))"
  using assms(1,2) [THEN holds_read] assms(3)
  by (auto simp: connect_to_server_def connected_def Let_def codes split: if_splits)

definition good_net :: net_os where
  "good_net = \<lparr>setrlimit_ret = 0, socket_ret = 7, bind_ret = 0, inet_aton_ret = (\<lambda>_. 1), connect_ret = -1,
     connect_errno = 115, select_ret = 1, write_set = True, send_ret = 1065\<rparr>"

theorem connect_to_server_verdict_witness:
  "\<exists>acts. connect_to_server good_net no_data_server 3 = Inr (0, 7, acts) \<and> Closed 7 \<notin> set acts"
  using connect_to_server_verdict [of no_data_server "''''" "''''" good_net 3] no_server_empty
  by (auto simp: no_data_server_def good_net_def connected_def EINPROGRESS_def FD_SETSIZE_def connect_to_server_def Let_def split: if_splits)

text \<open>A refused connection passes for an established one: \<open>select\<close> then reports the socket as readable and
  writable, 2, which no branch tests, so the function answers 0 and leaves the socket non-blocking.\<close>

theorem connect_to_server_refused:
  assumes "setrlimit_ret os \<noteq> -1" "0 \<le> socket_ret os" "bind_ret os = 0" "inet_aton_ret os ip \<noteq> 0"
    and "holds (data_server_ip server) 32 ip" "holds (data_server_port server) 16 port"
    and "connect_ret os = -1" "connect_errno os = EINPROGRESS" "select_ret os = 2" "socket_ret os < FD_SETSIZE"
  shows "\<exists>acts. connect_to_server os server fd0 = Inr (0, socket_ret os, acts)
    \<and> NonBlocking (socket_ret os) \<in> set acts \<and> Blocking (socket_ret os) \<notin> set acts"
  using assms(1-4,7-10) assms(5,6) [THEN holds_read] by (simp add: connect_to_server_def Let_def)

theorem connect_to_server_refused_witness:
  "\<exists>acts. connect_to_server (good_net\<lparr>select_ret := 2\<rparr>) no_data_server 3 = Inr (0, 7, acts) \<and> Blocking 7 \<notin> set acts"
  using connect_to_server_refused [of "good_net\<lparr>select_ret := 2\<rparr>" "''''" no_data_server "''''" 3] no_server_empty
  by (auto simp: no_data_server_def good_net_def EINPROGRESS_def FD_SETSIZE_def)

text \<open>With so many descriptors open that the new socket is number 1024 or more, which the function allows by raising
  the limit to 65536, a connection that is not made at once writes behind the two \<open>fd_set\<close>s.\<close>

theorem connect_to_server_overflows:
  assumes "setrlimit_ret os \<noteq> -1" "FD_SETSIZE \<le> socket_ret os" "socket_ret os < MAX_CONNECT_SOCKET_NUM" "bind_ret os = 0"
    and "inet_aton_ret os ip \<noteq> 0" "holds (data_server_ip server) 32 ip" "holds (data_server_port server) 16 port"
    and "connect_ret os = -1" "connect_errno os = EINPROGRESS"
  shows "connect_to_server os server fd0 = Inl BufferOverflow"
  using assms(1-5,8,9) assms(6,7) [THEN holds_read] by (simp add: connect_to_server_def Let_def FD_SETSIZE_def)

theorem connect_to_server_overflows_witness:
  "connect_to_server (good_net\<lparr>socket_ret := 1024\<rparr>) no_data_server 3 = Inl BufferOverflow"
  by (rule connect_to_server_overflows [of _ "''''" _ "''''"])
     (use no_server_empty in \<open>simp_all add: no_data_server_def good_net_def EINPROGRESS_def FD_SETSIZE_def MAX_CONNECT_SOCKET_NUM_def\<close>)

lemma byte_of_inj: "byte_of c = byte_of d \<Longrightarrow> c = d"
proof -
  assume a: "byte_of c = byte_of d"
  have "unat (byte_of e) = of_char e" for e :: char
    by (simp add: byte_of_def unat_of_nat take_bit_nat_eq_self)
  then have "(of_char c :: nat) = of_char d" using a by metis
  then show "c = d" by simp
qed

lemma file_header_wf: "length name = 1024 \<Longrightarrow> write_wf (file_header name)"
  by (simp add: file_header_def write_wf_def zero_write_def header_wf_def zero_header_def)

text \<open>The header of a file: the data server is sent one write message with the path of the file, command 0,
  offset 0 and no data; the answer is 0 exactly if \<open>send\<close> did not fail, as no reply is read.\<close>

theorem socket_write_header_sends:
  assumes "holds path 1024 p"
  shows "\<exists>name. holds name 1024 p \<and> decode_write (encode_write (file_header name)) = file_header name
    \<and> socket_write_header os sfd path =
      (if send_ret os < 0 then Inr (- CONNECTSERVERFAILED, [])
       else Inr (0, [SendTo sfd (take (nat (send_ret os)) (encode_write (file_header name)))]))"
proof -
  have p: "NUL \<notin> set p" "length p < 1024" using holds_NUL [OF assms] holds_length [OF assms] by auto
  obtain name where name: "strcpy (zbuf 1024) p = Inr name" "holds name 1024 p"
    using strcpy_holds [of "zbuf 1024" 1024 p] p by auto
  then have "length name = 1024" by (simp add: holds_def)
  then have "decode_write (encode_write (file_header name)) = file_header name"
    using decode_encode_write [OF file_header_wf, of name "[]"] by simp
  then show ?thesis
    using name holds_read [OF assms]
    by (intro exI [of _ name]) (simp add: socket_write_header_def communicate_with_server_def Let_def zero_reply_def zero_header_def codes)
qed

theorem socket_write_header_sends_witness:
  "\<exists>name. socket_write_header good_net 7 (zbuf 1024) = Inr (0, [SendTo 7 (take 1065 (encode_write (file_header name)))])"
proof -
  have "holds (zbuf 1024) 1024 ''''" by (rule holds_zbuf) simp
  from socket_write_header_sends [OF this, of good_net 7] show ?thesis by (auto simp: good_net_def)
qed

text \<open>The index of the file reaches the thread: the eight bytes read from the four reserved ones, cut down
  to an \<open>int\<close>, are the index that was stored, whatever lies behind them.\<close>

theorem read_arg_index:
  assumes "length beyond = 4"
  shows "read_arg (le_bytes (of_nat i :: u32)) beyond = sint (of_nat i :: u32)"
proof -
  let ?w = "of_nat i :: u32"
  have b: "le_bytes (u32_of beyond) = beyond" using le_bytes_u32_of [OF assms] .
  have "le64 (ucast ?w OR push_bit 32 (ucast (u32_of beyond)) :: u64) = le_bytes ?w @ beyond"
    by (simp only: le64_def u64_low u64_high b)
  then have "u64_of (le_bytes ?w @ beyond) = ucast ?w OR push_bit 32 (ucast (u32_of beyond))"
    using u64_of_le64 by metis
  then show ?thesis by (simp only: read_arg_def u64_low)
qed

theorem read_arg_index_witness:
  "read_arg (le_bytes (of_nat 3 :: u32)) [0xFF, 0xFF, 0xFF, 0xFF] = 3"
  using read_arg_index [of "[0xFF, 0xFF, 0xFF, 0xFF]" 3] by simp

text \<open>A group slot that has just been cleared.\<close>

definition cleared :: "tGroupFileInfo \<Rightarrow> nat \<Rightarrow> bool" where
  "cleared g i \<longleftrightarrow> i < length (single_file_array g) \<and> (\<forall>k. buf_size (info_of g i) k = 0)"

lemma connect_to_server_connected:
  assumes "holds (data_server_ip server) 32 ip" "holds (data_server_port server) 16 port" "connected os ip"
  shows "\<exists>acts. connect_to_server os server fd0 = Inr (0, socket_ret os, acts) \<and> Closed x \<notin> set acts"
  using assms(3) assms(1,2) [THEN holds_read]
  by (auto simp: connect_to_server_def connected_def Let_def)

text \<open>The file behind the start of its thread.\<close>

definition set_up :: "thread_os \<Rightarrow> single_file_info \<Rightarrow> single_file_info" where
  "set_up os f = f\<lparr>fd := socket_ret (net os), ev_accept := new_event os, base := new_base os, in_buf_info := (in_buf_info f)\<lparr>
     in_buf := memory os, alive := True, buf_flag := (buf_flag (in_buf_info f))(0 := 1, 1 := 0)\<rparr>\<rparr>"

lemma thread_start_sets_up:
  assumes "holds (data_server_ip server) 32 ip" "holds (data_server_port server) 16 port" "connected (net os) ip"
    and "holds (file_path (get_file g i)) 1024 p" "0 \<le> send_ret (net os)" "0 \<le> first_socket os" "malloc0 os" "malloc1 os" "correct_flag g = 0"
  shows "\<exists>acts. thread_start os server i g = Inr (Some (socket_ret (net os)), Opened (first_socket os) # acts, put_file i (set_up os (get_file g i)) g)
    \<and> (first_socket os \<noteq> socket_ret (net os) \<longrightarrow> Closed (first_socket os) \<notin> set acts)"
proof -
  obtain acts where c: "connect_to_server (net os) server (first_socket os) = Inr (0, socket_ret (net os), acts)"
      "Closed (first_socket os) \<notin> set acts"
    using connect_to_server_connected [OF assms(1-3)] by blast
  have p: "NUL \<notin> set p" "length p < 1024" using holds_NUL [OF assms(4)] holds_length [OF assms(4)] by auto
  obtain name where "strcpy (zbuf 1024) p = Inr name" using strcpy_holds [of "zbuf 1024" 1024 p] p by auto
  then obtain buf where h: "socket_write_header (net os) (socket_ret (net os)) (file_path (get_file g i)) = Inr (0, [SendTo (socket_ret (net os)) buf])"
    using holds_read [OF assms(4)] assms(5)
    by (simp add: socket_write_header_def communicate_with_server_def Let_def zero_reply_def zero_header_def)
  have "thread_start os server i g = Inr (Some (socket_ret (net os)), Opened (first_socket os) # acts @ [SendTo (socket_ret (net os)) buf],
      put_file i (set_up os (get_file g i)) g)"
    using c(1) h assms(6-9) by (simp add: thread_start_def Let_def set_up_def)
  then show ?thesis using c(2) by auto
qed

text \<open>The start of a file's thread: with its socket connected, the header sent and the memory there, the
  connection is ready to receive into buffer 0; the socket made before \<open>connect_to_server\<close> makes another
  one is never closed.\<close>

theorem thread_start_ready:
  assumes "holds (data_server_ip server) 32 ip" "holds (data_server_port server) 16 port" "connected (net os) ip"
    and "holds (file_path (get_file g i)) 1024 p" "0 \<le> send_ret (net os)" "0 \<le> first_socket os"
    and "malloc0 os" "malloc1 os" "\<forall>k < 2. length (memory os k) = nat cap" "0 \<le> cap"
    and "cleared g i" "xor_flag g = 0" "correct_flag g = 0" "first_socket os \<noteq> socket_ret (net os)"
  shows "\<exists>acts g'. thread_start os server i g = Inr (Some (socket_ret (net os)), acts, g') \<and> ready cap i 0 g'
    \<and> contents (info_of g' i) 0 = [] \<and> contents (info_of g' i) 1 = []
    \<and> Opened (first_socket os) \<in> set acts \<and> Closed (first_socket os) \<notin> set acts"
proof -
  obtain acts where run: "thread_start os server i g = Inr (Some (socket_ret (net os)), Opened (first_socket os) # acts, put_file i (set_up os (get_file g i)) g)"
      "Closed (first_socket os) \<notin> set acts"
    using thread_start_sets_up [OF assms(1-8,13)] assms(14) by blast
  let ?g = "put_file i (set_up os (get_file g i)) g" and ?b = "in_buf_info (set_up os (get_file g i))"
  have i: "i < length (single_file_array g)" using assms(11) by (simp add: cleared_def)
  have z: "buf_size (in_buf_info (get_file g i)) k = 0" for k using assms(11) by (simp add: cleared_def info_of_def)
  have info: "info_of ?g i = ?b" using i by (simp add: info_of_def)
  have "buf_wf cap ?b" using assms(9,10) z by (simp add: buf_wf_def set_up_def)
  moreover have "active ?b 0" by (simp add: active_def set_up_def)
  ultimately have "ready cap i 0 ?g" using i info assms(12,13) by (simp add: ready_def)
  moreover have "contents ?b k = []" for k using z by (simp add: contents_def set_up_def)
  ultimately show ?thesis using run info by (intro exI conjI) (assumption | simp)+
qed

definition sample_thread :: thread_os where
  "sample_thread = \<lparr>first_socket = 6, net = good_net, malloc0 = True, malloc1 = True, memory = (\<lambda>k. [1, 2, 3, 4]),
     new_event = 1, new_base = 2\<rparr>"

theorem thread_start_ready_witness:
  "\<exists>acts g'. thread_start sample_thread no_data_server 0 (fresh_group 0 1 5) = Inr (Some 7, acts, g') \<and> ready 4 0 0 g'
    \<and> Opened 6 \<in> set acts \<and> Closed 6 \<notin> set acts"
proof -
  have f: "holds (file_path (get_file (fresh_group 0 1 5) 0)) 1024 ''''"
    by (simp add: fresh_file_def)
  have c: "cleared (fresh_group 0 1 5) 0"
    by (simp add: cleared_def info_of_def fresh_file_def fresh_info_def) (simp add: fresh_group_def)
  show ?thesis
    using thread_start_ready [OF _ _ _ f, of no_data_server "''''" "''''" sample_thread 4] c no_server_empty
    by (auto simp: no_data_server_def sample_thread_def good_net_def connected_def EINPROGRESS_def FD_SETSIZE_def fresh_fields)
qed

text \<open>The errors of a starting thread: without a socket, a connection or a header it sets \<open>correct_flag\<close>, so the
  consumer gives up; without memory it only returns (\<open>correct_flag == -1\<close> is a comparison), the group stays
  as it was, and the consumer waits for that file until the connection of another one fails.\<close>

theorem thread_start_errors:
  assumes "correct_flag g = 0" "xor_flag g = 0" "file_num g \<noteq> buf_full_num g 0" "file_num g \<noteq> buf_full_num g 1"
    and "thread_start os server i g = Inr (None, acts, g')"
  shows "if first_socket os \<noteq> -1 \<and> (\<exists>s as' hs. connect_to_server (net os) server (first_socket os) = Inr (0, s, as')
        \<and> socket_write_header (net os) s (file_path (get_file g i)) = Inr (0, hs))
    then (\<not> malloc0 os \<or> \<not> malloc1 os) \<and> g' = g \<and> judge_xor_condition out g' = None
    else g' = g\<lparr>correct_flag := -1\<rparr> \<and> judge_verdict g' = ERROR_CREAT_TRANSMISSION_DATA_CONNECTION"
proof (cases "first_socket os = -1")
  case True
  then show ?thesis using assms(5) by (auto simp: thread_start_def fail_group_def judge_verdict_def)
next
  case False
  then obtain r s as' where c: "connect_to_server (net os) server (first_socket os) = Inr (r, s, as')"
    using assms(5) by (cases "connect_to_server (net os) server (first_socket os)") (auto simp: thread_start_def)
  show ?thesis
  proof (cases "r = 0")
    case r: False
    then show ?thesis using assms(5) False c by (auto simp: thread_start_def fail_group_def Let_def judge_verdict_def)
  next
    case r: True
    then obtain r' hs where h: "socket_write_header (net os) s (file_path (get_file g i)) = Inr (r', hs)"
      using assms(5) False c by (cases "socket_write_header (net os) s (file_path (get_file g i))") (auto simp: thread_start_def Let_def)
    have idle: "judge_xor_condition out g = None" using judge_idle [of g out] assms(1-4) by simp
    show ?thesis
      using assms(1,5) False c h r idle
      by (auto simp: thread_start_def Let_def fail_group_def judge_verdict_def split: if_splits)
  qed
qed

theorem thread_start_errors_witness:
  "\<exists>acts. thread_start (sample_thread\<lparr>malloc1 := False\<rparr>) no_data_server 0 (fresh_group 4 2 5) = Inr (None, acts, fresh_group 4 2 5)
    \<and> judge_xor_condition \<lparr>written = [], room = 5\<rparr> (fresh_group 4 2 5) = None"
proof -
  let ?os = "sample_thread\<lparr>malloc1 := False\<rparr>"
  have n: "file_num (fresh_group 4 2 5) \<noteq> buf_full_num (fresh_group 4 2 5) k" for k by (simp add: fresh_fields)
  have p: "holds (file_path (get_file (fresh_group 4 2 5) 0)) 1024 ''''"
    by (simp add: fresh_file_def)
  obtain acts where c: "connect_to_server good_net no_data_server 6 = Inr (0, 7, acts)"
    using no_server_empty [THEN holds_read]
    by (auto simp: connect_to_server_def no_data_server_def good_net_def Let_def EINPROGRESS_def FD_SETSIZE_def)
  obtain name where "strcpy (zbuf 1024) '''' = Inr name" using strcpy_holds [of "zbuf 1024" 1024 "''''"] by auto
  then have h: "\<exists>hs. socket_write_header good_net 7 (file_path (get_file (fresh_group 4 2 5) 0)) = Inr (0, hs)"
    using holds_read [OF p]
    by (simp add: socket_write_header_def communicate_with_server_def Let_def good_net_def zero_reply_def zero_header_def)
  then obtain hs where h: "socket_write_header good_net 7 (file_path (get_file (fresh_group 4 2 5) 0)) = Inr (0, hs)" by blast
  have run: "thread_start ?os no_data_server 0 (fresh_group 4 2 5) = Inr (None, (Opened 6 # acts) @ hs, fresh_group 4 2 5)"
    using c h by (simp add: thread_start_def sample_thread_def fresh_fields Let_def del: fresh_get)
  show ?thesis
    using thread_start_errors [OF fresh_fields(4,3) n n run, of "\<lparr>written = [], room = 5\<rparr>"] run c h
    by (simp add: sample_thread_def del: fresh_get)
qed

subsection \<open>Setting up a group\<close>

lemma copy_names_ok:
  assumes "i + length ps \<le> length (single_file_array g)"
    and "\<forall>j < length ps. NUL \<notin> set (ps ! j) \<and> length (ps ! j) < 1024"
    and "\<forall>j. i \<le> j \<and> j < i + length ps \<longrightarrow> length (file_path (get_file g j)) = 1024"
  shows "\<exists>g'. copy_names i ps g = Inr g' \<and> length (single_file_array g') = length (single_file_array g)
    \<and> (\<forall>j < length ps. holds (file_path (get_file g' (i + j))) 1024 (ps ! j))
    \<and> (\<forall>j. j < i \<or> i + length ps \<le> j \<longrightarrow> get_file g' j = get_file g j)
    \<and> (\<forall>j. in_buf_info (get_file g' j) = in_buf_info (get_file g j))
    \<and> xor_flag g' = xor_flag g \<and> correct_flag g' = correct_flag g \<and> xor_size g' = xor_size g \<and> buf_full_num g' = buf_full_num g"
  using assms
proof (induction ps arbitrary: i g)
  case (Cons p ps)
  have i: "i < length (single_file_array g)" using Cons.prems(1) by simp
  have "NUL \<notin> set p" "length p < 1024" using Cons.prems(2) by (force dest: spec [of _ 0])+
  moreover have "length (file_path (get_file g i)) = 1024" using Cons.prems(3) by simp
  ultimately obtain b where b: "strcpy (file_path (get_file g i)) p = Inr b" "holds b 1024 p"
    using strcpy_holds [of "file_path (get_file g i)" 1024 p] by blast
  let ?g = "put_file i ((get_file g i)\<lparr>file_path := b\<rparr>) g"
  have info: "in_buf_info (get_file ?g j) = in_buf_info (get_file g j)" for j
    using i by (cases "j = i") simp_all
  have h: "\<forall>j < length ps. NUL \<notin> set (ps ! j) \<and> length (ps ! j) < 1024" using Cons.prems(2) by fastforce
  have l: "\<forall>j. Suc i \<le> j \<and> j < Suc i + length ps \<longrightarrow> length (file_path (get_file ?g j)) = 1024"
    using Cons.prems(3) by auto
  obtain g' where g': "copy_names (Suc i) ps ?g = Inr g'" "length (single_file_array g') = length (single_file_array ?g)"
      "\<forall>j < length ps. holds (file_path (get_file g' (Suc i + j))) 1024 (ps ! j)"
      "\<forall>j. j < Suc i \<or> Suc i + length ps \<le> j \<longrightarrow> get_file g' j = get_file ?g j"
      "\<forall>j. in_buf_info (get_file g' j) = in_buf_info (get_file ?g j)"
      "xor_flag g' = xor_flag ?g" "correct_flag g' = correct_flag ?g" "xor_size g' = xor_size ?g" "buf_full_num g' = buf_full_num ?g"
    using Cons.IH [of "Suc i" ?g] Cons.prems(1) h l by auto
  have "holds (file_path (get_file g' (i + j))) 1024 ((p # ps) ! j)" if "j < length (p # ps)" for j
  proof (cases j)
    case 0
    then show ?thesis using g'(4) b(2) i by simp
  next
    case (Suc k)
    then show ?thesis using g'(3) that by simp
  qed
  moreover have "get_file g' j = get_file g j" if "j < i \<or> i + length (p # ps) \<le> j" for j
    using g'(4) that by auto
  ultimately show ?case using g' b(1) i info by (intro exI [of _ g']) simp
qed simp

lemma copy_names_overflow:
  assumes "i \<le> length (single_file_array g)" "length (single_file_array g) < i + length ps"
  shows "copy_names i ps g = Inl BufferOverflow"
  using assms
proof (induction ps arbitrary: i g)
  case (Cons p ps)
  show ?case
  proof (cases "length (single_file_array g) \<le> i")
    case False
    have "copy_names (Suc i) ps (put_file i f g) = Inl BufferOverflow" for f
      using Cons.IH [of "Suc i" "put_file i f g"] Cons.prems False by simp
    then show ?thesis using False by (simp add: strcpy_def)
  qed simp
qed simp

lemma zero_group_file: "i < 50 \<Longrightarrow> get_file zero_group i = zero_file"
  by (simp add: get_file_def zero_group_def)

lemma group_init_result:
  assumes "\<forall>p \<in> set paths. NUL \<notin> set p \<and> length p < 1024"
  shows "if length paths \<le> 50
    then \<exists>g. group_init fsize paths = Inr g \<and> file_size g = fsize \<and> file_num g = int (length paths)
      \<and> (\<forall>i < length paths. holds (file_path (get_file g i)) 1024 (paths ! i) \<and> cleared g i)
      \<and> xor_flag g = 0 \<and> correct_flag g = 0 \<and> xor_size g = 0 \<and> buf_full_num g = (\<lambda>k. 0)
    else group_init fsize paths = Inl BufferOverflow"
proof (cases "length paths \<le> 50")
  case True
  have len: "length (single_file_array zero_group) = 50" by (simp add: zero_group_def)
  have "\<forall>j. 0 \<le> j \<and> j < 0 + length paths \<longrightarrow> length (file_path (get_file zero_group j)) = 1024"
    using True by (simp add: zero_group_file zero_file_def)
  moreover have "\<forall>j < length paths. NUL \<notin> set (paths ! j) \<and> length (paths ! j) < 1024" using assms by simp
  ultimately obtain g where g: "copy_names 0 paths zero_group = Inr g" "length (single_file_array g) = 50"
      "\<forall>j < length paths. holds (file_path (get_file g (0 + j))) 1024 (paths ! j)"
      "\<forall>j. in_buf_info (get_file g j) = in_buf_info (get_file zero_group j)"
      "xor_flag g = 0" "correct_flag g = 0" "xor_size g = 0" "buf_full_num g = (\<lambda>k. 0)"
    using copy_names_ok [of 0 paths zero_group] True len by (auto simp: zero_group_def)
  let ?g = "g\<lparr>file_size := fsize, file_num := int (length paths), not_transfer_end_num := to_int32 fsize\<rparr>"
  have gf: "get_file ?g i = get_file g i" for i by (simp add: get_file_def)
  have "cleared ?g i" if "i < length paths" for i
    using g(2,4) that True by (simp add: cleared_def info_of_def gf zero_group_file zero_file_def zero_info_def)
  then show ?thesis using True g by (simp add: group_init_def gf)
next
  case False
  then show ?thesis using copy_names_overflow [of 0 zero_group paths] by (simp add: group_init_def zero_group_def)
qed

lemma group_init_total:
  "\<forall>p \<in> set paths. NUL \<notin> set p \<and> length p < 1024 \<Longrightarrow> length paths \<le> 50 \<Longrightarrow> \<exists>g. group_init fsize paths = Inr g"
  using group_init_result [of paths fsize] by auto

text \<open>A new group holds the paths of its files in order, with every buffer empty and nothing counted; for
  more files than the array of 50 has slots the names are written past its end.\<close>

theorem group_init_names:
  assumes "\<forall>p \<in> set paths. NUL \<notin> set p \<and> length p < 1024"
  shows "if length paths \<le> 50
    then \<exists>g. group_init fsize paths = Inr g \<and> file_size g = fsize \<and> file_num g = int (length paths)
      \<and> (\<forall>i < length paths. holds (file_path (get_file g i)) 1024 (paths ! i) \<and> cleared g i)
      \<and> xor_flag g = 0 \<and> correct_flag g = 0 \<and> xor_size g = 0 \<and> buf_full_num g = (\<lambda>k. 0)
    else group_init fsize paths = Inl BufferOverflow"
  using assms by (rule group_init_result)

theorem group_init_names_witness:
  "\<exists>g. group_init 5 [''/a'', ''/b''] = Inr g \<and> file_num g = 2 \<and> holds (file_path (get_file g 1)) 1024 ''/b''"
  using group_init_names [of "[''/a'', ''/b'']" 5] by (auto simp: NUL_def)

lemma start_threads_all:
  "\<forall>i \<in> set is'. malloc_arg os i \<and> pthread_create_ret os i = 0 \<Longrightarrow>
   start_threads os is' g = (map ThreadStarted is', g, None)"
  by (induction is') simp_all

lemma start_threads_fails:
  assumes "\<exists>i \<in> set is'. \<not> malloc_arg os i \<or> pthread_create_ret os i \<noteq> 0"
  shows "\<exists>acts g'. start_threads os is' g = (acts, g', Some ERROR_CREAT_TRANSMISSION_DATA_CONNECTION) \<and> StreamClosed \<notin> set acts"
  using assms
proof (induction is')
  case (Cons a is')
  show ?case
  proof (cases "malloc_arg os a \<and> pthread_create_ret os a = 0")
    case True
    then obtain acts g' where "start_threads os is' g = (acts, g', Some ERROR_CREAT_TRANSMISSION_DATA_CONNECTION)"
        "StreamClosed \<notin> set acts"
      using Cons by auto
    then show ?thesis using True by (simp add: Let_def)
  qed auto
qed simp

lemma output_path:
  assumes "NUL \<notin> set name" "length name < 1000"
  shows "bindE (snprintf (zbuf 1024) 1024 (''/home/file/'' @ name)) read_cstr = Inr (''/home/file/'' @ name)"
proof -
  have n: "NUL \<notin> set (''/home/file/'' @ name)" using assms(1) by (simp add: NUL_def)
  obtain b where "strcpy (zbuf 1024) (''/home/file/'' @ name) = Inr b" "holds b 1024 (''/home/file/'' @ name)"
    using strcpy_holds [of "zbuf 1024" 1024 "''/home/file/'' @ name"] n assms(2) by auto
  then show ?thesis using assms(2) by (simp add: snprintf_def holds_read)
qed

lemma create_client_runs:
  assumes "group_init fsize paths = Inr g" "NUL \<notin> set name" "length name < 1000" "fopen_out os (''/home/file/'' @ name) = Some out"
    and "\<forall>i < length paths. malloc_arg os i \<and> pthread_create_ret os i = 0"
  shows "create_client_connect_data_server os judge fsize paths name
    = bindP (judge out g) (\<lambda>j. Some (Inr (fst j, StreamOpened # map ThreadStarted [0..<length paths] @ [StreamClosed], snd (snd j))))"
proof -
  have "start_threads os [0..<length paths] g = (map ThreadStarted [0..<length paths], g, None)"
    using assms(5) by (intro start_threads_all) simp
  then show ?thesis using assms(1,4) output_path [OF assms(2,3)] by (simp add: create_client_connect_data_server_def Let_def)
qed

text \<open>C33. A request for remote files: one thread is started per file before the consumer runs, whose verdict is the
  answer, and the output file is closed behind it; if the output cannot be opened or a thread cannot be
  started the answer is ERROR_CREAT_TRANSMISSION_DATA_CONNECTION, and in the latter case the output file
  stays open.\<close>

theorem create_client_verdict:
  assumes "\<forall>p \<in> set paths. NUL \<notin> set p \<and> length p < 1024" "length paths \<le> 50" "NUL \<notin> set name" "length name < 1000"
  shows "case fopen_out os (''/home/file/'' @ name) of
      None \<Rightarrow> \<exists>g. create_client_connect_data_server os judge fsize paths name = Some (Inr (ERROR_CREAT_TRANSMISSION_DATA_CONNECTION, [], g))
    | Some out \<Rightarrow>
        if \<forall>i < length paths. malloc_arg os i \<and> pthread_create_ret os i = 0
        then \<exists>g. group_init fsize paths = Inr g
          \<and> create_client_connect_data_server os judge fsize paths name
            = bindP (judge out g) (\<lambda>j. Some (Inr (fst j, StreamOpened # map ThreadStarted [0..<length paths] @ [StreamClosed], snd (snd j))))
        else \<exists>acts g. create_client_connect_data_server os judge fsize paths name
            = Some (Inr (ERROR_CREAT_TRANSMISSION_DATA_CONNECTION, acts, g)) \<and> StreamOpened \<in> set acts \<and> StreamClosed \<notin> set acts"
proof -
  obtain g where g: "group_init fsize paths = Inr g"
    using group_init_total [OF assms(1,2)] by blast
  show ?thesis
  proof (cases "fopen_out os (''/home/file/'' @ name)")
    case None
    then show ?thesis using g output_path [OF assms(3,4)] by (simp add: create_client_connect_data_server_def)
  next
    case (Some out)
    show ?thesis
    proof (cases "\<forall>i < length paths. malloc_arg os i \<and> pthread_create_ret os i = 0")
      case True
      then show ?thesis using create_client_runs [OF g assms(3,4) Some True] g Some by simp
    next
      case False
      then have "\<exists>i \<in> set [0..<length paths]. \<not> malloc_arg os i \<or> pthread_create_ret os i \<noteq> 0" by auto
      then obtain acts g' where "start_threads os [0..<length paths] g = (acts, g', Some ERROR_CREAT_TRANSMISSION_DATA_CONNECTION)"
          "StreamClosed \<notin> set acts"
        using start_threads_fails by blast
      then show ?thesis using False Some g output_path [OF assms(3,4)] by (auto simp: create_client_connect_data_server_def Let_def)
    qed
  qed
qed

theorem create_client_verdict_witness:
  "\<exists>acts g. create_client_connect_data_server \<lparr>fopen_out = (\<lambda>_. Some \<lparr>written = [], room = 9\<rparr>), malloc_arg = (\<lambda>_. True),
      pthread_create_ret = (\<lambda>i. int i)\<rparr> (\<lambda>_ _. None) 5 [''/a'', ''/b''] ''out''
    = Some (Inr (ERROR_CREAT_TRANSMISSION_DATA_CONNECTION, acts, g)) \<and> StreamClosed \<notin> set acts"
  using create_client_verdict [of "[''/a'', ''/b'']" "''out''" "\<lparr>fopen_out = (\<lambda>_. Some \<lparr>written = [], room = 9\<rparr>), malloc_arg = (\<lambda>_. True),
      pthread_create_ret = (\<lambda>i. int i)\<rparr>" "\<lambda>_ _. None" 5]
  by (auto simp: NUL_def numeral_2_eq_2 less_Suc_eq)

end
