(* ===== verification/GroupRun.thy ===== *)
theory GroupRun
  imports BufXor
begin

text \<open>
  The threads of a group running together: one receiving thread per file (\<open>write_buf\<close>, called once per
  piece of the file) and the consumer (\<open>judge_xor_condition\<close>), on the shared \<open>g_tgroupFile\<close> of
  \<open>src/get_data_client_file_data.cpp\<close>, which takes no lock around any of these accesses.

  A step is one of: a thread receives the next piece, runs the first or the second part of its
  \<open>write_buf\<close> loop body, or the consumer reads one counter, runs \<open>buf_xor\<close>, clears one counter, clears
  one flag, or tests the exit condition. The increment of a counter belongs to the step that fills the
  buffer; theory \<open>GroupCounter\<close> divides it. The two tests of the second part are one step (\<open>GroupOrder\<close>,
  \<open>divided_rotation\<close>, shows what dividing them adds), and so are the test of the flags and the receiving of a piece. The
  connections deliver: the calls of the handler that receive nothing, and the frees of a group that has ended, are
  the events that \<open>GroupEvents\<close> adds. \<open>exec\<close> executes a step named by its label, \<open>step\<close> is the
  transition relation, \<open>steps\<close> its closure from a start state.

  Theory \<open>GroupSafe\<close> proves that files that fit into one buffer are received and XORed correctly under
  every interleaving, theory \<open>GroupRace\<close> shows two interleavings for larger files that go wrong.
\<close>

subsection \<open>Steps\<close>

datatype thread =
    Idle
  | AtStore "byte list" int        \<comment> \<open>in \<open>write_buf\<close>, before the first part of the loop body\<close>
  | AtRotate "byte list" int       \<comment> \<open>before the second part\<close>

datatype consumer =
    Poll nat                       \<comment> \<open>about to read \<open>buf_full_num[k]\<close>\<close>
  | Xor nat
  | ResetNum nat
  | ResetFlag nat nat              \<comment> \<open>buffer, next file\<close>
  | Check                          \<comment> \<open>the condition of \<open>do ... while\<close>\<close>
  | Done int

record run =
  group :: tGroupFileInfo
  out :: ostream
  consumer :: consumer
  thr :: "nat \<Rightarrow> thread"
  todo :: "nat \<Rightarrow> byte list list"

datatype label = Recv nat | Store nat | Rotate nat | Judge

definition exec_judge :: "run \<Rightarrow> (fault + run) option" where
  "exec_judge s =
     (let g = group s; n = nat (file_num g)
      in case consumer s of
        Poll k \<Rightarrow>
          Some (Inr (s\<lparr>consumer := (if buf_full_num g k = file_num g then Xor k else if k = 0 then Poll 1 else Check)\<rparr>))
      | Xor k \<Rightarrow>
          if 100 < n then Some (Inl BufferOverflow)
          else (case buf_xor (in_bufs g n k) n (out s) k g of
             Inl e \<Rightarrow> Some (Inl e)
           | Inr r \<Rightarrow> Some (Inr (s\<lparr>out := fst (snd r), group := snd (snd r), consumer := ResetNum k\<rparr>)))
      | ResetNum k \<Rightarrow> Some (Inr (s\<lparr>group := reset_num k g, consumer := ResetFlag k 0\<rparr>))
      | ResetFlag k i \<Rightarrow>
          if i < n then Some (Inr (s\<lparr>group := put_file i (reset_flag k (get_file g i)) g, consumer := ResetFlag k (Suc i)\<rparr>))
          else Some (Inr (s\<lparr>consumer := Check\<rparr>))
      | Check \<Rightarrow>
          Some (Inr (s\<lparr>consumer := (if xor_flag g = 0 \<and> correct_flag g = 0 then Poll 0 else Done (judge_verdict g))\<rparr>))
      | Done r \<Rightarrow> None)"

definition exec :: "int \<Rightarrow> label \<Rightarrow> run \<Rightarrow> (fault + run) option" where
  "exec cap l s =
     (case l of
        Recv i \<Rightarrow>
          (case (thr s i, todo s i) of
             (Idle, p # ps) \<Rightarrow>
               if xor_flag (group s) \<noteq> 1 \<and> correct_flag (group s) \<noteq> -1
               then Some (Inr (s\<lparr>thr := (thr s)(i := AtStore p 0), todo := (todo s)(i := ps)\<rparr>)) else None
           | _ \<Rightarrow> None)
      | Store i \<Rightarrow>
          (case thr s i of
             AtStore buf flag \<Rightarrow>
               (case store_step cap i buf (int (length buf)) flag (group s) of
                  Inl e \<Rightarrow> Some (Inl e)
                | Inr r \<Rightarrow> Some (Inr (s\<lparr>group := snd (snd r),
                    thr := (thr s)(i := (if fst r then Idle else AtRotate buf (fst (snd r))))\<rparr>)))
           | _ \<Rightarrow> None)
      | Rotate i \<Rightarrow>
          (case thr s i of
             AtRotate buf flag \<Rightarrow>
               (case rotate_bufs cap i (group s) of
                  Inl e \<Rightarrow> Some (Inl e)
                | Inr g \<Rightarrow> Some (Inr (s\<lparr>group := g, thr := (thr s)(i := AtStore buf flag)\<rparr>)))
           | _ \<Rightarrow> None)
      | Judge \<Rightarrow> exec_judge s)"

inductive step :: "int \<Rightarrow> run \<Rightarrow> run \<Rightarrow> bool" for cap where
  step: "exec cap l s = Some (Inr s') \<Longrightarrow> step cap s s'"

inductive steps :: "int \<Rightarrow> run \<Rightarrow> run \<Rightarrow> bool" for cap where
  refl: "steps cap s s"
| more: "steps cap s s' \<Longrightarrow> step cap s' s'' \<Longrightarrow> steps cap s s''"

inductive_cases stepE: "step cap s s'"

definition can_fault :: "int \<Rightarrow> run \<Rightarrow> bool" where
  "can_fault cap s \<longleftrightarrow> (\<exists>l e. exec cap l s = Some (Inl e))"

fun exec_all :: "int \<Rightarrow> label list \<Rightarrow> run \<Rightarrow> run option" where
  "exec_all cap [] s = Some s"
| "exec_all cap (l # ls) s = (case exec cap l s of Some (Inr s') \<Rightarrow> exec_all cap ls s' | _ \<Rightarrow> None)"

lemma steps_trans: "steps cap t u \<Longrightarrow> steps cap s t \<Longrightarrow> steps cap s u"
  by (induction rule: steps.induct) (auto intro: steps.more)

lemma steps_one: "exec cap l s = Some (Inr s') \<Longrightarrow> steps cap s s'"
  using steps.more [OF steps.refl step.step] .

lemma exec_all_steps: "exec_all cap ls s = Some s' \<Longrightarrow> steps cap s s'"
proof (induction ls arbitrary: s)
  case Nil
  then show ?case by (simp add: steps.refl)
next
  case (Cons l ls)
  then obtain t where t: "exec cap l s = Some (Inr t)" "exec_all cap ls t = Some s'"
    by (auto split: option.splits sum.splits)
  show ?case by (rule steps_trans [OF Cons.IH [OF t(2)] steps_one [OF t(1)]])
qed

text \<open>The start: every thread in its event loop, the consumer entering its loop, the pieces of each file
  still to come.\<close>

definition start_from :: "tGroupFileInfo \<Rightarrow> ostream \<Rightarrow> byte list list list \<Rightarrow> run" where
  "start_from g out0 pieces = \<lparr>group = g, out = out0, consumer = Poll 0, thr = (\<lambda>i. Idle),
     todo = (\<lambda>i. if i < length pieces then pieces ! i else [])\<rparr>"

definition start :: "int \<Rightarrow> ostream \<Rightarrow> byte list list list \<Rightarrow> run" where
  "start cap out0 pieces = start_from (fresh_group cap (length pieces) (int (length (concat (hd pieces))))) out0 pieces"

lemma start_from_simps [simp]:
  "group (start_from g out0 pieces) = g" "out (start_from g out0 pieces) = out0" "consumer (start_from g out0 pieces) = Poll 0"
  "thr (start_from g out0 pieces) = (\<lambda>i. Idle)" "todo (start_from g out0 pieces) = (\<lambda>i. if i < length pieces then pieces ! i else [])"
  by (simp_all add: start_from_def)

text \<open>A group at the start: its files are allocated and empty, buffer 0 is the one to be filled, nothing has been
  counted or XORed. \<open>fresh_group\<close> is one; what the allocated memory holds does not matter.\<close>

definition file_fresh :: "int \<Rightarrow> single_file_info \<Rightarrow> bool" where
  "file_fresh cap f \<longleftrightarrow> buf_wf cap (in_buf_info f) \<and> file_index f = 0
     \<and> (\<forall>k < 2. buf_size (in_buf_info f) k = 0 \<and> buf_flag (in_buf_info f) k = (if k = 0 then 1 else 0))"

definition group_fresh :: "int \<Rightarrow> byte list list list \<Rightarrow> tGroupFileInfo \<Rightarrow> bool" where
  "group_fresh cap pieces g \<longleftrightarrow> length pieces \<le> length (single_file_array g) \<and> file_num g = int (length pieces)
     \<and> file_size g = int (length (concat (hd pieces))) \<and> xor_size g = 0 \<and> xor_flag g = 0 \<and> correct_flag g = 0
     \<and> (\<forall>k < 2. buf_full_num g k = 0) \<and> (\<forall>i < length pieces. file_fresh cap (get_file g i))"

lemma fresh_group_fresh:
  assumes "0 \<le> cap"
  shows "group_fresh cap pieces (fresh_group cap (length pieces) (int (length (concat (hd pieces)))))"
proof -
  have "file_fresh cap (fresh_file cap)"
    using fresh_wf [OF assms] by (simp add: file_fresh_def fresh_file_def) (simp add: fresh_info_def)
  then show ?thesis by (simp add: group_fresh_def) (simp add: fresh_group_def)
qed

end
