(* ===== verification/GroupSafe.thy ===== *)
theory GroupSafe
  imports GroupRun
begin

text \<open>
  Files that fit into one buffer: an invariant of all interleavings. While the files are received,
  buffer 0 of a file and what is still to come of it make up the file, and \<open>buf_full_num[0]\<close> counts the
  files that are complete; the consumer runs \<open>buf_xor\<close> once, when all are; behind it the output is the
  parity. From every reachable state the group can run to its end, so no interleaving gets stuck.
\<close>

subsection \<open>The invariant\<close>

definition in_flight :: "thread \<Rightarrow> byte list" where
  "in_flight t = (case t of Idle \<Rightarrow> [] | AtStore p f \<Rightarrow> p | AtRotate p f \<Rightarrow> p)"

definition rest :: "run \<Rightarrow> nat \<Rightarrow> byte list" where
  "rest s i = in_flight (thr s i) @ concat (todo s i)"

definition complete :: "tGroupFileInfo \<Rightarrow> nat \<Rightarrow> bool" where
  "complete g i \<longleftrightarrow> file_size g \<le> file_index (get_file g i)"

definition info_inv :: "int \<Rightarrow> tGroupFileInfo \<Rightarrow> nat \<Rightarrow> bool" where
  "info_inv cap g i \<longleftrightarrow> buf_wf cap (info_of g i)
     \<and> file_index (get_file g i) = int (length (contents (info_of g i) 0))
     \<and> buf_flag (info_of g i) 0 = (if complete g i then 2 else 1) \<and> buf_flag (info_of g i) 1 = 0"

definition thread_inv :: "byte list \<Rightarrow> run \<Rightarrow> nat \<Rightarrow> bool" where
  "thread_inv f s i \<longleftrightarrow> contents (info_of (group s) i) 0 @ rest s i = f
     \<and> (\<forall>p \<in> set (todo s i). p \<noteq> []) \<and> (thr s i = Idle \<or> (\<exists>p. p \<noteq> [] \<and> thr s i = AtStore p 0))"

definition receiving :: "int \<Rightarrow> byte list list \<Rightarrow> ostream \<Rightarrow> run \<Rightarrow> bool" where
  "receiving cap fs out0 s \<longleftrightarrow>
     (let g = group s; n = length fs
      in n \<le> length (single_file_array g) \<and> file_num g = int n \<and> file_size g = int (length (hd fs))
        \<and> xor_size g = 0 \<and> xor_flag g = 0 \<and> correct_flag g = 0
        \<and> buf_full_num g 0 = int (card {i. i < n \<and> complete g i}) \<and> buf_full_num g 1 = 0
        \<and> out s = out0 \<and> (\<forall>i < n. info_inv cap g i \<and> thread_inv (fs ! i) s i)
        \<and> (\<forall>i \<ge> n. thr s i = Idle \<and> todo s i = [])
        \<and> (consumer s \<in> {Poll 0, Poll 1, Check} \<or> (consumer s = Xor 0 \<and> buf_full_num g 0 = file_num g)))"

definition after_parity :: "ostream \<Rightarrow> byte list list \<Rightarrow> ostream" where
  "after_parity out0 fs = out0\<lparr>written := written out0 @ parity fs, room := room out0 - length (hd fs)\<rparr>"

definition finished :: "byte list list \<Rightarrow> ostream \<Rightarrow> run \<Rightarrow> bool" where
  "finished fs out0 s \<longleftrightarrow> xor_flag (group s) = 1 \<and> correct_flag (group s) = 0 \<and> xor_size (group s) = file_size (group s)
     \<and> file_num (group s) = int (length fs) \<and> out s = after_parity out0 fs \<and> (\<forall>i. thr s i = Idle \<and> todo s i = [])
     \<and> (consumer s \<in> {ResetNum 0, Check, Done RIGHT} \<or> (\<exists>i. consumer s = ResetFlag 0 i))"

text \<open>The files of the group: at least one, of one length that is not zero and fits a buffer and the device.\<close>

definition group_ok :: "int \<Rightarrow> byte list list \<Rightarrow> ostream \<Rightarrow> bool" where
  "group_ok cap fs out0 \<longleftrightarrow> fs \<noteq> [] \<and> length fs \<le> 50 \<and> same_length (length (hd fs)) fs \<and> 0 < length (hd fs)
     \<and> int (length (hd fs)) \<le> cap \<and> length (hd fs) \<le> room out0"

lemma group_ok_length: "group_ok cap fs out0 \<Longrightarrow> i < length fs \<Longrightarrow> length (fs ! i) = length (hd fs)"
proof -
  assume ok: "group_ok cap fs out0" and i: "i < length fs"
  have "\<forall>f \<in> set fs. length f = length (hd fs)" using ok unfolding group_ok_def same_length_def by blast
  then show ?thesis using nth_mem [OF i] by blast
qed

subsection \<open>Every step keeps it\<close>

lemma receiving_recv:
  assumes "receiving cap fs out0 s" "exec cap (Recv i) s = Some r"
  shows "\<exists>s'. r = Inr s' \<and> receiving cap fs out0 s'"
proof -
  obtain p ps where p: "thr s i = Idle" "todo s i = p # ps"
      "r = Inr (s\<lparr>thr := (thr s)(i := AtStore p 0), todo := (todo s)(i := ps)\<rparr>)"
    using assms(2) by (auto simp: exec_def split: thread.splits list.splits if_splits)
  let ?s = "s\<lparr>thr := (thr s)(i := AtStore p 0), todo := (todo s)(i := ps)\<rparr>"
  have i: "i < length fs" using assms(1) p(2) by (metis leI list.distinct(1) receiving_def)
  have "thread_inv (fs ! j) ?s j" if "thread_inv (fs ! j) s j" for j
    using that p(1,2) by (cases "j = i") (auto simp: thread_inv_def rest_def in_flight_def)
  then have "receiving cap fs out0 ?s" using assms(1) i by (auto simp: receiving_def Let_def)
  then show ?thesis using p(3) by blast
qed

lemma receiving_store:
  assumes ok: "group_ok cap fs out0" and "receiving cap fs out0 s" "exec cap (Store i) s = Some r"
  shows "\<exists>s'. r = Inr s' \<and> receiving cap fs out0 s'"
proof -
  let ?g = "group s"
  obtain p f where p: "thr s i = AtStore p f" using assms(3) by (auto simp: exec_def split: thread.splits)
  have len_n: "length fs \<le> length (single_file_array ?g)" and size_n: "file_size ?g = int (length (hd fs))"
    using assms(2) by (simp_all add: receiving_def Let_def)
  have i: "i < length fs" using assms(2) p by (metis leI thread.distinct(1) receiving_def)
  then have n: "i < length (single_file_array ?g)" "file_size ?g = int (length (hd fs))" using len_n size_n by simp_all
  have inv: "info_inv cap ?g i" "thread_inv (fs ! i) s i" using assms(2) i by (simp_all add: receiving_def Let_def)
  have pf: "p \<noteq> []" "f = 0" using inv(2) p by (auto simp: thread_inv_def)
  let ?b = "info_of ?g i" and ?f = "get_file ?g i"
  have split: "contents ?b 0 @ p @ concat (todo s i) = fs ! i"
    using inv(2) p by (simp add: thread_inv_def rest_def in_flight_def)
  have len: "length (contents ?b 0) + length p + length (concat (todo s i)) = length (hd fs)"
    using arg_cong [OF split, of length] group_ok_length [OF ok i] by simp
  have size: "buf_size ?b 0 = int (length (contents ?b 0))" using length_contents [of cap ?b 0] inv(1) by (simp add: info_inv_def)
  have idx: "file_index ?f = int (length (contents ?b 0))" using inv(1) by (simp add: info_inv_def)
  have nc: "\<not> complete ?g i" using len pf(1) idx n(2) by (cases p) (simp_all add: complete_def)
  have act: "active ?b 0" using inv(1) nc by (simp add: info_inv_def active_def)
  have fit: "buf_size ?b 0 + int (length p) \<le> cap" using size len ok by (simp add: group_ok_def)
  obtain b' where b': "store cap 0 i p (int (length p)) 0 ?g = Inr (True, 0, stored 0 i (int (length p)) b' ?g)"
      "appended cap 0 p ?b b'"
      "buf_flag b' = (if file_size ?g \<le> file_index ?f + int (length p) then (buf_flag ?b)(0 := 2) else buf_flag ?b)"
    using store_append [of cap ?g i 0 "int (length p)" p 0] inv(1) fit
    by (auto simp: info_inv_def from_pos_def info_of_def stored_def Let_def)
  let ?g' = "stored 0 i (int (length p)) b' ?g"
  let ?s = "s\<lparr>group := ?g', thr := (thr s)(i := Idle)\<rparr>"
  have r: "r = Inr ?s"
    using assms(3) p pf(2) b'(1) store_step_active [of ?g i 0] act by (simp add: exec_def info_of_def)
  have gi: "get_file ?g' i = ?f\<lparr>file_index := file_index ?f + int (length p), in_buf_info := b'\<rparr>"
    using i n(1) by (simp add: stored_def Let_def)
  have gj: "j \<noteq> i \<Longrightarrow> get_file ?g' j = get_file ?g j" for j by (simp add: stored_def Let_def)
  have frame: "file_size ?g' = file_size ?g" "file_num ?g' = file_num ?g" "xor_size ?g' = xor_size ?g"
      "xor_flag ?g' = xor_flag ?g" "correct_flag ?g' = correct_flag ?g" "length fs \<le> length (single_file_array ?g')"
      "buf_full_num ?g' 1 = buf_full_num ?g 1"
      "buf_full_num ?g' 0 = buf_full_num ?g 0 + (if complete ?g' i then 1 else 0)"
    using len_n gi by (simp_all add: stored_def Let_def complete_def)
  have infoi: "info_inv cap ?g' i"
    using b' inv(1) idx nc gi frame(1) by (auto simp: info_inv_def info_of_def appended_def complete_def)
  have infoj: "info_inv cap ?g' j" if "info_inv cap ?g j" "j \<noteq> i" for j
    using that gj frame(1) by (simp add: info_inv_def info_of_def complete_def)
  have ti: "thread_inv (fs ! i) ?s i"
    using inv(2) split b'(2) gi by (simp add: thread_inv_def rest_def in_flight_def info_of_def appended_def)
  have tj: "thread_inv (fs ! j) ?s j" if "thread_inv (fs ! j) s j" "j \<noteq> i" for j
    using that gj by (simp add: thread_inv_def rest_def info_of_def)
  have cj: "complete ?g' j \<longleftrightarrow> complete ?g j" if "j \<noteq> i" for j using gj [OF that] frame(1) by (simp add: complete_def)
  have card: "card {j. j < length fs \<and> complete ?g' j} = card {j. j < length fs \<and> complete ?g j} + (if complete ?g' i then 1 else 0)"
  proof (cases "complete ?g' i")
    case True
    then have "{j. j < length fs \<and> complete ?g' j} = insert i {j. j < length fs \<and> complete ?g j}"
    proof (intro set_eqI)
      show "x \<in> {j. j < length fs \<and> complete ?g' j} \<longleftrightarrow> x \<in> insert i {j. j < length fs \<and> complete ?g j}" for x
        using cj [of x] i True by (cases "x = i") simp_all
    qed
    then show ?thesis using nc True by simp
  next
    case False
    then have "{j. j < length fs \<and> complete ?g' j} = {j. j < length fs \<and> complete ?g j}"
    proof (intro set_eqI)
      show "x \<in> {j. j < length fs \<and> complete ?g' j} \<longleftrightarrow> x \<in> {j. j < length fs \<and> complete ?g j}" for x
        using cj [of x] nc False by (cases "x = i") simp_all
    qed
    then show ?thesis using False by simp
  qed
  have "card {j. j < length fs \<and> complete ?g j} < length fs"
  proof -
    have "card {j. j < length fs \<and> complete ?g j} \<le> card ({..<length fs} - {i})"
      using nc by (intro card_mono) auto
    then show ?thesis using i by simp
  qed
  then have "consumer s \<in> {Poll 0, Poll 1, Check}" using assms(2) by (auto simp: receiving_def Let_def)
  moreover have "\<forall>j < length fs. info_inv cap ?g' j \<and> thread_inv (fs ! j) ?s j"
  proof (intro allI impI)
    fix j assume "j < length fs"
    then have "info_inv cap ?g j" "thread_inv (fs ! j) s j" using assms(2) by (simp_all add: receiving_def Let_def)
    then show "info_inv cap ?g' j \<and> thread_inv (fs ! j) ?s j"
      using infoi infoj ti tj by (cases "j = i") blast+
  qed
  moreover have "\<forall>j \<ge> length fs. thr ?s j = Idle \<and> todo ?s j = []"
    using assms(2) by (simp add: receiving_def Let_def)
  moreover have "file_num ?g = int (length fs)" "xor_size ?g = 0" "xor_flag ?g = 0" "correct_flag ?g = 0"
      "buf_full_num ?g 0 = int (card {i. i < length fs \<and> complete ?g i})" "buf_full_num ?g 1 = 0" "out s = out0"
    using assms(2) by (simp_all add: receiving_def Let_def)
  ultimately have "receiving cap fs out0 ?s"
    using frame card n(2) unfolding receiving_def Let_def by (simp del: One_nat_def)
  then show ?thesis using r by blast
qed

text \<open>All files complete: nothing is in flight or to come, and buffer 0 holds the files.\<close>

lemma receiving_full:
  assumes ok: "group_ok cap fs out0" and r: "receiving cap fs out0 s" and full: "buf_full_num (group s) 0 = file_num (group s)"
  shows "full_bufs (group s) (length fs) 0 (length (hd fs))" "group_contents (group s) (length fs) 0 = fs"
    "\<forall>i. thr s i = Idle \<and> todo s i = []"
proof -
  let ?g = "group s" and ?n = "length fs"
  have n: "?n \<le> length (single_file_array ?g)" "file_size ?g = int (length (hd fs))" "file_num ?g = int ?n"
      "buf_full_num ?g 0 = int (card {i. i < ?n \<and> complete ?g i})"
    using r by (simp_all add: receiving_def Let_def)
  have "card {i. i < ?n \<and> complete ?g i} = card {..<?n}" using full n(3,4) by simp
  then have "{i. i < ?n \<and> complete ?g i} = {..<?n}" by (intro card_subset_eq) auto
  then have comp: "complete ?g i" if "i < ?n" for i using that by blast
  have fin: "contents (info_of ?g i) 0 = fs ! i \<and> rest s i = [] \<and> info_inv cap ?g i \<and> thread_inv (fs ! i) s i" if i: "i < ?n" for i
  proof -
    have inv: "info_inv cap ?g i" "thread_inv (fs ! i) s i" using r i by (simp_all add: receiving_def Let_def)
    have c: "contents (info_of ?g i) 0 @ rest s i = fs ! i" using inv(2) by (simp add: thread_inv_def)
    have "length (hd fs) \<le> length (contents (info_of ?g i) 0)" using comp [OF i] inv(1) n(2) by (simp add: complete_def info_inv_def)
    moreover have "length (contents (info_of ?g i) 0) + length (rest s i) = length (hd fs)"
      using arg_cong [OF c, of length] group_ok_length [OF ok i] by simp
    ultimately have "length (rest s i) = 0" by linarith
    then show ?thesis using c inv by simp
  qed
  show fb: "full_bufs ?g ?n 0 (length (hd fs))"
    unfolding full_bufs_def
  proof (intro conjI allI impI)
    show "0 < ?n" using ok by (simp add: group_ok_def)
    fix i assume i: "i < ?n"
    have wf: "buf_wf cap (info_of ?g i)" using fin [OF i] by (simp add: info_inv_def)
    show "alive (info_of ?g i)" using wf by (simp add: buf_wf_def)
    have "length (contents (info_of ?g i) 0) = length (hd fs)" using fin [OF i] group_ok_length [OF ok i] by simp
    then show sz: "buf_size (info_of ?g i) 0 = int (length (hd fs))" using length_contents [OF wf, of 0] by simp
    have "length (in_buf (info_of ?g i) 0) = nat cap" "buf_size (info_of ?g i) 0 \<le> cap" using wf by (auto simp: buf_wf_def)
    then show "length (hd fs) \<le> length (in_buf (info_of ?g i) 0)" using sz by simp
  qed
  show "group_contents ?g ?n 0 = fs"
    using fin by (intro nth_equalityI) (simp_all add: group_contents_def)
  show "\<forall>i. thr s i = Idle \<and> todo s i = []"
  proof
    fix i
    show "thr s i = Idle \<and> todo s i = []"
    proof (cases "i < ?n")
      case True
      have t: "thread_inv (fs ! i) s i" and e: "in_flight (thr s i) @ concat (todo s i) = []"
        using fin [OF True] by (simp_all add: rest_def)
      have "\<forall>p \<in> set (todo s i). p \<noteq> []" using t by (simp add: thread_inv_def)
      then have "todo s i = []" using e by (cases "todo s i") auto
      moreover have "thr s i = Idle" using t e by (auto simp: thread_inv_def in_flight_def)
      ultimately show ?thesis by blast
    next
      case False
      then show ?thesis using r by (simp add: receiving_def Let_def)
    qed
  qed
qed

lemma receiving_judge:
  assumes ok: "group_ok cap fs out0" and r: "receiving cap fs out0 s" and ex: "exec cap Judge s = Some res"
  shows "\<exists>s'. res = Inr s' \<and> (receiving cap fs out0 s' \<or> finished fs out0 s')"
proof -
  have nz: "fs \<noteq> []" using ok by (simp add: group_ok_def)
  have g: "file_num (group s) = int (length fs)" "buf_full_num (group s) 1 = 0" "xor_flag (group s) = 0" "correct_flag (group s) = 0"
    using r by (simp_all add: receiving_def Let_def)
  consider "consumer s = Poll 0" | "consumer s = Poll 1" | "consumer s = Check"
    | "consumer s = Xor 0" "buf_full_num (group s) 0 = file_num (group s)"
    using r by (auto simp: receiving_def Let_def)
  then show ?thesis
  proof cases
    case 1
    let ?c = "if buf_full_num (group s) 0 = file_num (group s) then Xor 0 else Poll 1"
    have "res = Inr (s\<lparr>consumer := ?c\<rparr>)" using ex 1 by (auto simp: exec_def exec_judge_def Let_def)
    moreover have "receiving cap fs out0 (s\<lparr>consumer := ?c\<rparr>)"
      using r by (auto simp: receiving_def Let_def thread_inv_def rest_def)
    ultimately show ?thesis by blast
  next
    case 2
    have "res = Inr (s\<lparr>consumer := Check\<rparr>)" using ex 2 g nz by (simp add: exec_def exec_judge_def Let_def)
    moreover have "receiving cap fs out0 (s\<lparr>consumer := Check\<rparr>)"
      using r by (auto simp: receiving_def Let_def thread_inv_def rest_def)
    ultimately show ?thesis by blast
  next
    case 3
    have "res = Inr (s\<lparr>consumer := Poll 0\<rparr>)" using ex 3 g by (simp add: exec_def exec_judge_def Let_def)
    moreover have "receiving cap fs out0 (s\<lparr>consumer := Poll 0\<rparr>)"
      using r by (auto simp: receiving_def Let_def thread_inv_def rest_def)
    ultimately show ?thesis by blast
  next
    case 4
    note full = receiving_full [OF ok r 4(2)]
    let ?m = "length (hd fs)" and ?n = "length fs"
    let ?g = "xor_done ?n ?m (xor_memory ?n 0 ?m (group s))"
    let ?s = "s\<lparr>out := after_parity out0 fs, group := ?g, consumer := ResetNum 0\<rparr>"
    have o0: "out s = out0" "xor_size (group s) = 0" "file_size (group s) = int ?m"
      using r by (simp_all add: receiving_def Let_def)
    have "buf_xor (in_bufs (group s) ?n 0) ?n (out s) 0 (group s) = Inr (0, after_parity out0 fs, ?g)"
      using buf_xor_room [OF full(1), of "out s"] ok full(2) o0 by (simp add: group_ok_def after_parity_def)
    then have "res = Inr ?s" using ex 4 g ok by (simp add: exec_def exec_judge_def group_ok_def Let_def)
    moreover have "finished fs out0 ?s" using full(3) o0 g by (simp add: finished_def)
    ultimately show ?thesis by blast
  qed
qed

lemma finished_step:
  assumes "finished fs out0 s" "exec cap l s = Some res"
  shows "\<exists>s'. res = Inr s' \<and> finished fs out0 s'"
proof (cases l)
  case Judge
  have v: "judge_verdict (group s) = RIGHT" using assms(1) by (simp add: finished_def judge_verdict_def)
  show ?thesis
    using assms v unfolding Judge
    by (auto simp: finished_def exec_def exec_judge_def Let_def split: if_splits)
qed (use assms in \<open>auto simp: finished_def exec_def\<close>)

lemma receiving_step:
  assumes "group_ok cap fs out0" "receiving cap fs out0 s" "exec cap l s = Some res"
  shows "\<exists>s'. res = Inr s' \<and> (receiving cap fs out0 s' \<or> finished fs out0 s')"
proof (cases l)
  case (Recv i)
  then show ?thesis using receiving_recv [OF assms(2)] assms(3) by blast
next
  case (Store i)
  then show ?thesis using receiving_store [OF assms(1,2)] assms(3) by blast
next
  case (Rotate i)
  have "thr s i = Idle \<or> (\<exists>p. thr s i = AtStore p 0)"
    using assms(2) by (cases "i < length fs") (auto simp: receiving_def Let_def thread_inv_def)
  then show ?thesis using assms(3) Rotate by (auto simp: exec_def)
next
  case Judge
  then show ?thesis using receiving_judge [OF assms(1,2)] assms(3) by blast
qed

definition inv :: "int \<Rightarrow> byte list list \<Rightarrow> ostream \<Rightarrow> run \<Rightarrow> bool" where
  "inv cap fs out0 s \<longleftrightarrow> receiving cap fs out0 s \<or> finished fs out0 s"

lemma inv_exec:
  assumes "group_ok cap fs out0" "inv cap fs out0 s" "exec cap l s = Some res"
  shows "\<exists>s'. res = Inr s' \<and> inv cap fs out0 s'"
  using receiving_step [OF assms(1) _ assms(3)] finished_step [OF _ assms(3)] assms(2) unfolding inv_def by blast

lemma inv_steps: "steps cap s s' \<Longrightarrow> group_ok cap fs out0 \<Longrightarrow> inv cap fs out0 s \<Longrightarrow> inv cap fs out0 s'"
proof (induction rule: steps.induct)
  case (more s s' s'')
  have i: "inv cap fs out0 s'" using more by blast
  from more.hyps(2) obtain l where "exec cap l s' = Some (Inr s'')" by (rule stepE)
  then show ?case using inv_exec [OF more.prems(1) i] by fastforce
qed

subsection \<open>The start\<close>

lemma start_receiving:
  assumes ok: "group_ok cap (map concat pieces) out0" and fresh: "group_fresh cap pieces g" and ne: "\<forall>ps \<in> set pieces. [] \<notin> set ps"
  shows "receiving cap (map concat pieces) out0 (start_from g out0 pieces)"
proof -
  let ?n = "length pieces" and ?s = "start_from g out0 pieces"
  have nz: "pieces \<noteq> []" using ok by (auto simp: group_ok_def)
  have hd: "hd (map concat pieces) = concat (hd pieces)" using nz by (simp add: hd_map)
  have pos: "0 < length (concat (hd pieces))" using ok unfolding group_ok_def hd by blast
  have g: "file_size g = int (length (concat (hd pieces)))" "\<forall>k < 2. buf_full_num g k = 0" using fresh by (simp_all add: group_fresh_def)
  have ff: "file_fresh cap (get_file g i)" if "i < ?n" for i using fresh that by (simp add: group_fresh_def)
  have nc: "\<not> complete g i" if "i < ?n" for i using ff [OF that] g(1) pos by (simp add: complete_def file_fresh_def)
  have inv: "info_inv cap g i \<and> thread_inv (map concat pieces ! i) ?s i" if i: "i < ?n" for i
  proof -
    have "[] \<notin> set (pieces ! i)" using ne i by simp
    then have "\<forall>p \<in> set (pieces ! i). p \<noteq> []" by metis
    then show ?thesis
      using ff [OF i] nc [OF i] i
      by (simp add: info_inv_def thread_inv_def rest_def in_flight_def file_fresh_def info_of_def contents_def)
  qed
  have none: "{i. i < ?n \<and> complete g i} = {}" using nc by blast
  show ?thesis
    using inv none g fresh unfolding receiving_def Let_def by (simp add: hd group_fresh_def)
qed

subsection \<open>Progress\<close>

definition work :: "nat \<Rightarrow> run \<Rightarrow> nat" where
  "work n s = (\<Sum>i < n. 2 * length (todo s i) + (if thr s i = Idle then 0 else 1))"

lemma work_less:
  assumes "i < n" "\<forall>j. j \<noteq> i \<longrightarrow> thr s' j = thr s j \<and> todo s' j = todo s j"
    and "2 * length (todo s' i) + (if thr s' i = Idle then 0 else 1) < 2 * length (todo s i) + (if thr s i = Idle then 0 else 1)"
  shows "work n s' < work n s"
  unfolding work_def
proof (rule sum_strict_mono_ex1)
  show "\<forall>j \<in> {..<n}. 2 * length (todo s' j) + (if thr s' j = Idle then 0 else 1)
      \<le> 2 * length (todo s j) + (if thr s j = Idle then 0 else 1)"
  proof
    fix j
    show "2 * length (todo s' j) + (if thr s' j = Idle then 0 else 1) \<le> 2 * length (todo s j) + (if thr s j = Idle then 0 else 1)"
      using assms(2,3) by (cases "j = i") auto
  qed
  show "\<exists>j \<in> {..<n}. 2 * length (todo s' j) + (if thr s' j = Idle then 0 else 1)
      < 2 * length (todo s j) + (if thr s j = Idle then 0 else 1)"
    using assms(1,3) by (intro bexI [of _ i]) simp_all
qed simp

lemma receiving_works:
  assumes ok: "group_ok cap fs out0" and r: "receiving cap fs out0 s" and w: "0 < work (length fs) s"
  shows "\<exists>s'. steps cap s s' \<and> receiving cap fs out0 s' \<and> work (length fs) s' < work (length fs) s"
proof -
  obtain i where i: "i < length fs" "todo s i \<noteq> [] \<or> thr s i \<noteq> Idle"
  proof (rule ccontr)
    assume "\<not> thesis"
    then have "\<forall>i < length fs. todo s i = [] \<and> thr s i = Idle" using that by blast
    then have "work (length fs) s = 0" unfolding work_def by (intro sum.neutral) simp
    then show False using w by simp
  qed
  have ti: "thread_inv (fs ! i) s i" using r i(1) by (simp add: receiving_def Let_def)
  have flags: "xor_flag (group s) = 0" "correct_flag (group s) = 0" using r by (simp_all add: receiving_def Let_def)
  show ?thesis
  proof (cases "thr s i = Idle")
    case True
    then obtain p ps where p: "todo s i = p # ps" using i(2) by (cases "todo s i") auto
    let ?s = "s\<lparr>thr := (thr s)(i := AtStore p 0), todo := (todo s)(i := ps)\<rparr>"
    have ex: "exec cap (Recv i) s = Some (Inr ?s)" using True p flags by (simp add: exec_def)
    have "receiving cap fs out0 ?s" using receiving_recv [OF r ex] by simp
    moreover have "work (length fs) ?s < work (length fs) s" by (rule work_less [OF i(1)]) (use True p in auto)
    ultimately show ?thesis using steps_one [OF ex] by blast
  next
    case False
    then obtain p where p: "thr s i = AtStore p 0" using ti by (auto simp: thread_inv_def)
    then obtain res where ex: "exec cap (Store i) s = Some res"
      by (cases "store_step cap i p (int (length p)) 0 (group s)") (simp_all add: exec_def)
    obtain s' where s': "res = Inr s'" "receiving cap fs out0 s'" using receiving_store [OF ok r ex] by blast
    have td: "todo s' = todo s" "\<forall>j. j \<noteq> i \<longrightarrow> thr s' j = thr s j" and th: "thr s' i = Idle \<or> (\<exists>b f. thr s' i = AtRotate b f)"
      using ex p s'(1) by (auto simp: exec_def split: sum.splits if_splits)
    have "thread_inv (fs ! i) s' i" using s'(2) i(1) by (simp add: receiving_def Let_def)
    then have idle: "thr s' i = Idle" using th by (auto simp: thread_inv_def)
    have "work (length fs) s' < work (length fs) s" by (rule work_less [OF i(1)]) (use td idle False in auto)
    then show ?thesis using steps_one ex s' by blast
  qed
qed

lemma receiving_all:
  assumes ok: "group_ok cap fs out0" and r: "receiving cap fs out0 s" and w: "work (length fs) s = 0"
  shows "buf_full_num (group s) 0 = file_num (group s)"
proof -
  have "complete (group s) i" if i: "i < length fs" for i
  proof -
    have "2 * length (todo s i) + (if thr s i = Idle then 0 else 1) = 0"
      using w i unfolding work_def by simp
    then have "rest s i = []" by (auto simp: rest_def in_flight_def split: if_splits)
    moreover have "thread_inv (fs ! i) s i" "info_inv cap (group s) i" "file_size (group s) = int (length (hd fs))"
      using r i by (simp_all add: receiving_def Let_def)
    ultimately show ?thesis using group_ok_length [OF ok i] by (simp add: thread_inv_def info_inv_def complete_def)
  qed
  then have "{i. i < length fs \<and> complete (group s) i} = {..<length fs}" by auto
  then show ?thesis using r by (simp add: receiving_def Let_def)
qed

lemma judge_steps: "exec cap Judge s = Some (Inr s') \<Longrightarrow> steps cap s' t \<Longrightarrow> steps cap s t"
  by (meson steps_one steps_trans)

lemma judge_enabled: "\<forall>r. consumer s \<noteq> Done r \<Longrightarrow> \<exists>res. exec cap Judge s = Some res"
  by (cases "consumer s") (auto simp: exec_def exec_judge_def Let_def split: sum.splits)

text \<open>With all files complete the consumer reaches \<open>buf_xor\<close> in at most three steps.\<close>

lemma receiving_to_xor:
  assumes "receiving cap fs out0 s" "fs \<noteq> []" "buf_full_num (group s) 0 = file_num (group s)"
  shows "steps cap s (s\<lparr>consumer := Xor 0\<rparr>)"
proof -
  let ?at = "\<lambda>c. s\<lparr>consumer := c\<rparr>"
  have g: "file_num (group s) = int (length fs)" "buf_full_num (group s) 1 = 0" "xor_flag (group s) = 0" "correct_flag (group s) = 0"
      and c: "consumer s \<in> {Poll 0, Poll 1, Check, Xor 0}"
    using assms(1) by (auto simp: receiving_def Let_def)
  have a: "steps cap (?at (Poll 0)) (?at (Xor 0))"
    by (rule steps_one [of _ Judge]) (use assms(3) in \<open>simp add: exec_def exec_judge_def Let_def\<close>)
  have b: "steps cap (?at Check) (?at (Xor 0))"
    by (rule judge_steps [OF _ a]) (use g in \<open>simp add: exec_def exec_judge_def Let_def\<close>)
  have d: "steps cap (?at (Poll 1)) (?at (Xor 0))"
    by (rule judge_steps [OF _ b]) (use g assms(2) in \<open>simp add: exec_def exec_judge_def Let_def\<close>)
  have "s = ?at (consumer s)" by simp
  then show ?thesis using a b d c by (metis insert_iff singletonD steps.refl)
qed

lemma receiving_finishes:
  assumes ok: "group_ok cap fs out0" and r: "receiving cap fs out0 s" and w: "work (length fs) s = 0"
  shows "\<exists>s'. steps cap s s' \<and> finished fs out0 s'"
proof -
  have full: "buf_full_num (group s) 0 = file_num (group s)" by (rule receiving_all [OF assms])
  let ?s = "s\<lparr>consumer := Xor 0\<rparr>"
  have st: "steps cap s ?s" using receiving_to_xor [OF r _ full] ok by (simp add: group_ok_def)
  have rx: "receiving cap fs out0 ?s" using r full by (simp add: receiving_def Let_def thread_inv_def rest_def)
  obtain res where ex: "exec cap Judge ?s = Some res" using judge_enabled [of ?s] by auto
  obtain t where t: "res = Inr t" "receiving cap fs out0 t \<or> finished fs out0 t" using receiving_judge [OF ok rx ex] by blast
  have "consumer t = ResetNum 0" using ex t(1) by (auto simp: exec_def exec_judge_def Let_def split: sum.splits if_splits)
  then have "finished fs out0 t" using t(2) by (auto simp: receiving_def Let_def)
  then show ?thesis using steps_trans [OF steps_one st] ex t(1) by blast
qed

text \<open>Behind \<open>buf_xor\<close> the consumer clears the flags and leaves its loop.\<close>

lemma finished_check:
  assumes "finished fs out0 s" "consumer s = Check"
  shows "\<exists>s'. steps cap s s' \<and> consumer s' = Done RIGHT"
proof -
  have "exec cap Judge s = Some (Inr (s\<lparr>consumer := Done RIGHT\<rparr>))"
    using assms by (simp add: finished_def exec_def exec_judge_def judge_verdict_def Let_def)
  from steps_one [OF this] show ?thesis by (intro exI conjI [rotated]) simp_all
qed

lemma finished_resets:
  assumes "finished fs out0 s" "consumer s = ResetFlag 0 i"
  shows "\<exists>s'. steps cap s s' \<and> consumer s' = Done RIGHT"
  using assms
proof (induction "length fs - i" arbitrary: s i rule: less_induct)
  case less
  have n: "nat (file_num (group s)) = length fs" using less.prems(1) by (simp add: finished_def)
  obtain res where ex: "exec cap Judge s = Some res" using judge_enabled [of s cap] less.prems(2) by auto
  obtain t where t: "res = Inr t" "finished fs out0 t" using finished_step [OF less.prems(1) ex] by blast
  show ?case
  proof (cases "i < length fs")
    case True
    have "consumer t = ResetFlag 0 (Suc i)" using ex t(1) less.prems(2) n True by (auto simp: exec_def exec_judge_def Let_def)
    then obtain u where "steps cap t u" "consumer u = Done RIGHT" using less.hyps [of "Suc i" t] True t(2) diff_less_mono2 [of i "Suc i" "length fs"] by auto
    then show ?thesis using judge_steps ex t(1) by blast
  next
    case False
    have "consumer t = Check" using ex t(1) less.prems(2) n False by (auto simp: exec_def exec_judge_def Let_def)
    then obtain u where "steps cap t u" "consumer u = Done RIGHT" using finished_check [OF t(2)] by blast
    then show ?thesis using judge_steps ex t(1) by blast
  qed
qed

lemma finished_ends:
  assumes "finished fs out0 s"
  shows "\<exists>s'. steps cap s s' \<and> consumer s' = Done RIGHT"
proof -
  consider "consumer s = ResetNum 0" | "consumer s = Check" | "consumer s = Done RIGHT" | i where "consumer s = ResetFlag 0 i"
    using assms by (auto simp: finished_def)
  then show ?thesis
  proof cases
    case 1
    have ex: "exec cap Judge s = Some (Inr (s\<lparr>group := reset_num 0 (group s), consumer := ResetFlag 0 0\<rparr>))"
      using 1 by (simp add: exec_def exec_judge_def Let_def)
    let ?t = "s\<lparr>group := reset_num 0 (group s), consumer := ResetFlag 0 0\<rparr>"
    have "finished fs out0 ?t" using finished_step [OF assms ex] by simp
    then obtain u where "steps cap ?t u" "consumer u = Done RIGHT" using finished_resets [of fs out0 ?t 0] by auto
    then show ?thesis using judge_steps [OF ex] by blast
  next
    case 3
    then show ?thesis using steps.refl by blast
  qed (use finished_check finished_resets assms in blast)+
qed

lemma inv_ends:
  assumes ok: "group_ok cap fs out0" and "inv cap fs out0 s"
  shows "\<exists>s'. steps cap s s' \<and> consumer s' = Done RIGHT"
proof -
  have "\<exists>s'. steps cap s s' \<and> consumer s' = Done RIGHT" if "receiving cap fs out0 s" for s
    using that
  proof (induction "work (length fs) s" arbitrary: s rule: less_induct)
    case less
    show ?case
    proof (cases "work (length fs) s = 0")
      case True
      then obtain t where "steps cap s t" "finished fs out0 t" using receiving_finishes [OF ok less.prems] by blast
      then show ?thesis using finished_ends steps_trans by blast
    next
      case False
      then obtain t where t: "steps cap s t" "receiving cap fs out0 t" "work (length fs) t < work (length fs) s"
        using receiving_works [OF ok less.prems] by auto
      then show ?thesis using less.hyps [OF t(3,2)] steps_trans by blast
    qed
  qed
  then show ?thesis using assms(2) finished_ends unfolding inv_def by blast
qed

lemma inv_reached:
  assumes "group_ok cap (map concat pieces) out0" "group_fresh cap pieces g" "\<forall>ps \<in> set pieces. [] \<notin> set ps" "steps cap (start_from g out0 pieces) s"
  shows "inv cap (map concat pieces) out0 s"
proof (rule inv_steps [OF assms(4,1)])
  show "inv cap (map concat pieces) out0 (start_from g out0 pieces)"
    unfolding inv_def using start_receiving [OF assms(1-3)] ..
qed

lemma inv_done:
  "inv cap fs out0 s \<Longrightarrow> consumer s = Done r \<Longrightarrow> r = RIGHT \<and> written (out s) = written out0 @ parity fs"
  by (auto simp: inv_def receiving_def finished_def after_parity_def Let_def)

subsection \<open>The group\<close>

text \<open>C7. Files of one length that fit into one buffer, received in pieces of any size and under every
  interleaving of their threads with the consumer: no step reads or writes outside a buffer or one that
  was freed, the output is not touched until the group is complete, and when \<open>judge_xor_condition\<close>
  returns it reports success and the parity of the files has been written.\<close>

theorem group_one_buffer_safe:
  assumes "group_ok cap (map concat pieces) out0" "group_fresh cap pieces g" "\<forall>ps \<in> set pieces. [] \<notin> set ps"
    and "steps cap (start_from g out0 pieces) s"
  shows "\<not> can_fault cap s \<and> (xor_flag (group s) = 0 \<longrightarrow> out s = out0)
    \<and> (\<forall>r. consumer s = Done r \<longrightarrow> r = RIGHT \<and> written (out s) = written out0 @ parity (map concat pieces))"
proof -
  have i: "inv cap (map concat pieces) out0 s" by (rule inv_reached [OF assms])
  have "\<not> can_fault cap s" using inv_exec [OF assms(1) i] by (fastforce simp: can_fault_def)
  moreover have "xor_flag (group s) = 0 \<longrightarrow> out s = out0" using i by (auto simp: inv_def receiving_def finished_def Let_def)
  moreover have "\<forall>r. consumer s = Done r \<longrightarrow> r = RIGHT \<and> written (out s) = written out0 @ parity (map concat pieces)"
    using inv_done [OF i] by blast
  ultimately show ?thesis by blast
qed

definition two_small_files :: "byte list list list" where
  "two_small_files = [[[1], [2]], [[4, 8]]]"

definition small_run :: "label list" where
  "small_run = [Recv 0, Store 0, Judge, Recv 1, Recv 0, Store 1, Judge, Store 0] @ replicate 8 Judge"

lemma small_run_result:
  "map_option (\<lambda>s. (consumer s, written (out s))) (exec_all 2 small_run (start 2 \<lparr>written = [9], room = 4\<rparr> two_small_files))
    = Some (Done RIGHT, [9, 5, 10])"
  by code_simp

lemma two_small_files_ok:
  "group_ok 2 (map concat two_small_files) \<lparr>written = [9], room = 4\<rparr>"
  "group_fresh 2 two_small_files (fresh_group 2 (length two_small_files) (int (length (concat (hd two_small_files)))))" "\<forall>ps \<in> set two_small_files. [] \<notin> set ps"
  by (simp add: group_ok_def two_small_files_def, rule fresh_group_fresh, simp, simp add: two_small_files_def)

lemma group_one_buffer_safe_witness:
  "\<exists>s. steps 2 (start 2 \<lparr>written = [9], room = 4\<rparr> two_small_files) s \<and> consumer s = Done RIGHT
    \<and> \<not> can_fault 2 s \<and> written (out s) = [9] @ parity (map concat two_small_files)"
proof -
  obtain s where s: "exec_all 2 small_run (start 2 \<lparr>written = [9], room = 4\<rparr> two_small_files) = Some s" "consumer s = Done RIGHT"
    using small_run_result by auto
  note st = exec_all_steps [OF s(1), unfolded start_def]
  show ?thesis unfolding start_def using group_one_buffer_safe [OF two_small_files_ok st] s(2) st by (intro exI [of _ s]) simp
qed

text \<open>From every state such a group can reach, its threads and the consumer can go on until
  \<open>judge_xor_condition\<close> returns success: no interleaving gets stuck.\<close>

theorem group_one_buffer_ends:
  assumes "group_ok cap (map concat pieces) out0" "group_fresh cap pieces g" "\<forall>ps \<in> set pieces. [] \<notin> set ps"
    and "steps cap (start_from g out0 pieces) s"
  shows "\<exists>s'. steps cap s s' \<and> consumer s' = Done RIGHT"
  by (rule inv_ends [OF assms(1) inv_reached [OF assms]])

lemma group_one_buffer_ends_witness:
  "\<exists>s'. steps 2 (start 2 \<lparr>written = [9], room = 4\<rparr> two_small_files) s' \<and> consumer s' = Done RIGHT"
  unfolding start_def by (rule group_one_buffer_ends [OF two_small_files_ok steps.refl])

end
