(* ===== verification/GroupRace.thy ===== *)
theory GroupRace
  imports GroupRun
begin

text \<open>
  Files that need both buffers: two interleavings of the steps of \<open>GroupRun\<close> that the code allows, one
  that ends with a wrong file reported as right, one that ends in a state the group never leaves. The
  runs are executed by the definitions; the capacity of the buffers is a parameter of the model, two
  bytes here.
\<close>

subsection \<open>The consumer overtakes\<close>

text \<open>Two files of three bytes, buffers of two bytes: the consumer reads \<open>buf_full_num[0]\<close> before the second
  thread has filled any buffer and \<open>buf_full_num[1]\<close> after it has filled both.\<close>

definition thread_run :: "nat \<Rightarrow> label list" where
  "thread_run i = [Recv i, Store i, Recv i, Store i, Rotate i, Store i]"

definition overtaking :: "label list" where
  "overtaking = thread_run 0 @ [Judge] @ thread_run 1 @ replicate 14 Judge"

definition two_files :: run where
  "two_files = start 2 \<lparr>written = [], room = 9\<rparr> [[[1, 2], [3]], [[4, 8], [16]]]"

lemma overtaking_result:
  "map_option (\<lambda>s. (consumer s, written (out s))) (exec_all 2 overtaking two_files) = Some (Done RIGHT, [19, 5, 10])"
  by code_simp

text \<open>C22. Files that need both buffers can be received so that the consumer XORs buffer 1 before buffer 0:
  \<open>judge_xor_condition\<close> (run as in \<open>src/get_data_client_file_data.cpp\<close> lines 850 to 871) returns success
  and the file written is not the parity of the files, its last byte comes first.\<close>

theorem consumer_overtakes:
  "\<exists>s. steps 2 two_files s \<and> consumer s = Done RIGHT \<and> written (out s) = [19, 5, 10]
    \<and> parity [[1, 2, 3], [4, 8, 16]] = [5, 10, 19]"
proof -
  obtain s where s: "exec_all 2 overtaking two_files = Some s" "consumer s = Done RIGHT" "written (out s) = [19, 5, 10]"
    using overtaking_result by auto
  have "parity [[1, 2, 3], [4, 8, 16]] = [5, 10, 19]" by code_simp
  then show ?thesis using exec_all_steps [OF s(1)] s(2,3) by blast
qed

text \<open>The first thread is at the second part of its loop body while the consumer clears the flags of both
  files: it takes buffer 0 again, the second thread has taken buffer 1.\<close>

definition crossing :: "label list" where
  "crossing = [Recv 0, Store 0, Recv 0, Store 0] @ thread_run 1 @ replicate 6 Judge @ [Rotate 0, Store 0]"

definition two_files4 :: run where
  "two_files4 = start 2 \<lparr>written = [], room = 9\<rparr> [[[1, 2], [3, 4]], [[5, 6], [7, 8]]]"

definition run_summary :: "run \<Rightarrow> consumer \<times> int list \<times> thread list \<times> byte list list list" where
  "run_summary s = (consumer s,
     [file_num (group s), buf_full_num (group s) 0, buf_full_num (group s) 1, xor_flag (group s), correct_flag (group s)],
     [thr s 0, thr s 1], [todo s 0, todo s 1])"

lemma crossing_result:
  "map_option run_summary (exec_all 2 crossing two_files4) = Some (Check, [2, 1, 1, 0, 0], [Idle, Idle], [[], []])"
  by code_simp

fun thread_of :: "label \<Rightarrow> nat option" where
  "thread_of (Recv i) = Some i"
| "thread_of (Store i) = Some i"
| "thread_of (Rotate i) = Some i"
| "thread_of Judge = None"

lemma exec_other:
  assumes "exec cap l s = Some (Inr s')" "thread_of l \<noteq> Some i"
  shows "thr s' i = thr s i \<and> todo s' i = todo s i"
  using assms
  by (cases l) (auto simp: exec_def exec_judge_def Let_def split: thread.splits list.splits sum.splits consumer.splits if_splits)

lemma exec_all_other:
  assumes "exec_all cap ls s = Some s'" "\<forall>l \<in> set ls. thread_of l \<noteq> Some i"
  shows "thr s' i = thr s i \<and> todo s' i = todo s i"
  using assms
proof (induction ls arbitrary: s)
  case (Cons l ls)
  then obtain t where "exec cap l s = Some (Inr t)" "exec_all cap ls t = Some s'"
    by (auto split: option.splits sum.splits)
  then show ?case using exec_other [of cap l s t i] Cons by simp
qed simp

definition stuck :: "run \<Rightarrow> bool" where
  "stuck s \<longleftrightarrow> buf_full_num (group s) 0 \<noteq> file_num (group s) \<and> buf_full_num (group s) 1 \<noteq> file_num (group s)
     \<and> xor_flag (group s) = 0 \<and> correct_flag (group s) = 0 \<and> (\<forall>i. thr s i = Idle \<and> todo s i = [])
     \<and> consumer s \<in> {Poll 0, Poll 1, Check}"

lemma stuck_step: "step cap s s' \<Longrightarrow> stuck s \<Longrightarrow> stuck s'"
proof (induction rule: step.induct)
  case (step l s s')
  then show ?case by (cases l) (auto simp: exec_def exec_judge_def stuck_def Let_def)
qed

lemma stuck_steps: "steps cap s s' \<Longrightarrow> stuck s \<Longrightarrow> stuck s'"
  by (induction rule: steps.induct) (auto intro: stuck_step)

lemma crossing_stuck: "\<exists>s. steps 2 two_files4 s \<and> stuck s"
proof -
  obtain s where s: "exec_all 2 crossing two_files4 = Some s"
      "run_summary s = (Check, [2, 1, 1, 0, 0], [Idle, Idle], [[], []])"
    using crossing_result by auto
  have "thr s i = Idle \<and> todo s i = []" for i
  proof (cases "i < 2")
    case True
    then show ?thesis using s(2) by (auto simp: run_summary_def less_2_cases_iff)
  next
    case False
    have "\<forall>l \<in> set crossing. thread_of l \<noteq> Some i"
      using False by (auto simp: crossing_def thread_run_def)
    then have "thr s i = thr two_files4 i \<and> todo s i = todo two_files4 i" using exec_all_other [OF s(1)] by blast
    then show ?thesis using False by (simp add: two_files4_def start_def)
  qed
  then have "stuck s" using s(2) by (simp add: run_summary_def stuck_def)
  then show ?thesis using exec_all_steps [OF s(1)] by blast
qed

text \<open>C23. Two files of two buffers each can be received so that one thread has filled buffer 0 twice and
  the other buffer 1: neither counter ever reaches the number of files, every piece has been received, and
  \<open>judge_xor_condition\<close> never returns whatever happens next.\<close>

theorem group_deadlocks:
  "\<exists>s. steps 2 two_files4 s \<and> (\<forall>i. thr s i = Idle \<and> todo s i = []) \<and> (\<forall>s' r. \<not> (steps 2 s s' \<and> consumer s' = Done r))"
proof -
  obtain s where s: "steps 2 two_files4 s" "stuck s" using crossing_stuck by blast
  have "consumer s' \<noteq> Done r" if "steps 2 s s'" for s' r using stuck_steps [OF that s(2)] by (auto simp: stuck_def)
  then show ?thesis using s by (auto simp: stuck_def)
qed

end
