(* ===== verification/GroupMemory.thy ===== *)
theory GroupMemory
  imports GroupSafe
begin

text \<open>
  Files of any size: what every interleaving of the threads and the consumer keeps, whatever becomes of
  the order of the bytes. Each thread's buffers stay well formed, the bytes a thread has
  stored are the ones already XORed, the ones in its two buffers, and nothing else, and
  \<open>buf_full_num[k]\<close> counts the files whose buffer \<open>k\<close> is full and not yet XORed. When the number of XORed
  bytes reaches the size of the files, nothing is left to be received, so the buffers that \<open>buf_xor\<close> frees are not
  used again.
\<close>

subsection \<open>One file\<close>

text \<open>The bytes of a file that its thread has still to store: what is left of the piece in flight, and the
  pieces to come.\<close>

definition position :: "thread \<Rightarrow> in_file_info \<Rightarrow> int" where
  "position t b = (case t of Idle \<Rightarrow> 0 | AtStore p fl \<Rightarrow> from_pos fl b | AtRotate p fl \<Rightarrow> from_pos fl b)"

definition unstored :: "thread \<Rightarrow> in_file_info \<Rightarrow> byte list list \<Rightarrow> byte list" where
  "unstored t b td = drop (nat (position t b)) (in_flight t) @ concat td"

definition flag_of :: "thread \<Rightarrow> int" where
  "flag_of t = (case t of Idle \<Rightarrow> 0 | AtStore p fl \<Rightarrow> fl | AtRotate p fl \<Rightarrow> fl)"

definition pieces_ok :: "int \<Rightarrow> byte list list \<Rightarrow> bool" where
  "pieces_ok cap ps \<longleftrightarrow> (\<forall>p \<in> set ps. p \<noteq> [] \<and> int (length p) \<le> cap)"

text \<open>A file \<open>f\<close> of \<open>size\<close> bytes, its thread \<open>t\<close> and the pieces \<open>td\<close> it has still to receive.\<close>

definition flags_ok :: "int \<Rightarrow> in_file_info \<Rightarrow> bool \<Rightarrow> bool" where
  "flags_ok cap b ended \<longleftrightarrow> (\<forall>k < 2. buf_flag b k \<in> {0, 1, 2} \<and> (buf_flag b k = 2 \<longrightarrow> buf_size b k = cap \<or> ended))
     \<and> \<not> (buf_flag b 0 = 1 \<and> buf_flag b 1 = 1)"

definition file_inv :: "int \<Rightarrow> int \<Rightarrow> single_file_info \<Rightarrow> thread \<Rightarrow> byte list list \<Rightarrow> bool" where
  "file_inv cap sz f t td \<longleftrightarrow>
     (let b = in_buf_info f
      in buf_wf cap b \<and> flags_ok cap b (t = Idle \<and> td = []) \<and> pieces_ok cap td
        \<and> (t \<noteq> Idle \<longrightarrow> pieces_ok cap [in_flight t] \<and> 0 \<le> position t b \<and> position t b < int (length (in_flight t)))
        \<and> (flag_of t = 1 \<longrightarrow> (\<forall>k < 2. buf_flag b k = 1 \<longrightarrow> buf_size b k = 0))
        \<and> file_index f + int (length (in_flight t)) + int (length (concat td)) = sz)"

text \<open>What buffer \<open>k\<close> holds that the consumer has not XORed; \<open>x k\<close> tells that it has XORed buffer \<open>k\<close> and not
  cleared the flag yet.\<close>

definition pending :: "(nat \<Rightarrow> bool) \<Rightarrow> in_file_info \<Rightarrow> nat \<Rightarrow> byte list" where
  "pending x b k = (if buf_flag b k = 0 \<or> x k then [] else contents b k)"

text \<open>\<open>xs\<close> has been stored into buffer \<open>k\<close>; \<open>full\<close> tells that the buffer has become full.\<close>

definition advance :: "nat \<Rightarrow> bool \<Rightarrow> byte list \<Rightarrow> in_file_info \<Rightarrow> in_file_info \<Rightarrow> bool" where
  "advance k full xs b b' \<longleftrightarrow> k < 2 \<and> (full \<or> xs \<noteq> [] \<longrightarrow> buf_flag b k = 1)
     \<and> buf_flag b' = (if full then (buf_flag b)(k := 2) else buf_flag b)
     \<and> (\<forall>x. (\<forall>j < 2. x j \<longrightarrow> buf_flag b j = 2) \<longrightarrow>
          (\<forall>j < 2. pending x b' j = pending x b j @ (if j = k then xs else [])))"

lemma advance_appended:
  assumes "appended cap k xs b b'" "buf_flag b k = 1" "k < 2"
    and "buf_flag b' = (if full then (buf_flag b)(k := 2) else buf_flag b)"
  shows "advance k full xs b b'"
  using assms by (auto simp: advance_def appended_def pending_def)

lemma advance_refl: "advance 0 False [] b b"
  by (simp add: advance_def)

text \<open>The first part of the loop body of \<open>write_buf\<close>: the file \<open>f'\<close> behind it, and the bytes \<open>xs\<close> it has stored.\<close>

lemma concat_pieces: "pieces_ok cap ps \<Longrightarrow> concat ps = [] \<longleftrightarrow> ps = []"
  by (cases ps) (auto simp: pieces_ok_def)

lemma active_cases: "(\<exists>k. active b k) \<or> buf_flag b 0 \<noteq> 1 \<and> buf_flag b 1 \<noteq> 1"
proof (cases "buf_flag b 0 = 1")
  case True
  then have "active b 0" by (simp add: active_def)
  then show ?thesis by blast
next
  case False
  then have "buf_flag b 1 = 1 \<Longrightarrow> active b 1" by (simp add: active_def)
  then show ?thesis using False by blast
qed

lemma flags_ok_store:
  assumes "flags_ok cap b e" "buf_flag b k = 1" "k < 2" "buf_flag b' = (if full then (buf_flag b)(k := 2) else buf_flag b)"
    and "\<forall>j < 2. j \<noteq> k \<longrightarrow> buf_size b' j = buf_size b j" "full \<Longrightarrow> buf_size b' k = cap \<or> e'" "e \<Longrightarrow> e'"
  shows "flags_ok cap b' e'"
  unfolding flags_ok_def
proof (intro conjI allI impI)
  fix j :: nat
  assume j: "j < 2"
  then have "buf_flag b j \<in> {0, 1, 2}" and full: "buf_flag b j = 2 \<longrightarrow> buf_size b j = cap \<or> e"
    using assms(1) unfolding flags_ok_def by blast+
  then show "buf_flag b' j \<in> {0, 1, 2}" using assms(4) by simp
  assume "buf_flag b' j = 2"
  then show "buf_size b' j = cap \<or> e'"
    using assms(2,4-7) j full by (cases "j = k") (auto split: if_splits)
next
  have "\<not> (buf_flag b 0 = 1 \<and> buf_flag b 1 = 1)" using assms(1) by (simp add: flags_ok_def)
  then show "\<not> (buf_flag b' 0 = 1 \<and> buf_flag b' 1 = 1)" using assms(4) by (auto split: if_splits)
qed

lemma store_file:
  fixes g i
  defines "f \<equiv> get_file g i"
  assumes "file_inv cap (file_size g) f (AtStore p fl) td"
  shows "\<exists>d fl' f' k full xs. store_step cap i p (int (length p)) fl g = Inr (d, fl', (if full then bump k else id) (put_file i f' g))
    \<and> (let t = if d then Idle else AtRotate p fl' in file_inv cap (file_size g) f' t td
        \<and> advance k full xs (in_buf_info f) (in_buf_info f')
        \<and> unstored (AtStore p fl) (in_buf_info f) td = xs @ unstored t (in_buf_info f') td)
    \<and> ((\<exists>j. active (in_buf_info f) j) \<longrightarrow> (if d then full \<longleftrightarrow> td = [] else full))"
proof -
  let ?b = "in_buf_info f" and ?len = "int (length p)"
  have wf: "buf_wf cap ?b" and fl: "flags_ok cap ?b False" and td: "pieces_ok cap td" and p: "p \<noteq> []" "?len \<le> cap"
    and pos: "0 \<le> from_pos fl ?b" "from_pos fl ?b < ?len" and empty: "fl = 1 \<Longrightarrow> k < 2 \<Longrightarrow> buf_flag ?b k = 1 \<Longrightarrow> buf_size ?b k = 0"
    and idx: "file_index f + ?len + int (length (concat td)) = file_size g" for k
    using assms(2) by (auto simp: file_inv_def Let_def pieces_ok_def position_def in_flight_def flag_of_def)
  consider (none) "buf_flag ?b 0 \<noteq> 1" "buf_flag ?b 1 \<noteq> 1"
    | (fits) k where "active ?b k" "buf_size ?b k + ?len \<le> cap"
    | (spills) k where "active ?b k" "cap < buf_size ?b k + ?len"
    using active_cases [of ?b] by (metis not_le)
  then show ?thesis
  proof cases
    case none
    have inactive: "\<nexists>j. active ?b j" using none by (metis One_nat_def active_def less_2_cases)
    have "store_step cap i p ?len fl g = Inr (False, fl, put_file i f g)"
      using none by (simp add: store_step_def Let_def f_def put_file_def get_file_def)
    moreover have "file_inv cap (file_size g) f (AtRotate p fl) td"
      using assms(2) by (simp add: file_inv_def position_def in_flight_def flag_of_def)
    ultimately show ?thesis
      using advance_refl [of ?b] inactive
      by (intro exI [of _ False] exI [of _ fl] exI [of _ f] exI [of _ 0] exI [of _ "[]"])
         (simp add: unstored_def position_def in_flight_def)
  next
    case fits
    note k = fits(1)
    have k2: "k < 2" "buf_flag ?b k = 1" using k by (simp_all add: active_def)
    let ?last = "file_size g \<le> file_index f + ?len"
    let ?xs = "drop (nat (from_pos fl ?b)) p"
    obtain b' where b': "store cap k i p ?len fl g = Inr (True, 0, (if ?last then bump k else id)
          (put_file i (f\<lparr>file_index := file_index f + ?len, in_buf_info := b'\<rparr>) g))"
        "appended cap k ?xs ?b b'" "buf_flag b' = (if ?last then (buf_flag ?b)(k := 2) else buf_flag ?b)"
      using store_append [of cap g i k ?len p fl] wf k2(1) fits(2) pos unfolding f_def by auto
    let ?f = "f\<lparr>file_index := file_index f + ?len, in_buf_info := b'\<rparr>"
    have last: "?last \<longleftrightarrow> td = []" using idx concat_pieces [OF td] by (cases "concat td") auto
    have size: "j \<noteq> k \<Longrightarrow> j < 2 \<Longrightarrow> buf_size b' j = buf_size ?b j" for j using b'(2) by (simp add: appended_def)
    have "flags_ok cap b' (td = [])"
      by (rule flags_ok_store [OF fl k2(2,1) b'(3)]) (use size last in simp_all)
    moreover have "buf_wf cap b'" using b'(2) by (simp add: appended_def)
    ultimately have "file_inv cap (file_size g) ?f Idle td"
      using td idx by (simp add: file_inv_def position_def in_flight_def flag_of_def)
    moreover have "advance k ?last ?xs ?b b'" by (rule advance_appended) (use b' k2 in simp_all)
    moreover have "store_step cap i p ?len fl g = store cap k i p ?len fl g"
      using store_step_active k by (simp add: f_def)
    ultimately show ?thesis
      using b'(1) last by (intro exI [of _ True] exI [of _ 0] exI [of _ ?f] exI [of _ k] exI [of _ ?last] exI [of _ ?xs])
        (simp add: unstored_def position_def in_flight_def)
  next
    case spills
    note k = spills(1)
    have k2: "k < 2" "buf_flag ?b k = 1" using k by (simp_all add: active_def)
    have fl0: "fl \<noteq> 1" using empty [OF _ k2] spills(2) p(2) by auto
    let ?cp = "cap - buf_size ?b k"
    obtain b' where b': "store cap k i p ?len fl g = Inr (False, 1, bump k (put_info i b' g))"
        "appended cap k (take (nat ?cp) p) ?b b'" "buf_size b' k = cap" "cp_size b' = ?cp" "buf_flag b' = (buf_flag ?b)(k := 2)"
      using store_spill [of cap g i k ?len p fl] wf k2(1) spills(2) unfolding f_def by auto
    let ?f = "f\<lparr>in_buf_info := b'\<rparr>"
    have cp: "0 \<le> ?cp" "?cp < ?len" using wf k2(1) spills(2) by (auto simp: buf_wf_def)
    have size: "j \<noteq> k \<Longrightarrow> j < 2 \<Longrightarrow> buf_size b' j = buf_size ?b j" for j using b'(2) by (simp add: appended_def)
    have "flags_ok cap b' False"
      by (rule flags_ok_store [OF fl k2(2,1), where full = True]) (use b'(3,5) size in simp_all)
    moreover have "\<forall>j < 2. buf_flag b' j \<noteq> 1"
      using fl b'(5) k2 unfolding flags_ok_def by (auto simp: less_2_cases_iff)
    moreover have "buf_wf cap b'" using b'(2) by (simp add: appended_def)
    ultimately have "file_inv cap (file_size g) ?f (AtRotate p 1) td"
      using td idx p cp b'(4) by (simp add: file_inv_def position_def in_flight_def flag_of_def from_pos_def pieces_ok_def)
    moreover have "advance k True (take (nat ?cp) p) ?b b'" by (rule advance_appended) (use b' k2 in simp_all)
    moreover have "store_step cap i p ?len fl g = Inr (False, 1, bump k (put_file i ?f g))"
      using store_step_active [of g i k] k b'(1) by (simp add: f_def put_info_def)
    ultimately show ?thesis
      using b'(4) fl0
      by (intro exI [of _ False] exI [of _ 1] exI [of _ ?f] exI [of _ k] exI [of _ True] exI [of _ "take (nat ?cp) p"])
         (simp add: unstored_def position_def in_flight_def from_pos_def)
  qed
qed

text \<open>The second part: an empty buffer becomes the one to be filled.\<close>

definition opened :: "in_file_info \<Rightarrow> in_file_info \<Rightarrow> bool" where
  "opened b b' \<longleftrightarrow> (b' = b \<and> (\<forall>k < 2. buf_flag b k \<noteq> 0 \<or> buf_flag b (1 - k) = 1) \<or> (\<exists>k < 2. buf_flag b k = 0 \<and> buf_flag b (1 - k) \<noteq> 1 \<and> (k = 1 \<longrightarrow> buf_flag b 0 \<noteq> 0)
         \<and> buf_flag b' = (buf_flag b)(k := 1)))
     \<and> (\<forall>x. \<forall>j < 2. pending x b' j = pending x b j)"

lemma writable_opened:
  assumes "buf_flag b k = 0" "buf_flag b (1 - k) \<noteq> 1" "k < 2" "k = 1 \<longrightarrow> buf_flag b 0 \<noteq> 0"
  shows "opened b (b\<lparr>in_buf := (in_buf b)(k := m), buf_flag := (buf_flag b)(k := 1), buf_size := (buf_size b)(k := 0)\<rparr>)"
  using assms unfolding opened_def pending_def contents_def by (intro conjI disjI2 exI [of _ k] allI impI) auto

lemma rotate_file:
  fixes g i
  defines "b \<equiv> in_buf_info (get_file g i)"
  assumes "file_inv cap sz (get_file g i) (AtRotate p fl) td"
  shows "\<exists>b'. rotate_bufs cap i g = Inr (put_info i b' g)
    \<and> file_inv cap sz ((get_file g i)\<lparr>in_buf_info := b'\<rparr>) (AtStore p fl) td \<and> opened b b'
    \<and> unstored (AtStore p fl) b' td = unstored (AtRotate p fl) b td"
proof -
  let ?f = "get_file g i"
  have wf: "buf_wf cap b" and fl: "flags_ok cap b False"
    using assms(2) by (auto simp: file_inv_def Let_def b_def)
  have cap: "0 \<le> cap" using wf by (fastforce simp: buf_wf_def)
  consider (keep) "\<forall>k < 2. buf_flag b k \<noteq> 0 \<or> buf_flag b (1 - k) = 1"
    | (open0) k where "k < 2" "buf_flag b k = 0" "buf_flag b (1 - k) \<noteq> 1" "k = 1 \<longrightarrow> buf_flag b 0 \<noteq> 0"
    by (metis less_2_cases_iff diff_self_eq_0 diff_zero zero_neq_one)
  then show ?thesis
  proof cases
    case keep
    then have "make_writable cap k b = Inr b" if "k < 2" for k using make_writable_id that by blast
    then have "rotate_bufs cap i g = Inr (put_info i b g)" by (simp add: rotate_bufs_def flip: b_def)
    moreover have "opened b b" using keep by (simp add: opened_def)
    moreover have "file_inv cap sz ?f (AtStore p fl) td"
      using assms(2) by (simp add: file_inv_def position_def in_flight_def flag_of_def)
    ultimately show ?thesis
      by (intro exI [of _ b]) (simp add: b_def unstored_def position_def in_flight_def)
  next
    case open0
    let ?b = "b\<lparr>in_buf := (in_buf b)(k := replicate (nat cap) 0), buf_flag := (buf_flag b)(k := 1), buf_size := (buf_size b)(k := 0)\<rparr>"
    have w: "make_writable cap k b = Inr ?b" using wf open0 by (simp add: make_writable_def buf_wf_def)
    have "rotate_bufs cap i g = Inr (put_info i ?b g)"
    proof (cases "k = 0")
      case True
      then show ?thesis using w make_writable_id [of ?b 1] by (simp add: rotate_bufs_def flip: b_def)
    next
      case False
      then have k1: "k = 1" using open0(1) by simp
      then show ?thesis using w make_writable_id [of b 0] open0(4) by (simp add: rotate_bufs_def flip: b_def)
    qed
    moreover have "opened b ?b" by (rule writable_opened [OF open0(2,3,1,4)])
    moreover have "buf_wf cap ?b" using wf cap by (simp add: buf_wf_def)
    moreover have "flags_ok cap ?b False"
      using fl open0 unfolding flags_ok_def by (auto simp: less_2_cases_iff)
    moreover have "file_inv cap sz ((get_file g i)\<lparr>in_buf_info := ?b\<rparr>) (AtStore p fl) td"
      using assms(2) calculation(3,4)
      by (auto simp: file_inv_def Let_def position_def in_flight_def flag_of_def from_pos_def simp flip: b_def)
    ultimately show ?thesis
      by (intro exI [of _ ?b]) (simp add: unstored_def position_def in_flight_def from_pos_def)
  qed
qed

text \<open>\<open>buf_xor\<close> overwrites buffer \<open>k\<close> of the first file.\<close>

definition touched :: "int \<Rightarrow> nat \<Rightarrow> single_file_info \<Rightarrow> single_file_info \<Rightarrow> bool" where
  "touched cap k f f' \<longleftrightarrow> (\<exists>m. length m = nat cap
     \<and> f' = f\<lparr>in_buf_info := (in_buf_info f)\<lparr>in_buf := (in_buf (in_buf_info f))(k := m)\<rparr>\<rparr>)"

lemma touched_refl: "buf_wf cap (in_buf_info f) \<Longrightarrow> k < 2 \<Longrightarrow> touched cap k f f"
  by (auto simp: touched_def buf_wf_def)

lemma touched_inv: "touched cap k f f' \<Longrightarrow> file_inv cap sz f t td \<Longrightarrow> file_inv cap sz f' t td"
  by (auto simp: touched_def file_inv_def Let_def buf_wf_def flags_ok_def position_def from_pos_def split: thread.splits)

lemma touched_same:
  assumes "touched cap k f f'"
  shows "buf_flag (in_buf_info f') = buf_flag (in_buf_info f)" "buf_size (in_buf_info f') = buf_size (in_buf_info f)"
    and "unstored t (in_buf_info f') td = unstored t (in_buf_info f) td"
    and "j \<noteq> k \<Longrightarrow> pending x (in_buf_info f') j = pending x (in_buf_info f) j"
  using assms by (auto simp: touched_def unstored_def position_def from_pos_def pending_def contents_def split: thread.splits)

lemma length_xor_parts:
  assumes "full_bufs g n k m"
  shows "length (bytes_of (xor_word_part m (in_bufs g n k)) @ xor_byte_part m (in_bufs g n k)) = m"
  using xor_parts_parity [OF full_bufs_mem(1,2) [OF assms]] full_bufs_mem(3) [OF assms] assms
  by (auto simp: group_contents_def full_bufs_def contents_def hd_map)

lemma xor_memory_touched:
  assumes "full_bufs g n k m" "n \<le> length (single_file_array g)" "\<forall>i < n. buf_wf cap (info_of g i)" "k < 2" "i < n"
  shows "touched cap k (get_file g i) (get_file (xor_memory n k m g) i)"
proof (cases "i = 0")
  case True
  let ?mem = "in_bufs g n k"
  let ?m = "bytes_of (xor_word_part m ?mem) @ xor_byte_part m ?mem @ drop m (hd ?mem)"
  have n: "0 < n" using assms(5) by simp
  then have hd: "hd ?mem = in_buf (info_of g 0) k" by (simp add: in_bufs_def hd_map)
  have "length (in_buf (info_of g 0) k) = nat cap" "m \<le> length (in_buf (info_of g 0) k)"
    using assms(1,3,4) n by (auto simp: buf_wf_def full_bufs_def)
  then have "length ?m = nat cap" using length_xor_parts [OF assms(1)] hd by simp
  moreover have "get_file (xor_memory n k m g) 0 = (get_file g 0)\<lparr>in_buf_info := (info_of g 0)\<lparr>in_buf := (in_buf (info_of g 0))(k := ?m)\<rparr>\<rparr>"
    unfolding xor_memory_def by (rule get_put_info(1)) (use n assms(2) in linarith)
  ultimately show ?thesis using True unfolding touched_def info_of_def by blast
next
  case False
  then have "get_file (xor_memory n k m g) i = get_file g i" by (simp add: xor_memory_def)
  then show ?thesis using touched_refl assms(3-5) by (simp add: info_of_def)
qed

text \<open>The outcomes of \<open>buf_xor\<close> on allocated buffers: an error, or the buffers are XORed.\<close>

lemma buf_xor_outcomes:
  assumes "0 < n" "n \<le> length (single_file_array g)" "\<forall>i < n. buf_wf cap (info_of g i)" "k < 2"
  shows "\<exists>r o' g'. buf_xor (in_bufs g n k) n out0 k g = Inr (r, o', g')
    \<and> ((\<exists>h. g' = h\<lparr>correct_flag := -1\<rparr> \<and> (h = g \<or> (\<exists>m. full_bufs g n k m \<and> h = xor_memory n k m g)))
      \<or> (\<exists>m. full_bufs g n k m \<and> g' = xor_done n m (xor_memory n k m g)))"
proof (cases "list_all (\<lambda>i. buf_size (info_of g i) k = buf_size (info_of g 0) k) [1..<n]")
  case True
  have "buf_size (info_of g i) k = buf_size (info_of g 0) k" if "i < n" for i
    using True that by (cases "i = 0") (auto simp: list_all_iff)
  moreover have "0 \<le> buf_size (info_of g 0) k" using assms(1,3,4) by (auto simp: buf_wf_def)
  moreover have "buf_size (info_of g i) k \<le> int (length (in_buf (info_of g i) k)) \<and> alive (info_of g i)" if "i < n" for i
  proof -
    have "buf_wf cap (info_of g i)" using assms(3) that by blast
    then have "length (in_buf (info_of g i) k) = nat cap" "0 \<le> buf_size (info_of g i) k" "buf_size (info_of g i) k \<le> cap" "alive (info_of g i)"
      using assms(4) unfolding buf_wf_def by blast+
    then show ?thesis by linarith
  qed
  ultimately have full: "full_bufs g n k (nat (buf_size (info_of g 0) k))"
    unfolding full_bufs_def using assms(1) by (metis int_nat_eq nat_int nat_mono)
  show ?thesis
    unfolding buf_xor_full [OF full] Let_def using full by (cases "fst (fwrite_words
      (xor_word_part (nat (buf_size (info_of g 0) k)) (in_bufs g n k)) out0) \<noteq> nat (buf_size (info_of g 0) k) div 4") auto
next
  case False
  then show ?thesis using assms(1) by (auto simp: buf_xor_def Let_def)
qed

subsection \<open>The group\<close>

definition xored :: "consumer \<Rightarrow> nat \<Rightarrow> nat \<Rightarrow> bool" where
  "xored c i k \<longleftrightarrow> (case c of ResetNum k' \<Rightarrow> k = k' | ResetFlag k' j \<Rightarrow> k = k' \<and> j \<le> i | _ \<Rightarrow> False)"

definition full_files :: "nat \<Rightarrow> run \<Rightarrow> nat \<Rightarrow> nat set" where
  "full_files n s k = {i. i < n \<and> buf_flag (info_of (group s) i) k = 2 \<and> \<not> xored (consumer s) i k}"

text \<open>The counters, and what the consumer relies on at each of its steps.\<close>

definition counted :: "nat \<Rightarrow> run \<Rightarrow> bool" where
  "counted n s \<longleftrightarrow> (\<forall>k < 2. buf_full_num (group s) k = (if consumer s = ResetNum k then int n else int (card (full_files n s k))))"

definition staged :: "nat \<Rightarrow> run \<Rightarrow> bool" where
  "staged n s \<longleftrightarrow> (\<forall>k. consumer s \<in> {Poll k, Xor k, ResetNum k} \<or> (\<exists>j. consumer s = ResetFlag k j) \<longrightarrow> k < 2)
     \<and> (\<forall>k i. i < n \<and> (consumer s = Xor k \<or> xored (consumer s) i k) \<longrightarrow> buf_flag (info_of (group s) i) k = 2)"

text \<open>Every byte of a file is XORed, in one of the two buffers, or still to be stored.\<close>

definition file_pending :: "run \<Rightarrow> nat \<Rightarrow> nat \<Rightarrow> byte list" where
  "file_pending s i = pending (xored (consumer s) i) (info_of (group s) i)"

definition file_unstored :: "run \<Rightarrow> nat \<Rightarrow> byte list" where
  "file_unstored s i = unstored (thr s i) (info_of (group s) i) (todo s i)"

definition balanced :: "int \<Rightarrow> run \<Rightarrow> nat \<Rightarrow> bool" where
  "balanced sz s i \<longleftrightarrow> xor_size (group s) + int (length (file_pending s i 0)) + int (length (file_pending s i 1))
     + int (length (file_unstored s i)) = sz"

lemma balanced_split:
  "k < 2 \<Longrightarrow> balanced sz s i \<longleftrightarrow> xor_size (group s) + int (length (file_pending s i k)) + int (length (file_pending s i (1 - k)))
     + int (length (file_unstored s i)) = sz"
  by (auto simp: balanced_def less_2_cases_iff)

definition sized_output :: "int \<Rightarrow> ostream \<Rightarrow> run \<Rightarrow> bool" where
  "sized_output sz out0 s \<longleftrightarrow> 0 \<le> xor_size (group s) \<and> (sz \<le> int (room out0) \<longrightarrow>
     int (length (written (out s))) = int (length (written out0)) + xor_size (group s)
     \<and> int (room (out s)) = int (room out0) - xor_size (group s))"

definition running :: "int \<Rightarrow> nat \<Rightarrow> int \<Rightarrow> ostream \<Rightarrow> run \<Rightarrow> bool" where
  "running cap n sz out0 s \<longleftrightarrow>
     (let g = group s
      in n \<le> length (single_file_array g) \<and> file_num g = int n \<and> file_size g = sz \<and> xor_flag g = 0
        \<and> (\<forall>i < n. file_inv cap sz (get_file g i) (thr s i) (todo s i)) \<and> (\<forall>i \<ge> n. thr s i = Idle \<and> todo s i = [])
        \<and> counted n s \<and> staged n s
        \<and> (\<forall>k. consumer s \<in> {Poll k, Xor k} \<longrightarrow> correct_flag g = 0)
        \<and> (\<forall>r. consumer s = Done r \<longrightarrow> correct_flag g \<noteq> 0 \<and> r \<noteq> RIGHT)
        \<and> (correct_flag g = 0 \<longrightarrow> sized_output sz out0 s \<and> (\<forall>i < n. balanced sz s i)))"

definition released :: "nat \<Rightarrow> int \<Rightarrow> ostream \<Rightarrow> run \<Rightarrow> bool" where
  "released n sz out0 s \<longleftrightarrow> xor_flag (group s) = 1 \<and> correct_flag (group s) = 0 \<and> xor_size (group s) = sz \<and> file_size (group s) = sz
     \<and> file_num (group s) = int n \<and> sized_output sz out0 s \<and> (\<forall>i. thr s i = Idle \<and> todo s i = [])
     \<and> (\<forall>k. consumer s \<notin> {Poll k, Xor k}) \<and> (\<forall>r. consumer s = Done r \<longrightarrow> r = RIGHT)"

subsection \<open>Steps of a thread\<close>

definition moved :: "nat \<Rightarrow> bool \<Rightarrow> byte list \<Rightarrow> in_file_info \<Rightarrow> in_file_info \<Rightarrow> bool" where
  "moved k full xs b b' \<longleftrightarrow> k < 2 \<and> (full \<longrightarrow> buf_flag b k \<noteq> 2) \<and> (\<forall>j < 2. buf_flag b' j = 2 \<longleftrightarrow> buf_flag b j = 2 \<or> (full \<and> j = k))
     \<and> (\<forall>x. (\<forall>j < 2. x j \<longrightarrow> buf_flag b j = 2) \<longrightarrow>
          (\<forall>j < 2. pending x b' j = pending x b j @ (if j = k then xs else [])))"

lemma advance_moved: "advance k full xs b b' \<Longrightarrow> moved k full xs b b'"
  by (auto simp: advance_def moved_def)

lemma opened_moved: "opened b b' \<Longrightarrow> moved 0 False [] b b'"
  by (auto simp: opened_def moved_def split: if_splits)

lemma moved_refl: "moved 0 False [] b b"
  by (simp add: moved_def)

text \<open>A thread's step changes its own file, the counter of a buffer it fills, and nothing else.\<close>

definition thread_moves :: "nat \<Rightarrow> nat \<Rightarrow> bool \<Rightarrow> byte list \<Rightarrow> run \<Rightarrow> run \<Rightarrow> bool" where
  "thread_moves i k full xs s s' \<longleftrightarrow> i < length (single_file_array (group s))
     \<and> (\<exists>f'. group s' = (if full then bump k else id) (put_file i f' (group s)))
     \<and> (\<forall>j. j \<noteq> i \<longrightarrow> thr s' j = thr s j \<and> todo s' j = todo s j) \<and> consumer s' = consumer s \<and> out s' = out s
     \<and> moved k full xs (info_of (group s) i) (info_of (group s') i)
     \<and> file_unstored s i = xs @ file_unstored s' i"

lemma thread_moves_frame:
  assumes "thread_moves i k full xs s s'"
  shows "file_size (group s') = file_size (group s)" "file_num (group s') = file_num (group s)" "xor_size (group s') = xor_size (group s)"
    and "xor_flag (group s') = xor_flag (group s)" "correct_flag (group s') = correct_flag (group s)"
    and "length (single_file_array (group s')) = length (single_file_array (group s))"
    and "buf_full_num (group s') = (if full then (buf_full_num (group s))(k := buf_full_num (group s) k + 1) else buf_full_num (group s))"
    and "j \<noteq> i \<Longrightarrow> get_file (group s') j = get_file (group s) j" "j \<noteq> i \<Longrightarrow> info_of (group s') j = info_of (group s) j"
  using assms by (auto simp: thread_moves_def info_of_def)

lemma full_files_moved:
  assumes "thread_moves i k full xs s s'" "staged n s" "j < 2" "i < n"
  shows "full_files n s' j = (if full \<and> j = k then insert i (full_files n s j) else full_files n s j)"
    and "full \<Longrightarrow> i \<notin> full_files n s k"
proof -
  note fr = thread_moves_frame [OF assms(1)]
  have m: "moved k full xs (info_of (group s) i) (info_of (group s') i)" and c: "consumer s' = consumer s"
    using assms(1) by (simp_all add: thread_moves_def)
  have x: "xored (consumer s) i j \<Longrightarrow> buf_flag (info_of (group s) i) j = 2" for j using assms(2,4) by (auto simp: staged_def)
  show "full \<Longrightarrow> i \<notin> full_files n s k" using m by (simp add: moved_def full_files_def)
  show "full_files n s' j = (if full \<and> j = k then insert i (full_files n s j) else full_files n s j)"
  proof (rule set_eqI)
    fix l
    show "l \<in> full_files n s' j \<longleftrightarrow> l \<in> (if full \<and> j = k then insert i (full_files n s j) else full_files n s j)"
      using m x c fr(9) assms(3,4) by (cases "l = i") (auto simp: moved_def full_files_def)
  qed
qed

lemma counted_moved:
  assumes "thread_moves i k full xs s s'" "staged n s" "counted n s" "i < n"
  shows "counted n s'"
  unfolding counted_def
proof (intro allI impI)
  fix j :: nat
  assume j: "j < 2"
  note fr = thread_moves_frame [OF assms(1)]
  note ff = full_files_moved [OF assms(1,2) j assms(4)]
  have c: "consumer s' = consumer s" and m: "moved k full xs (info_of (group s) i) (info_of (group s') i)"
    using assms(1) by (simp_all add: thread_moves_def)
  have "finite (full_files n s l)" for l by (simp add: full_files_def)
  then have card: "card (full_files n s' j) = card (full_files n s j) + (if full \<and> j = k then 1 else 0)"
    using ff by simp
  have "consumer s = ResetNum j \<Longrightarrow> \<not> (full \<and> j = k)"
    using m assms(2,4) by (auto simp: moved_def staged_def xored_def)
  then show "buf_full_num (group s') j = (if consumer s' = ResetNum j then int n else int (card (full_files n s' j)))"
    using assms(3) j card fr(7) c by (auto simp: counted_def)
qed

lemma staged_moved:
  assumes "thread_moves i k full xs s s'" "staged n s"
  shows "staged n s'"
proof -
  have m: "moved k full xs (info_of (group s) i) (info_of (group s') i)" and c: "consumer s' = consumer s"
    using assms(1) by (simp_all add: thread_moves_def)
  have k2: "l < 2" if "j < n" "consumer s = Xor l \<or> xored (consumer s) j l" for j l
    using that assms(2) by (auto simp: staged_def xored_def split: consumer.splits)
  have "buf_flag (info_of (group s') j) l = 2" if "j < n" "consumer s = Xor l \<or> xored (consumer s) j l" for j l
    using that m assms(2) k2 [OF that] thread_moves_frame(9) [OF assms(1)]
    by (cases "j = i") (auto simp: moved_def staged_def)
  then show ?thesis using assms(2) c by (simp add: staged_def)
qed

lemma moved_pending:
  assumes "thread_moves i k full xs s s'" "staged n s" "i < n" "j < 2"
  shows "file_pending s' i j = file_pending s i j @ (if j = k then xs else [])"
proof -
  have "\<forall>j < 2. xored (consumer s) i j \<longrightarrow> buf_flag (info_of (group s) i) j = 2"
    using assms(2,3) by (simp add: staged_def)
  then show ?thesis using assms(1,4) by (simp add: thread_moves_def moved_def file_pending_def)
qed

lemma moved_others:
  assumes "thread_moves i k full xs s s'" "j \<noteq> i"
  shows "file_pending s' j = file_pending s j" "file_unstored s' j = file_unstored s j"
  using assms thread_moves_frame(9) [OF assms] by (simp_all add: file_pending_def file_unstored_def thread_moves_def)

lemma balanced_moved:
  assumes "thread_moves i k full xs s s'" "staged n s" "i < n" "balanced sz s j"
  shows "balanced sz s' j"
proof (cases "j = i")
  case True
  have "k < 2" "file_unstored s i = xs @ file_unstored s' i" using assms(1) by (simp_all add: thread_moves_def moved_def)
  then show ?thesis
    using assms(4) moved_pending [OF assms(1-3), of 0] moved_pending [OF assms(1-3), of 1] True thread_moves_frame(3) [OF assms(1)]
    by (auto simp: balanced_def less_2_cases_iff)
next
  case False
  then show ?thesis
    using assms(4) moved_others [OF assms(1) False] thread_moves_frame(3) [OF assms(1)] by (simp add: balanced_def)
qed

lemma running_moves:
  assumes "running cap n sz out0 s" "thread_moves i k full xs s s'" "i < n" "file_inv cap sz (get_file (group s') i) (thr s' i) (todo s' i)"
  shows "running cap n sz out0 s'"
proof -
  note fr = thread_moves_frame [OF assms(2)]
  have c: "consumer s' = consumer s" "out s' = out s" and o: "\<And>j. j \<noteq> i \<Longrightarrow> thr s' j = thr s j \<and> todo s' j = todo s j"
    using assms(1,2) by (simp_all add: thread_moves_def running_def Let_def)
  note i = assms(3)
  have st: "staged n s" "counted n s" using assms(1) by (simp_all add: running_def Let_def)
  have "file_inv cap sz (get_file (group s') j) (thr s' j) (todo s' j)" if "j < n" for j
    using that assms(1,4) o fr(8) by (cases "j = i") (simp_all add: running_def Let_def)
  moreover have "thr s' j = Idle \<and> todo s' j = []" if "n \<le> j" for j
    using that assms(1) o [of j] i by (auto simp: running_def Let_def)
  moreover have "counted n s'" "staged n s'" using counted_moved [OF assms(2) st i] staged_moved [OF assms(2) st(1)] by blast+
  moreover have "sized_output sz out0 s \<Longrightarrow> sized_output sz out0 s'" using c fr(3) by (simp add: sized_output_def)
  ultimately show ?thesis
    using assms(1) balanced_moved [OF assms(2) st(1) i] fr c unfolding running_def Let_def by simp
qed

lemma running_thread:
  assumes "running cap n sz out0 s" "thr s i \<noteq> Idle \<or> todo s i \<noteq> []"
  shows "i < n" "i < length (single_file_array (group s))" "file_size (group s) = sz"
    and "file_inv cap sz (get_file (group s) i) (thr s i) (todo s i)"
proof -
  show i: "i < n" using assms by (auto simp: running_def Let_def not_le [symmetric])
  show "i < length (single_file_array (group s))" "file_size (group s) = sz"
    and "file_inv cap sz (get_file (group s) i) (thr s i) (todo s i)"
    using assms(1) i by (simp_all add: running_def Let_def)
qed

text \<open>What a step of the thread of file \<open>i\<close> does to the contents of its buffers; \<open>k\<close> is the buffer that is being filled.\<close>

lemma recv_moves:
  assumes "running cap n sz out0 s" "exec cap (Recv i) s = Some r"
  shows "\<exists>s'. r = Inr s' \<and> running cap n sz out0 s' \<and> i < n \<and> thread_moves i 0 False [] s s' \<and> info_of (group s') i = info_of (group s) i"
proof -
  obtain p ps where p: "thr s i = Idle" "todo s i = p # ps"
      "r = Inr (s\<lparr>thr := (thr s)(i := AtStore p 0), todo := (todo s)(i := ps)\<rparr>)"
    using assms(2) by (auto simp: exec_def split: thread.splits list.splits if_splits)
  let ?s = "s\<lparr>thr := (thr s)(i := AtStore p 0), todo := (todo s)(i := ps)\<rparr>"
  note t = running_thread [OF assms(1), of i]
  have td: "todo s i \<noteq> []" using p by simp
  then have i: "i < n" using t(1) by blast
  have "put_file i (get_file (group s) i) (group s) = group s" by (simp add: put_file_def get_file_def)
  then have gs: "\<exists>f'. group s = put_file i f' (group s)" by metis
  have m: "thread_moves i 0 False [] s ?s"
    using t(2) td p gs moved_refl by (simp add: thread_moves_def file_unstored_def unstored_def position_def in_flight_def from_pos_def)
  have "file_inv cap sz (get_file (group ?s) i) (thr ?s i) (todo ?s i)"
    using t(4) td p by (auto simp: file_inv_def Let_def position_def in_flight_def flag_of_def from_pos_def pieces_ok_def)
  then show ?thesis using running_moves [OF assms(1) m i] m p(3) i by auto
qed

lemma store_moves:
  assumes "running cap n sz out0 s" "exec cap (Store i) s = Some r"
  shows "\<exists>s' k full xs. r = Inr s' \<and> running cap n sz out0 s' \<and> i < n \<and> thread_moves i k full xs s s'
    \<and> advance k full xs (info_of (group s) i) (info_of (group s') i)
    \<and> ((\<exists>j. active (info_of (group s) i) j) \<longrightarrow> (if thr s' i = Idle then full \<longleftrightarrow> todo s' i = [] else full))
    \<and> todo s' = todo s \<and> (thr s' i = Idle \<or> (\<exists>p fl. thr s' i = AtRotate p fl))"
proof -
  let ?g = "group s"
  obtain p fl where p: "thr s i = AtStore p fl" using assms(2) by (auto simp: exec_def split: thread.splits)
  have ni: "thr s i \<noteq> Idle \<or> todo s i \<noteq> []" using p by simp
  note t = running_thread [OF assms(1) ni] and i = running_thread(1) [OF assms(1) ni]
  obtain d fl' f' k full xs where st: "store_step cap i p (int (length p)) fl ?g = Inr (d, fl', (if full then bump k else id) (put_file i f' ?g))"
      "file_inv cap sz f' (if d then Idle else AtRotate p fl') (todo s i)"
      "advance k full xs (info_of ?g i) (in_buf_info f')"
      "unstored (AtStore p fl) (info_of ?g i) (todo s i) = xs @ unstored (if d then Idle else AtRotate p fl') (in_buf_info f') (todo s i)"
      "(\<exists>j. active (info_of ?g i) j) \<longrightarrow> (if d then full \<longleftrightarrow> todo s i = [] else full)"
    using store_file [of cap ?g i p fl "todo s i"] t(3,4) p unfolding Let_def info_of_def by auto
  let ?g' = "(if full then bump k else id) (put_file i f' ?g)"
  let ?s = "s\<lparr>group := ?g', thr := (thr s)(i := (if d then Idle else AtRotate p fl'))\<rparr>"
  have r: "r = Inr ?s" using assms(2) p st(1) by (cases d; cases full) (auto simp: exec_def)
  have gi: "get_file ?g' i = f'" using t(2) by simp
  have m: "thread_moves i k full xs s ?s"
    using t(2) st(4) advance_moved [OF st(3)] gi p by (auto simp: thread_moves_def file_unstored_def info_of_def)
  moreover have "running cap n sz out0 ?s" by (rule running_moves [OF assms(1) m i]) (use st(2) gi in simp)
  ultimately show ?thesis using r st(3,5) gi i by (intro exI [of _ ?s] exI [of _ k] exI [of _ full] exI [of _ xs]) (simp add: info_of_def)
qed

lemma rotate_moves:
  assumes "running cap n sz out0 s" "exec cap (Rotate i) s = Some r"
  shows "\<exists>s'. r = Inr s' \<and> running cap n sz out0 s' \<and> i < n \<and> thread_moves i 0 False [] s s' \<and> opened (info_of (group s) i) (info_of (group s') i)"
proof -
  let ?g = "group s"
  obtain p fl where p: "thr s i = AtRotate p fl" using assms(2) by (auto simp: exec_def split: thread.splits)
  have ni: "thr s i \<noteq> Idle \<or> todo s i \<noteq> []" using p by simp
  note t = running_thread [OF assms(1) ni] and i = running_thread(1) [OF assms(1) ni]
  obtain b' where b': "rotate_bufs cap i ?g = Inr (put_info i b' ?g)"
      "file_inv cap sz ((get_file ?g i)\<lparr>in_buf_info := b'\<rparr>) (AtStore p fl) (todo s i)" "opened (info_of ?g i) b'"
      "unstored (AtStore p fl) b' (todo s i) = unstored (AtRotate p fl) (info_of ?g i) (todo s i)"
    using rotate_file [of cap sz ?g i p fl "todo s i"] t(4) p unfolding info_of_def by auto
  let ?s = "s\<lparr>group := put_info i b' ?g, thr := (thr s)(i := AtStore p fl)\<rparr>"
  have r: "r = Inr ?s" using assms(2) p b'(1) by (simp add: exec_def)
  have "\<exists>f'. put_info i b' ?g = put_file i f' ?g" by (simp add: put_info_def) blast
  then have m: "thread_moves i 0 False [] s ?s"
    using t(2) b'(4) opened_moved [OF b'(3)] p by (simp add: thread_moves_def file_unstored_def)
  moreover have "running cap n sz out0 ?s" by (rule running_moves [OF assms(1) m i]) (use b'(2) t(2) in simp)
  ultimately show ?thesis using r b'(3) t(2) i by simp
qed

subsection \<open>Steps of the consumer\<close>

text \<open>A step that only moves the consumer on.\<close>

lemma consumer_moves:
  assumes "running cap n sz out0 s" "\<And>i k. i < n \<Longrightarrow> xored c i k \<longleftrightarrow> xored (consumer s) i k"
    and "\<And>k. c \<noteq> ResetNum k" "\<And>k. consumer s \<noteq> ResetNum k" "\<And>k j. c \<noteq> ResetFlag k j" "\<And>k. c = Poll k \<Longrightarrow> k < 2"
    and "\<And>k. c = Xor k \<Longrightarrow> k < 2 \<and> (\<forall>i < n. buf_flag (info_of (group s) i) k = 2)"
    and "\<And>k. c \<in> {Poll k, Xor k} \<Longrightarrow> correct_flag (group s) = 0" "\<And>r. c = Done r \<Longrightarrow> correct_flag (group s) \<noteq> 0 \<and> r \<noteq> RIGHT"
  shows "running cap n sz out0 (s\<lparr>consumer := c\<rparr>)"
proof -
  let ?s = "s\<lparr>consumer := c\<rparr>"
  have "full_files n ?s = full_files n s" by (rule ext) (use assms(2) in \<open>auto simp: full_files_def\<close>)
  then have "counted n s \<Longrightarrow> counted n ?s" using assms(3,4) by (simp add: counted_def)
  moreover have "staged n s \<Longrightarrow> staged n ?s"
    using assms(2,3,5-7) unfolding staged_def by (simp, blast)
  moreover have "i < n \<Longrightarrow> balanced sz s i \<Longrightarrow> balanced sz ?s i" for i
    using assms(2) by (simp add: balanced_def file_pending_def file_unstored_def pending_def)
  ultimately show ?thesis using assms(1,8,9) by (simp add: running_def Let_def sized_output_def) blast
qed

lemma counted_full:
  assumes "running cap n sz out0 s" "consumer s = Poll k" "buf_full_num (group s) k = int n" "i < n"
  shows "buf_flag (info_of (group s) i) k = 2"
proof -
  have "k < 2" using assms(1,2) by (simp add: running_def staged_def Let_def)
  then have "card (full_files n s k) = card {..<n}" using assms(1-3) by (simp add: running_def counted_def Let_def)
  then have "full_files n s k = {..<n}" by (intro card_subset_eq) (auto simp: full_files_def)
  then show ?thesis using assms(4) by (auto simp: full_files_def)
qed

lemma running_poll:
  assumes "running cap n sz out0 s" "consumer s = Poll k" "exec cap Judge s = Some r"
  shows "\<exists>c. r = Inr (s\<lparr>consumer := c\<rparr>) \<and> running cap n sz out0 (s\<lparr>consumer := c\<rparr>)"
proof -
  let ?c = "if buf_full_num (group s) k = file_num (group s) then Xor k else if k = 0 then Poll 1 else Check"
  have r: "r = Inr (s\<lparr>consumer := ?c\<rparr>)" using assms(2,3) by (auto simp: exec_def exec_judge_def Let_def)
  have k: "k < 2" "correct_flag (group s) = 0" "file_num (group s) = int n"
    using assms(1,2) by (simp_all add: running_def staged_def Let_def)
  have "running cap n sz out0 (s\<lparr>consumer := ?c\<rparr>)"
    using k assms(2) counted_full [OF assms(1,2)]
    by (intro consumer_moves [OF assms(1)]) (auto simp: xored_def split: if_splits)
  then show ?thesis using r by blast
qed

lemma running_check:
  assumes "running cap n sz out0 s" "consumer s = Check" "exec cap Judge s = Some r"
  shows "\<exists>c. r = Inr (s\<lparr>consumer := c\<rparr>) \<and> running cap n sz out0 (s\<lparr>consumer := c\<rparr>)"
proof -
  let ?c = "if xor_flag (group s) = 0 \<and> correct_flag (group s) = 0 then Poll 0 else Done (judge_verdict (group s))"
  have r: "r = Inr (s\<lparr>consumer := ?c\<rparr>)" using assms(2,3) by (auto simp: exec_def exec_judge_def Let_def)
  have "xor_flag (group s) = 0" using assms(1) by (simp add: running_def Let_def)
  then have "running cap n sz out0 (s\<lparr>consumer := ?c\<rparr>)"
    using assms(2)
    by (intro consumer_moves [OF assms(1)])
       (auto simp: xored_def judge_verdict_def ERROR_CREAT_TRANSMISSION_DATA_CONNECTION_def RIGHT_def split: if_splits)
  then show ?thesis using r by blast
qed

lemma running_reset_num:
  assumes "running cap n sz out0 s" "consumer s = ResetNum k" "exec cap Judge s = Some r"
  shows "r = Inr (s\<lparr>group := reset_num k (group s), consumer := ResetFlag k 0\<rparr>)"
    and "running cap n sz out0 (s\<lparr>group := reset_num k (group s), consumer := ResetFlag k 0\<rparr>)"
proof -
  let ?s = "s\<lparr>group := reset_num k (group s), consumer := ResetFlag k 0\<rparr>"
  show "r = Inr ?s" using assms(2,3) by (simp add: exec_def exec_judge_def Let_def)
  have x: "xored (ResetFlag k 0) i j \<longleftrightarrow> xored (ResetNum k) i j" for i j by (simp add: xored_def)
  have g: "get_file (group ?s) i = get_file (group s) i" "info_of (group ?s) i = info_of (group s) i" for i
    by (simp_all add: info_of_def)
  have ff: "full_files n ?s = full_files n s" by (rule ext) (use x g assms(2) in \<open>simp add: full_files_def\<close>)
  have "full_files n s k = {}" using assms(2) by (auto simp: full_files_def xored_def)
  then have "counted n s \<Longrightarrow> counted n ?s" using ff assms(2) by (auto simp: counted_def)
  moreover have "staged n s \<Longrightarrow> staged n ?s" using x g assms(2) by (auto simp: staged_def)
  moreover have "balanced sz s i \<Longrightarrow> balanced sz ?s i" for i
    using x g assms(2) by (simp add: balanced_def file_pending_def file_unstored_def pending_def)
  ultimately show "running cap n sz out0 ?s"
    using assms(1,2) g by (simp add: running_def Let_def sized_output_def)
qed

text \<open>The step that clears the flag of buffer \<open>k\<close> of file \<open>i\<close>.\<close>

definition flag_cleared :: "nat \<Rightarrow> nat \<Rightarrow> run \<Rightarrow> run" where
  "flag_cleared k i s = s\<lparr>group := put_file i (reset_flag k (get_file (group s) i)) (group s), consumer := ResetFlag k (Suc i)\<rparr>"

lemma flag_cleared_same:
  assumes "i < length (single_file_array (group s))" "consumer s = ResetFlag k i"
  shows "info_of (group (flag_cleared k i s)) i = (info_of (group s) i)\<lparr>buf_flag := (buf_flag (info_of (group s) i))(k := 0)\<rparr>"
    and "j \<noteq> i \<Longrightarrow> info_of (group (flag_cleared k i s)) j = info_of (group s) j"
    and "j \<noteq> i \<Longrightarrow> get_file (group (flag_cleared k i s)) j = get_file (group s) j"
    and "file_pending (flag_cleared k i s) j = file_pending s j" "file_unstored (flag_cleared k i s) j = file_unstored s j"
    and "xored (ResetFlag k (Suc i)) j l \<longleftrightarrow> xored (ResetFlag k i) j l \<and> j \<noteq> i"
proof -
  show gi: "info_of (group (flag_cleared k i s)) i = (info_of (group s) i)\<lparr>buf_flag := (buf_flag (info_of (group s) i))(k := 0)\<rparr>"
    using assms(1) by (simp add: info_of_def reset_flag_def flag_cleared_def)
  show gj: "j \<noteq> i \<Longrightarrow> info_of (group (flag_cleared k i s)) j = info_of (group s) j"
    "j \<noteq> i \<Longrightarrow> get_file (group (flag_cleared k i s)) j = get_file (group s) j" for j
    by (simp_all add: info_of_def flag_cleared_def)
  show x: "xored (ResetFlag k (Suc i)) j l \<longleftrightarrow> xored (ResetFlag k i) j l \<and> j \<noteq> i" for j l by (auto simp: xored_def)
  have c: "consumer (flag_cleared k i s) = ResetFlag k (Suc i)" "thr (flag_cleared k i s) = thr s" "todo (flag_cleared k i s) = todo s"
    by (simp_all add: flag_cleared_def)
  show "file_pending (flag_cleared k i s) j = file_pending s j"
    by (rule ext) (use gi gj x assms(2) c in \<open>cases "j = i"; simp add: file_pending_def pending_def xored_def contents_def\<close>)
  show "file_unstored (flag_cleared k i s) j = file_unstored s j"
    using gi gj c by (cases "j = i") (simp_all add: file_unstored_def unstored_def position_def from_pos_def split: thread.split)
qed

lemma running_reset_flag:
  assumes "running cap n sz out0 s" "consumer s = ResetFlag k i" "exec cap Judge s = Some r"
  shows "\<exists>s'. r = Inr s' \<and> running cap n sz out0 s' \<and> s' = (if i < n then flag_cleared k i s else s\<lparr>consumer := Check\<rparr>)"
proof (cases "i < n")
  case True
  have n: "file_num (group s) = int n" "n \<le> length (single_file_array (group s))" using assms(1) by (simp_all add: running_def Let_def)
  let ?g = "put_file i (reset_flag k (get_file (group s) i)) (group s)"
  let ?s = "s\<lparr>group := ?g, consumer := ResetFlag k (Suc i)\<rparr>"
  have fc: "flag_cleared k i s = ?s" by (simp add: flag_cleared_def)
  have r: "r = Inr ?s" using assms(2,3) True n by (simp add: exec_def exec_judge_def Let_def)
  have k: "k < 2" using assms(1,2) by (auto simp: running_def staged_def Let_def)
  have i: "i < length (single_file_array (group s))" using True n(2) by simp
  note same = flag_cleared_same [OF i assms(2), unfolded fc]
  have x: "xored (ResetFlag k (Suc i)) j l \<longleftrightarrow> xored (ResetFlag k i) j l \<and> j \<noteq> i" for j l by (rule same(6))
  have gi: "info_of ?g i = (info_of (group s) i)\<lparr>buf_flag := (buf_flag (info_of (group s) i))(k := 0)\<rparr>" using same(1) by simp
  have gj: "j \<noteq> i \<Longrightarrow> info_of ?g j = info_of (group s) j" "j \<noteq> i \<Longrightarrow> get_file ?g j = get_file (group s) j" for j
    using same(2,3) by simp_all
  have pend: "file_pending ?s j = file_pending s j" "file_unstored ?s j = file_unstored s j" for j by (rule same(4), rule same(5))
  have ff: "full_files n ?s l = full_files n s l" for l
  proof (rule set_eqI)
    show "j \<in> full_files n ?s l \<longleftrightarrow> j \<in> full_files n s l" for j
      using gi gj assms(2) by (cases "j = i") (auto simp: full_files_def xored_def)
  qed
  have "file_inv cap sz (get_file ?g j) (thr s j) (todo s j)" if "j < n" for j
  proof (cases "j = i")
    case True
    have "file_inv cap sz (get_file (group s) i) (thr s i) (todo s i)" using assms(1) that True by (simp add: running_def Let_def)
    then show ?thesis
      using True that n(2)
      by (auto simp: reset_flag_def file_inv_def Let_def buf_wf_def flags_ok_def position_def from_pos_def split: thread.splits)
  next
    case False
    then show ?thesis using assms(1) that gj by (simp add: running_def Let_def)
  qed
  moreover have "counted n s \<Longrightarrow> counted n ?s" using ff assms(2) by (simp add: counted_def)
  moreover have "staged n ?s"
    unfolding staged_def
  proof (intro conjI allI impI)
    fix l j
    assume "j < n \<and> (consumer ?s = Xor l \<or> xored (consumer ?s) j l)"
    then have "j < n" "xored (consumer s) j l" "j \<noteq> i" using x assms(2) by auto
    then show "buf_flag (info_of (group ?s) j) l = 2" using assms(1) gj by (simp add: running_def Let_def staged_def)
  qed (use k in auto)
  moreover have "balanced sz s j \<Longrightarrow> balanced sz ?s j" for j using pend by (simp add: balanced_def)
  ultimately have "running cap n sz out0 ?s" using assms(1,2) by (simp add: running_def Let_def sized_output_def)
  then show ?thesis using r True fc by simp
next
  case False
  then have "r = Inr (s\<lparr>consumer := Check\<rparr>)" using assms by (simp add: running_def exec_def exec_judge_def Let_def)
  moreover have "running cap n sz out0 (s\<lparr>consumer := Check\<rparr>)"
    using assms(2) False by (intro consumer_moves [OF assms(1)]) (auto simp: xored_def)
  ultimately show ?thesis using False by simp
qed

text \<open>The files of \<open>h\<close> are those of \<open>g\<close>, with buffer \<open>k\<close> of some overwritten.\<close>

definition retouched :: "int \<Rightarrow> nat \<Rightarrow> nat \<Rightarrow> tGroupFileInfo \<Rightarrow> tGroupFileInfo \<Rightarrow> bool" where
  "retouched cap n k g h \<longleftrightarrow> (\<forall>i < n. touched cap k (get_file g i) (get_file h i)) \<and> buf_full_num h = buf_full_num g
     \<and> length (single_file_array h) = length (single_file_array g) \<and> file_num h = file_num g \<and> file_size h = file_size g
     \<and> xor_flag h = xor_flag g"

lemma retouched_same:
  assumes "retouched cap n k (group s) h" "i < n"
  shows "buf_flag (info_of h i) = buf_flag (info_of (group s) i)"
    and "unstored t (info_of h i) td = unstored t (info_of (group s) i) td"
    and "j \<noteq> k \<Longrightarrow> pending x (info_of h i) j = pending x (info_of (group s) i) j"
proof -
  have t: "touched cap k (get_file (group s) i) (get_file h i)" using assms by (simp add: retouched_def)
  note same = touched_same [OF t]
  show "buf_flag (info_of h i) = buf_flag (info_of (group s) i)"
    and "unstored t (info_of h i) td = unstored t (info_of (group s) i) td"
    and "j \<noteq> k \<Longrightarrow> pending x (info_of h i) j = pending x (info_of (group s) i) j"
    unfolding info_of_def using same(1) same(3) [of t td] same(4) by blast+
qed

text \<open>Behind \<open>buf_xor\<close> with the files kept: counters and stages.\<close>

lemma retouched_running:
  assumes "running cap n sz out0 s" "consumer s = Xor k" "retouched cap n k (group s) h" "s' = s\<lparr>out := o', group := h, consumer := ResetNum k\<rparr>"
    and "correct_flag h = 0 \<Longrightarrow> sized_output sz out0 s' \<and> (\<forall>i < n. balanced sz s' i)"
  shows "running cap n sz out0 s'"
proof -
  note same = retouched_same [OF assms(3)]
  have full: "i < n \<Longrightarrow> buf_flag (info_of (group s) i) k = 2" for i using assms(1,2) by (simp add: running_def staged_def Let_def)
  have ff: "full_files n s' l = full_files n s l" if "l \<noteq> k" for l
    using that same(1) assms(2,4) by (auto simp: full_files_def xored_def)
  have "full_files n s k = {..<n}" using full assms(2) by (auto simp: full_files_def xored_def)
  then have "counted n s \<Longrightarrow> counted n s'" using ff assms(2-4) by (auto simp: counted_def retouched_def)
  moreover have "staged n s \<Longrightarrow> staged n s'" using full same(1) assms(2,4) by (auto simp: staged_def xored_def)
  moreover have "file_inv cap sz (get_file h i) (thr s i) (todo s i)" if "i < n" for i
  proof -
    have "file_inv cap sz (get_file (group s) i) (thr s i) (todo s i)" using assms(1) that by (simp add: running_def Let_def)
    moreover have "touched cap k (get_file (group s) i) (get_file h i)" using assms(3) that by (simp add: retouched_def)
    ultimately show ?thesis using touched_inv by blast
  qed
  ultimately show ?thesis
    using assms(1,3-5) by (simp add: running_def Let_def retouched_def)
qed

lemma running_alive:
  assumes "running cap n sz out0 s"
  shows "\<forall>i < n. buf_wf cap (info_of (group s) i)"
  using assms by (simp add: running_def Let_def file_inv_def info_of_def)

lemma unstored_empty:
  assumes "file_inv cap sz f t td" "unstored t (in_buf_info f) td = []"
  shows "t = Idle \<and> td = []"
proof -
  have "td = []" using assms concat_pieces [of cap td] by (simp add: file_inv_def Let_def unstored_def)
  moreover have "t = Idle" using assms by (auto simp: file_inv_def Let_def unstored_def)
  ultimately show ?thesis by simp
qed

text \<open>Buffers that have been XORed: the bytes of buffer \<open>k\<close> move from the pending ones to the XORed ones.\<close>

lemma xored_pending:
  assumes "running cap n sz out0 s" "consumer s = Xor k" "full_bufs (group s) n k m" "i < n"
    and "retouched cap n k (group s) h" "s' = s\<lparr>out := o', group := h, consumer := ResetNum k\<rparr>"
  shows "file_pending s i k = contents (info_of (group s) i) k" "length (file_pending s i k) = m" "file_pending s' i k = []"
    and "j \<noteq> k \<Longrightarrow> file_pending s' i j = file_pending s i j" "file_unstored s' i = file_unstored s i"
proof -
  have k: "k < 2" "buf_flag (info_of (group s) i) k = 2" using assms(1,2,4) by (auto simp: running_def staged_def Let_def)
  then show c: "file_pending s i k = contents (info_of (group s) i) k"
    using assms(2) by (simp add: file_pending_def pending_def xored_def)
  have "int (length (contents (info_of (group s) i) k)) = int m"
    using length_contents [of cap "info_of (group s) i" k] running_alive [OF assms(1)] assms(3,4) k(1) by (simp add: full_bufs_def)
  then show "length (file_pending s i k) = m" using c by simp
  show "file_pending s' i k = []" using assms(6) by (simp add: file_pending_def pending_def xored_def)
  show "file_pending s' i j = file_pending s i j" if "j \<noteq> k"
  proof -
    have "pending (\<lambda>j. False) (info_of h i) j = pending (\<lambda>j. False) (info_of (group s) i) j"
      by (rule retouched_same(3) [OF assms(5,4) that])
    then show ?thesis using that assms(2,6) by (simp add: file_pending_def pending_def xored_def)
  qed
  show "file_unstored s' i = file_unstored s i"
    using retouched_same(2) [OF assms(5,4)] assms(6) by (simp add: file_unstored_def)
qed

lemma retouched_memory:
  assumes "running cap n sz out0 s" "consumer s = Xor k" "full_bufs (group s) n k m"
  shows "retouched cap n k (group s) (xor_memory n k m (group s))"
proof -
  have "k < 2" "n \<le> length (single_file_array (group s))" using assms(1,2) by (simp_all add: running_def staged_def Let_def)
  then show ?thesis
    using xor_memory_touched [OF assms(3) _ running_alive [OF assms(1)]] by (simp add: retouched_def)
qed

lemma retouched_done:
  assumes "running cap n sz out0 s" "consumer s = Xor k" "full_bufs (group s) n k m" "xor_size (group s) + int m \<noteq> sz"
  shows "retouched cap n k (group s) (xor_done n m (xor_memory n k m (group s)))"
proof -
  have "file_size (group s) = sz" using assms(1) by (simp add: running_def Let_def)
  then have "xor_done n m (xor_memory n k m (group s)) = (xor_memory n k m (group s))\<lparr>xor_size := xor_size (group s) + int m\<rparr>"
    using assms(4) by (simp add: xor_done_def Let_def)
  then show ?thesis using retouched_memory [OF assms(1-3)] by (simp add: retouched_def get_file_def)
qed

lemma retouched_refl:
  assumes "running cap n sz out0 s" "consumer s = Xor k"
  shows "retouched cap n k (group s) (group s)"
proof -
  have "k < 2" using assms by (simp add: running_def staged_def Let_def)
  then show ?thesis using touched_refl running_alive [OF assms(1)] by (simp add: retouched_def info_of_def)
qed

text \<open>When the last bytes have been XORed every thread has ended.\<close>

lemma last_xored:
  assumes "running cap n sz out0 s" "consumer s = Xor k" "full_bufs (group s) n k m" "xor_size (group s) + int m = sz"
  shows "thr s i = Idle \<and> todo s i = []"
proof (cases "i < n")
  case True
  have k: "k < 2" "correct_flag (group s) = 0" using assms(1,2) by (simp_all add: running_def staged_def Let_def)
  then have "balanced sz s i" using assms(1) True by (simp add: running_def Let_def)
  moreover have "length (file_pending s i k) = m"
    by (rule xored_pending(2) [OF assms(1-3) True retouched_refl [OF assms(1,2)] HOL.refl])
  ultimately have "length (file_unstored s i) = 0"
    unfolding balanced_split [OF k(1)] using assms(4) by linarith
  then have "file_unstored s i = []" by simp
  moreover have "file_inv cap sz (get_file (group s) i) (thr s i) (todo s i)" using assms(1) True by (simp add: running_def Let_def)
  ultimately show ?thesis using unstored_empty by (simp add: file_unstored_def info_of_def)
next
  case False
  then show ?thesis using assms(1) by (simp add: running_def Let_def)
qed

lemma room_output:
  assumes "sized_output sz out0 s" "full_bufs (group s) n k m" "xor_size (group s) + int m \<le> sz"
    and "buf_xor (in_bufs (group s) n k) n (out s) k (group s) = Inr (r, o', g')" "xor_size (group s') = xor_size (group s) + int m" "out s' = o'"
  shows "sized_output sz out0 s'"
proof -
  have l: "length (parity (group_contents (group s) n k)) = m"
    using assms(2) by (auto simp: group_contents_def full_bufs_def contents_def hd_map)
  have "int (length (written o')) = int (length (written out0)) + (xor_size (group s) + int m)
      \<and> int (room o') = int (room out0) - (xor_size (group s) + int m)" if "sz \<le> int (room out0)"
  proof -
    have "m \<le> room (out s)" and s: "int (length (written (out s))) = int (length (written out0)) + xor_size (group s)"
        "int (room (out s)) = int (room out0) - xor_size (group s)"
      using that assms(1,3) by (simp_all add: sized_output_def)
    then have "o' = (out s)\<lparr>written := written (out s) @ parity (group_contents (group s) n k), room := room (out s) - m\<rparr>"
      using buf_xor_room [OF assms(2)] assms(4) by simp
    then show ?thesis using s l \<open>m \<le> room (out s)\<close> by simp
  qed
  then show ?thesis using assms(1,5,6) by (simp add: sized_output_def)
qed

lemma running_xor:
  assumes "running cap n sz out0 s" "consumer s = Xor k" "exec cap Judge s = Some r" "0 < n" "n \<le> 50"
  shows "\<exists>s'. r = Inr s' \<and> (running cap n sz out0 s' \<or> released n sz out0 s')"
proof -
  let ?g = "group s"
  have n: "file_num ?g = int n" "n \<le> length (single_file_array ?g)" "file_size ?g = sz" and k: "k < 2" and ok: "correct_flag ?g = 0"
    using assms(1,2) by (simp_all add: running_def staged_def Let_def)
  have outp: "sized_output sz out0 s" and bal: "i < n \<Longrightarrow> balanced sz s i" for i using assms(1) ok by (simp_all add: running_def Let_def)
  obtain c o' g' where x: "buf_xor (in_bufs ?g n k) n (out s) k ?g = Inr (c, o', g')"
      and out: "(\<exists>h. g' = h\<lparr>correct_flag := -1\<rparr> \<and> (h = ?g \<or> (\<exists>m. full_bufs ?g n k m \<and> h = xor_memory n k m ?g)))
        \<or> (\<exists>m. full_bufs ?g n k m \<and> g' = xor_done n m (xor_memory n k m ?g))"
    using buf_xor_outcomes [OF assms(4) _ running_alive [OF assms(1)] k] n(2) by blast
  let ?s = "s\<lparr>out := o', group := g', consumer := ResetNum k\<rparr>"
  have r: "r = Inr ?s" using assms(2,3,5) n(1) x by (simp add: exec_def exec_judge_def Let_def)
  consider (bad) h where "g' = h\<lparr>correct_flag := -1\<rparr>" "retouched cap n k ?g h"
    | (good) m where "full_bufs ?g n k m" "g' = xor_done n m (xor_memory n k m ?g)"
    using out retouched_refl [OF assms(1,2)] retouched_memory [OF assms(1,2)] by blast
  then show ?thesis
  proof cases
    case bad
    then have "retouched cap n k ?g g'" by (simp add: retouched_def get_file_def)
    moreover have "correct_flag g' \<noteq> 0" using bad(1) by simp
    ultimately have "running cap n sz out0 ?s" using retouched_running [OF assms(1,2) _ HOL.refl] by blast
    then show ?thesis using r by blast
  next
    case good
    have "0 < n" by (rule assms(4))
    then have le: "xor_size ?g + int m \<le> sz"
      using bal [of 0] xored_pending(2) [OF assms(1,2) good(1) _ retouched_refl [OF assms(1,2)] HOL.refl, of 0] k
      by (auto simp: balanced_def less_2_cases_iff)
    have g': "xor_size g' = xor_size ?g + int m" "correct_flag g' = 0" "file_size g' = sz" "file_num g' = int n"
      using good(2) ok n by simp_all
    have so: "sized_output sz out0 ?s" by (rule room_output [OF outp good(1) le x]) (use g' in simp_all)
    show ?thesis
    proof (cases "xor_size ?g + int m = sz")
      case True
      then have "released n sz out0 ?s"
        using last_xored [OF assms(1,2) good(1)] good(2) g' so n(3) by (simp add: released_def)
      then show ?thesis using r by blast
    next
      case False
      have rt: "retouched cap n k ?g g'" unfolding good(2) by (rule retouched_done [OF assms(1,2) good(1) False])
      have "balanced sz ?s i" if i: "i < n" for i
        using bal [OF i] xored_pending [OF assms(1,2) good(1) i rt HOL.refl] g'(1) k by (auto simp: balanced_def less_2_cases_iff)
      then have "running cap n sz out0 ?s" using retouched_running [OF assms(1,2) rt HOL.refl] so by blast
      then show ?thesis using r by blast
    qed
  qed
qed

subsection \<open>Every step\<close>

lemma released_step:
  assumes "released n sz out0 s" "exec cap l s = Some r"
  shows "\<exists>s'. r = Inr s' \<and> released n sz out0 s'"
proof (cases l)
  case Judge
  have v: "judge_verdict (group s) = RIGHT" using assms(1) by (simp add: released_def judge_verdict_def)
  show ?thesis
  proof (cases "consumer s")
    case (ResetFlag k i)
    then show ?thesis
      using assms unfolding Judge
      by (auto simp: released_def sized_output_def exec_def exec_judge_def Let_def split: if_splits)
  qed (use assms v in \<open>unfold Judge, auto simp: released_def sized_output_def exec_def exec_judge_def Let_def split: if_splits\<close>)
qed (use assms in \<open>auto simp: released_def exec_def\<close>)

definition group_inv :: "int \<Rightarrow> nat \<Rightarrow> int \<Rightarrow> ostream \<Rightarrow> run \<Rightarrow> bool" where
  "group_inv cap n sz out0 s \<longleftrightarrow> running cap n sz out0 s \<or> released n sz out0 s"

lemma running_judge:
  assumes "running cap n sz out0 s" "exec cap Judge s = Some r" "0 < n" "n \<le> 50"
  shows "\<exists>s'. r = Inr s' \<and> group_inv cap n sz out0 s'"
proof (cases "consumer s")
  case (Done c)
  then show ?thesis using assms(2) by (simp add: exec_def exec_judge_def Let_def)
next
  case (Poll k)
  then show ?thesis using running_poll [OF assms(1) _ assms(2)] unfolding group_inv_def by blast
next
  case (Xor k)
  then show ?thesis using running_xor [OF assms(1) _ assms(2-4)] unfolding group_inv_def by blast
next
  case (ResetNum k)
  then show ?thesis using running_reset_num [OF assms(1) _ assms(2)] unfolding group_inv_def by blast
next
  case (ResetFlag k i)
  then show ?thesis using running_reset_flag [OF assms(1) _ assms(2)] unfolding group_inv_def by blast
next
  case Check
  then show ?thesis using running_check [OF assms(1) _ assms(2)] unfolding group_inv_def by blast
qed

lemma group_exec:
  assumes "group_inv cap n sz out0 s" "exec cap l s = Some r" "0 < n" "n \<le> 50"
  shows "\<exists>s'. r = Inr s' \<and> group_inv cap n sz out0 s'"
proof (cases "released n sz out0 s")
  case True
  then show ?thesis using released_step [OF _ assms(2)] unfolding group_inv_def by blast
next
  case False
  then have r: "running cap n sz out0 s" using assms(1) by (simp add: group_inv_def)
  show ?thesis
  proof (cases l)
    case (Recv i)
    then show ?thesis using recv_moves [OF r] assms(2) unfolding group_inv_def by blast
  next
    case (Store i)
    then show ?thesis using store_moves [OF r] assms(2) unfolding group_inv_def by blast
  next
    case (Rotate i)
    then show ?thesis using rotate_moves [OF r] assms(2) unfolding group_inv_def by blast
  next
    case Judge
    then show ?thesis using running_judge [OF r] assms(2-4) by blast
  qed
qed

lemma group_steps:
  "steps cap s s' \<Longrightarrow> group_inv cap n sz out0 s \<Longrightarrow> 0 < n \<Longrightarrow> n \<le> 50 \<Longrightarrow> group_inv cap n sz out0 s'"
proof (induction rule: steps.induct)
  case (more s s' s'')
  have i: "group_inv cap n sz out0 s'" using more by blast
  from more.hyps(2) obtain l where "exec cap l s' = Some (Inr s'')" by (rule stepE)
  then show ?case using group_exec [OF i _ more.prems(2,3)] by fastforce
qed

text \<open>The files of a group: at least one, at most as many as the array has elements, of one length, each in
  pieces that are not empty and fit a buffer.\<close>

definition files_ok :: "int \<Rightarrow> byte list list list \<Rightarrow> bool" where
  "files_ok cap pieces \<longleftrightarrow> pieces \<noteq> [] \<and> length pieces \<le> 50 \<and> 0 < cap
     \<and> (\<forall>ps \<in> set pieces. pieces_ok cap ps \<and> length (concat ps) = length (concat (hd pieces)))"

lemma start_running:
  assumes "files_ok cap pieces" "group_fresh cap pieces g"
  shows "running cap (length pieces) (int (length (concat (hd pieces)))) out0 (start_from g out0 pieces)"
proof -
  let ?n = "length pieces" and ?s = "start_from g out0 pieces" and ?sz = "int (length (concat (hd pieces)))"
  have fresh: "file_fresh cap (get_file g i)" if "i < ?n" for i using assms(2) that by (simp add: group_fresh_def)
  have fl: "buf_flag (info_of g i) k = (if k = 0 then 1 else 0)" "buf_size (info_of g i) k = 0" "buf_wf cap (info_of g i)" "contents (info_of g i) k = []"
    if "i < ?n" "k < 2" for i k
    using fresh [OF that(1)] that(2) by (simp_all add: file_fresh_def info_of_def contents_def)
  have ps: "pieces_ok cap (pieces ! i) \<and> length (concat (pieces ! i)) = length (concat (hd pieces))" if "i < ?n" for i
    using assms(1) nth_mem [OF that] unfolding files_ok_def by blast
  have "file_inv cap ?sz (get_file g i) Idle (pieces ! i)" if i: "i < ?n" for i
    using fl [OF i] ps [OF i] fresh [OF i]
    by (simp add: file_inv_def Let_def flags_ok_def position_def in_flight_def flag_of_def info_of_def file_fresh_def)
  moreover have "full_files ?n ?s k = {}" if "k < 2" for k using fl that by (auto simp: full_files_def split: if_splits)
  then have "counted ?n ?s" using assms(2) by (simp add: counted_def group_fresh_def)
  moreover have "staged ?n ?s" by (simp add: staged_def xored_def)
  moreover have "balanced ?sz ?s i" if i: "i < ?n" for i
    using fl(4) [OF i] ps [OF i] assms(2) i
    by (simp add: balanced_def file_pending_def pending_def file_unstored_def unstored_def in_flight_def group_fresh_def)
  ultimately show ?thesis
    using assms(2) unfolding running_def Let_def sized_output_def by (simp add: group_fresh_def)
qed

lemma group_reached:
  assumes "files_ok cap pieces" "group_fresh cap pieces g" "steps cap (start_from g out0 pieces) s"
  shows "group_inv cap (length pieces) (int (length (concat (hd pieces)))) out0 s"
proof -
  have "0 < length pieces" "length pieces \<le> 50" using assms(1) by (auto simp only: files_ok_def length_greater_0_conv)
  then show ?thesis using group_steps [OF assms(3)] start_running [OF assms(1,2)] unfolding group_inv_def by blast
qed

subsection \<open>Properties\<close>

text \<open>Files of one length but of any size, received in any pieces that fit a buffer and under every
  interleaving: no thread and no step of the consumer ever writes outside a buffer or touches one that \<open>buf_xor\<close>
  has freed, and \<open>judge_xor_condition\<close> reports success only when every byte of every file has been received
  and as many bytes have been written as a file has (on a device with room for them).\<close>

theorem run_memory_safe:
  assumes "files_ok cap pieces" "group_fresh cap pieces g" "steps cap (start_from g out0 pieces) s"
  shows "\<not> can_fault cap s
    \<and> (consumer s = Done RIGHT \<longrightarrow> (\<forall>i. thr s i = Idle \<and> todo s i = []) \<and> xor_size (group s) = file_size (group s)
         \<and> (length (concat (hd pieces)) \<le> room out0 \<longrightarrow>
              length (written (out s)) = length (written out0) + length (concat (hd pieces))))"
proof -
  let ?n = "length pieces" and ?sz = "int (length (concat (hd pieces)))"
  have inv: "group_inv cap ?n ?sz out0 s" by (rule group_reached [OF assms])
  have n: "0 < ?n" "?n \<le> 50" using assms(1) by (auto simp only: files_ok_def length_greater_0_conv)
  have "\<not> can_fault cap s" using group_exec [OF inv _ n] by (fastforce simp: can_fault_def)
  moreover have "released ?n ?sz out0 s" if "consumer s = Done RIGHT"
    using inv that by (auto simp: group_inv_def running_def Let_def)
  ultimately show ?thesis by (auto simp: released_def sized_output_def)
qed

lemma two_small_files_pieces: "files_ok 2 two_small_files"
  by (simp add: files_ok_def two_small_files_def pieces_ok_def)

lemma run_memory_safe_witness:
  "\<exists>s. steps 2 (start 2 \<lparr>written = [9], room = 4\<rparr> two_small_files) s \<and> consumer s = Done RIGHT \<and> \<not> can_fault 2 s
    \<and> xor_size (group s) = file_size (group s)"
proof -
  obtain s where s: "exec_all 2 small_run (start 2 \<lparr>written = [9], room = 4\<rparr> two_small_files) = Some s" "consumer s = Done RIGHT"
    using small_run_result by auto
  note st = exec_all_steps [OF s(1)]
  show ?thesis
    using run_memory_safe [OF two_small_files_pieces fresh_group_fresh st [unfolded start_def]] s(2) st by simp blast
qed

text \<open>In every state that such a group reaches, until \<open>buf_xor\<close> has freed the buffers: both buffers of
  every file are allocated with their sizes within bounds, the flags have one of their three values
  and at most one buffer of a file is being filled, \<open>file_index\<close> and the counters are within their
  bounds, and as long as no error is recorded the bytes XORed never exceed the size of the files.\<close>

theorem run_well_formed:
  assumes "files_ok cap pieces" "group_fresh cap pieces g" "steps cap (start_from g out0 pieces) s" "xor_flag (group s) = 0" "i < length pieces"
  shows "buf_wf cap (info_of (group s) i) \<and> (\<forall>k < 2. buf_flag (info_of (group s) i) k \<in> {0, 1, 2})
    \<and> \<not> (buf_flag (info_of (group s) i) 0 = 1 \<and> buf_flag (info_of (group s) i) 1 = 1)
    \<and> file_index (get_file (group s) i) \<le> file_size (group s)
    \<and> (\<forall>k < 2. 0 \<le> buf_full_num (group s) k \<and> buf_full_num (group s) k \<le> file_num (group s))
    \<and> (correct_flag (group s) = 0 \<longrightarrow> 0 \<le> xor_size (group s) \<and> xor_size (group s) \<le> file_size (group s))"
proof -
  let ?n = "length pieces" and ?sz = "int (length (concat (hd pieces)))"
  have r: "running cap ?n ?sz out0 s"
    using group_reached [OF assms(1-3)] assms(4) by (auto simp: group_inv_def released_def)
  have f: "file_inv cap ?sz (get_file (group s) i) (thr s i) (todo s i)" "file_size (group s) = ?sz" "file_num (group s) = int ?n"
    using r assms(5) by (simp_all add: running_def Let_def)
  then have b: "buf_wf cap (info_of (group s) i)" "\<forall>k < 2. buf_flag (info_of (group s) i) k \<in> {0, 1, 2}"
      "\<not> (buf_flag (info_of (group s) i) 0 = 1 \<and> buf_flag (info_of (group s) i) 1 = 1)"
      "file_index (get_file (group s) i) \<le> file_size (group s)"
    unfolding file_inv_def Let_def flags_ok_def info_of_def by (blast, blast, blast, linarith)
  have "card (full_files ?n s k) \<le> card {..<?n}" for k by (rule card_mono) (auto simp: full_files_def)
  then have c: "0 \<le> buf_full_num (group s) k \<and> buf_full_num (group s) k \<le> file_num (group s)" if "k < 2" for k
    using r that f(3) by (simp add: running_def Let_def counted_def)
  have "0 \<le> xor_size (group s) \<and> xor_size (group s) \<le> file_size (group s)" if "correct_flag (group s) = 0"
    using r that assms(5) f(2) by (fastforce simp: running_def Let_def sized_output_def balanced_def)
  then show ?thesis using b c by blast
qed

lemma run_well_formed_witness:
  "buf_wf 2 (info_of (group (start 2 \<lparr>written = [9], room = 4\<rparr> two_small_files)) 1)"
  unfolding start_def
  using run_well_formed [OF two_small_files_pieces fresh_group_fresh steps.refl, of "\<lparr>written = [9], room = 4\<rparr>" 1]
  by (simp add: fresh_group_def two_small_files_def)

lemma thread_step_moves:
  assumes "running cap n sz out0 s" "exec cap l s = Some (Inr s')" "l \<noteq> Judge"
  shows "\<exists>j k full xs. j < n \<and> thread_moves j k full xs s s' \<and> running cap n sz out0 s' \<and> (xs \<noteq> [] \<longrightarrow> buf_flag (info_of (group s) j) k = 1)"
proof (cases l)
  case (Recv i)
  then show ?thesis using recv_moves [OF assms(1)] assms(2) by blast
next
  case (Store i)
  then show ?thesis using store_moves [OF assms(1)] assms(2) unfolding advance_def by blast
next
  case (Rotate i)
  then show ?thesis using rotate_moves [OF assms(1)] assms(2) by blast
qed (use assms(3) in simp)

text \<open>While the consumer is in \<open>buf_xor\<close> with buffer \<open>k\<close>, no step of a thread changes the bytes of that buffer, its size, or
  the allocation of it, in any file, nor the sizes \<open>buf_xor\<close> compares: the threads cannot disturb the XOR, so
  taking it as one step loses no behaviour.\<close>

theorem run_xor_undisturbed:
  assumes "files_ok cap pieces" "group_fresh cap pieces g" "steps cap (start_from g out0 pieces) s" "consumer s = Xor k" "i < length pieces"
    and "exec cap l s = Some (Inr s')" "l \<noteq> Judge"
  shows "contents (info_of (group s') i) k = contents (info_of (group s) i) k \<and> buf_size (info_of (group s') i) k = buf_size (info_of (group s) i) k
    \<and> alive (info_of (group s') i) \<and> xor_size (group s') = xor_size (group s) \<and> file_size (group s') = file_size (group s)
    \<and> consumer s' = Xor k"
proof -
  let ?n = "length pieces" and ?sz = "int (length (concat (hd pieces)))"
  have r: "running cap ?n ?sz out0 s" using group_reached [OF assms(1-3)] assms(4) by (auto simp: group_inv_def released_def)
  obtain j k' full xs where j: "j < ?n" and m: "thread_moves j k' full xs s s'" "running cap ?n ?sz out0 s'" "xs \<noteq> [] \<Longrightarrow> buf_flag (info_of (group s) j) k' = 1"
    using thread_step_moves [OF r assms(6,7)] by blast
  have c: "consumer s' = Xor k" using m(1) assms(4) by (simp add: thread_moves_def)
  have st: "staged ?n s" "staged ?n s'" using r m(2) by (simp_all add: running_def Let_def)
  then have k: "k < 2" "buf_flag (info_of (group s) i) k = 2" "buf_flag (info_of (group s') i) k = 2" "buf_flag (info_of (group s) j) k = 2"
    using assms(4,5) c j by (simp_all add: staged_def)
  then have p: "file_pending s i k = contents (info_of (group s) i) k" "file_pending s' i k = contents (info_of (group s') i) k"
    using assms(4) c by (simp_all add: file_pending_def pending_def xored_def)
  have "file_pending s' i k = file_pending s i k"
  proof (cases "i = j")
    case True
    have "k' = k \<Longrightarrow> xs = []" using m(3) k(4) by (cases xs) auto
    then show ?thesis using moved_pending [OF m(1) st(1) j k(1)] True by auto
  next
    case False
    then show ?thesis using moved_others(1) [OF m(1)] by simp
  qed
  then have e: "contents (info_of (group s') i) k = contents (info_of (group s) i) k" using p by simp
  have wf: "buf_wf cap (info_of (group s) i)" "buf_wf cap (info_of (group s') i)"
    using running_alive [OF r] running_alive [OF m(2)] assms(5) by blast+
  have "buf_size (info_of (group s') i) k = buf_size (info_of (group s) i) k"
    using length_contents [OF wf(1) k(1)] length_contents [OF wf(2) k(1)] e by simp
  then show ?thesis using e wf(2) c thread_moves_frame(1,3) [OF m(1)] by (simp add: buf_wf_def)
qed

definition at_xor :: "label list" where
  "at_xor = [Recv 0, Store 0, Recv 0, Store 0, Judge]"

definition one_file_more :: "byte list list list" where
  "one_file_more = [[[1], [2], [3]]]"

lemma at_xor_result:
  "map_option (\<lambda>s. (consumer s, thr s 0)) (exec_all 1 at_xor (start 1 \<lparr>written = [], room = 9\<rparr> one_file_more))
    = Some (Xor 0, AtRotate [2] 1)"
  by code_simp

lemma run_xor_undisturbed_witness:
  "\<exists>s s'. consumer s = Xor 0 \<and> exec 1 (Rotate 0) s = Some (Inr s')
    \<and> contents (info_of (group s') 0) 0 = contents (info_of (group s) 0) 0"
proof -
  let ?out = "\<lparr>written = [], room = 9\<rparr>"
  obtain s where s: "exec_all 1 at_xor (start 1 ?out one_file_more) = Some s" "consumer s = Xor 0" "thr s 0 = AtRotate [2] 1"
    using at_xor_result by auto
  have ok: "files_ok 1 one_file_more" by (simp add: files_ok_def one_file_more_def pieces_ok_def)
  note st = exec_all_steps [OF s(1), unfolded start_def]
  have fr: "group_fresh 1 one_file_more (fresh_group 1 (length one_file_more) (int (length (concat (hd one_file_more)))))"
    by (rule fresh_group_fresh) simp
  obtain r where r: "exec 1 (Rotate 0) s = Some r"
    using s(3) by (cases "rotate_bufs 1 0 (group s)") (simp_all add: exec_def)
  obtain s' where s': "r = Inr s'" using group_exec [OF group_reached [OF ok fr st] r] by (auto simp: one_file_more_def)
  show ?thesis
    using run_xor_undisturbed [OF ok fr st s(2), of 0 "Rotate 0" s'] r s(2) unfolding s' by (auto simp: one_file_more_def)
qed

end
