(* ===== verification/GroupOrder.thy ===== *)
theory GroupOrder
  imports GroupMemory GroupRace
begin

text \<open>
  The order of the bytes. Of the interleavings of a group, two kinds of steps can spoil it: the consumer
  takes a buffer that is not the next one (\<open>GroupRace.consumer_overtakes\<close>), or a thread starts to fill
  one that is not the next one (\<open>GroupRace.group_deadlocks\<close>). As long as neither happens, the bytes in
  the two buffers of a file and those still to be stored are, in this order, the rest of the file, every
  XOR takes the same block of all files, and the output is the parity: these two races are the only ways
  in which files of any size can go wrong, among the steps of \<open>GroupRun\<close> (a counter incremented in one step, the two tests of \<open>rotate_bufs\<close> as one).
\<close>

subsection \<open>The races\<close>

text \<open>The buffer that the next block of \<open>cap\<close> bytes is in: they are filled and XORed in turn.\<close>

definition due :: "int \<Rightarrow> tGroupFileInfo \<Rightarrow> nat" where
  "due cap g = nat ((xor_size g div cap) mod 2)"

definition racy :: "int \<Rightarrow> label \<Rightarrow> run \<Rightarrow> bool" where
  "racy cap l s =
     (case l of
        Judge \<Rightarrow> (case consumer s of Poll k \<Rightarrow> buf_full_num (group s) k = file_num (group s) \<and> k \<noteq> due cap (group s) | _ \<Rightarrow> False)
      | Rotate i \<Rightarrow> buf_flag (info_of (group s) i) 0 = 0 \<and> buf_flag (info_of (group s) i) 1 = 0 \<and> due cap (group s) = 1
      | _ \<Rightarrow> False)"

text \<open>A third race needs the tests of \<open>rotate_bufs\<close> divided: a thread that waits with both buffers full finds the first one full;
  the consumer then XORs both and clears their flags; the second test finds buffer 1 empty and opens it, where the undivided step
  opens buffer 0. The runs here do not have it.\<close>

lemma divided_rotation:
  assumes "buf_flag b 0 = 2" "buf_flag b 1 = 2" "alive b" "b' = b\<lparr>buf_flag := (buf_flag b)(0 := 0, 1 := 0)\<rparr>"
  shows "make_writable cap 0 b = Inr b
    \<and> (\<exists>c. make_writable cap 1 b' = Inr c \<and> buf_flag c 0 = 0 \<and> buf_flag c 1 = 1)
    \<and> (\<exists>c. bindE (make_writable cap 0 b') (make_writable cap 1) = Inr c \<and> buf_flag c 0 = 1 \<and> buf_flag c 1 = 0)"
  using assms by (simp add: make_writable_def)

inductive calm_steps :: "int \<Rightarrow> run \<Rightarrow> run \<Rightarrow> bool" for cap where
  calm_refl: "calm_steps cap s s"
| calm_more: "calm_steps cap s s' \<Longrightarrow> exec cap l s' = Some (Inr s'') \<Longrightarrow> \<not> racy cap l s' \<Longrightarrow> calm_steps cap s s''"

lemma due_less: "due cap g < 2"
  by (simp add: due_def nat_less_iff)

subsection \<open>The invariant\<close>

definition in_order :: "int \<Rightarrow> run \<Rightarrow> nat \<Rightarrow> byte list \<Rightarrow> nat \<Rightarrow> bool" where
  "in_order cap s d f i \<longleftrightarrow>
     file_pending s i d @ file_pending s i (1 - d) @ file_unstored s i = drop (nat (xor_size (group s))) f
     \<and> (buf_flag (info_of (group s) i) (1 - d) \<noteq> 0 \<and> \<not> xored (consumer s) i (1 - d) \<longrightarrow>
          buf_flag (info_of (group s) i) d = 2 \<and> int (length (file_pending s i d)) = cap)"

definition calm :: "int \<Rightarrow> byte list list \<Rightarrow> ostream \<Rightarrow> run \<Rightarrow> bool" where
  "calm cap fs out0 s \<longleftrightarrow>
     (let g = group s; d = due cap g
      in running cap (length fs) (int (length (hd fs))) out0 s \<and> correct_flag g = 0 \<and> cap dvd xor_size g
        \<and> (\<forall>k. consumer s = Xor k \<longrightarrow> k = d)
        \<and> (\<forall>k. consumer s = ResetNum k \<or> (\<exists>j. consumer s = ResetFlag k j) \<longrightarrow> k = 1 - d)
        \<and> written (out s) = written out0 @ take (nat (xor_size g)) (parity fs)
        \<and> (\<forall>i < length fs. in_order cap s d (fs ! i) i))"

definition parity_written :: "byte list list \<Rightarrow> ostream \<Rightarrow> run \<Rightarrow> bool" where
  "parity_written fs out0 s \<longleftrightarrow> released (length fs) (int (length (hd fs))) out0 s \<and> written (out s) = written out0 @ parity fs"

lemma calmI:
  assumes "running cap (length fs) (int (length (hd fs))) out0 s" "correct_flag (group s) = 0" "cap dvd xor_size (group s)"
    and "\<And>k. consumer s = Xor k \<Longrightarrow> k = due cap (group s)"
    and "\<And>k. consumer s = ResetNum k \<or> (\<exists>j. consumer s = ResetFlag k j) \<Longrightarrow> k = 1 - due cap (group s)"
    and "written (out s) = written out0 @ take (nat (xor_size (group s))) (parity fs)"
    and "\<And>i. i < length fs \<Longrightarrow> in_order cap s (due cap (group s)) (fs ! i) i"
  shows "calm cap fs out0 s"
  unfolding calm_def Let_def using assms by blast

lemma calm_running: "calm cap fs out0 s \<Longrightarrow> running cap (length fs) (int (length (hd fs))) out0 s"
  by (simp add: calm_def Let_def)

lemma calm_in_order: "calm cap fs out0 s \<Longrightarrow> i < length fs \<Longrightarrow> in_order cap s (due cap (group s)) (fs ! i) i"
  by (simp add: calm_def Let_def)

lemma two_cases: "d < (2 :: nat) \<Longrightarrow> k < 2 \<Longrightarrow> k = d \<or> k = 1 - d"
  by auto

subsection \<open>Threads\<close>

text \<open>A thread stores into the buffer that is due, or into the other one while the due one is full.\<close>

lemma in_order_moves:
  assumes "thread_moves i k full xs s s'" "staged n s" "i < n" "d < 2" "in_order cap s d f i"
    and "xs \<noteq> [] \<Longrightarrow> buf_flag (info_of (group s) i) k = 1"
    and "buf_flag (info_of (group s') i) (1 - d) \<noteq> 0 \<Longrightarrow> \<not> xored (consumer s) i (1 - d) \<Longrightarrow> buf_flag (info_of (group s) i) (1 - d) \<noteq> 0
      \<or> (buf_flag (info_of (group s) i) d = 2 \<and> int (length (file_pending s i d)) = cap)"
  shows "in_order cap s' d f i"
proof -
  have k: "k < 2" and c: "consumer s' = consumer s" and u: "file_unstored s i = xs @ file_unstored s' i"
      and m: "moved k full xs (info_of (group s) i) (info_of (group s') i)"
    using assms(1) by (simp_all add: thread_moves_def moved_def)
  note p = moved_pending [OF assms(1-3)]
  have keep: "buf_flag (info_of (group s) i) (1 - d) \<noteq> 0 \<Longrightarrow> \<not> xored (consumer s) i (1 - d) \<Longrightarrow>
      buf_flag (info_of (group s) i) d = 2 \<and> int (length (file_pending s i d)) = cap"
    using assms(5) by (simp add: in_order_def)
  have other: "file_pending s i (1 - d) = []" if "xs \<noteq> []" "k = d"
  proof -
    have "buf_flag (info_of (group s) i) d \<noteq> 2" using assms(6) that by simp
    then have "buf_flag (info_of (group s) i) (1 - d) = 0 \<or> xored (consumer s) i (1 - d)" using keep by blast
    then show ?thesis by (auto simp: file_pending_def pending_def)
  qed
  have "file_pending s' i d @ file_pending s' i (1 - d) @ file_unstored s' i
      = file_pending s i d @ file_pending s i (1 - d) @ file_unstored s i"
    using p [of d] p [of "1 - d"] assms(4) u other two_cases [OF assms(4) k] by (cases "xs = []") auto
  moreover have "buf_flag (info_of (group s') i) d = 2 \<and> int (length (file_pending s' i d)) = cap"
    if a: "buf_flag (info_of (group s') i) (1 - d) \<noteq> 0" "\<not> xored (consumer s') i (1 - d)"
  proof -
    have f: "buf_flag (info_of (group s) i) d = 2" "int (length (file_pending s i d)) = cap"
      using assms(7) keep a c by auto
    have "file_pending s' i d = file_pending s i d"
      using p [of d] assms(4,6) f(1) by (cases "xs = []") auto
    then show ?thesis using m f assms(4) by (simp add: moved_def)
  qed
  ultimately show ?thesis using assms(5) thread_moves_frame(3) [OF assms(1)] by (simp add: in_order_def)
qed

lemma in_order_others:
  assumes "thread_moves i k full xs s s'" "j \<noteq> i" "in_order cap s d f j"
  shows "in_order cap s' d f j"
proof -
  have "consumer s' = consumer s" using assms(1) by (simp add: thread_moves_def)
  then show ?thesis
    using assms(3) moved_others [OF assms(1,2)] thread_moves_frame(3) [OF assms(1)] thread_moves_frame(9) [OF assms(1,2)]
    by (simp add: in_order_def)
qed

lemma calm_moves:
  assumes "calm cap fs out0 s" "thread_moves i k full xs s s'" "running cap (length fs) (int (length (hd fs))) out0 s'"
    and "i < length fs \<Longrightarrow> in_order cap s' (due cap (group s)) (fs ! i) i"
  shows "calm cap fs out0 s'"
proof -
  note fr = thread_moves_frame [OF assms(2)]
  have "due cap (group s') = due cap (group s)" using fr(3) by (simp add: due_def)
  moreover have "consumer s' = consumer s" "out s' = out s" using assms(2) by (simp_all add: thread_moves_def)
  moreover have "in_order cap s' (due cap (group s)) (fs ! j) j" if "j < length fs" for j
    using assms(4) in_order_others [OF assms(2) _ calm_in_order [OF assms(1) that]] that by (cases "j = i") auto
  ultimately show ?thesis using assms(1,3) fr(3,5) by (simp add: calm_def Let_def)
qed

lemma calm_staged: "calm cap fs out0 s \<Longrightarrow> staged (length fs) s"
  by (simp add: calm_def running_def Let_def)

lemma calm_not_xored:
  assumes "calm cap fs out0 s"
  shows "\<not> xored (consumer s) i (due cap (group s))"
proof
  assume x: "xored (consumer s) i (due cap (group s))"
  then have "due cap (group s) = 1 - due cap (group s)" using assms by (auto simp: calm_def Let_def xored_def split: consumer.splits)
  then show False using due_less [of cap "group s"] by (auto simp: less_2_cases_iff)
qed

lemma calm_recv:
  assumes "calm cap fs out0 s" "exec cap (Recv i) s = Some r"
  shows "\<exists>s'. r = Inr s' \<and> calm cap fs out0 s'"
proof -
  obtain s' where s': "r = Inr s'" "running cap (length fs) (int (length (hd fs))) out0 s'" "thread_moves i 0 False [] s s'"
      "info_of (group s') i = info_of (group s) i"
    using recv_moves [OF calm_running [OF assms(1)] assms(2)] by blast
  have "in_order cap s' (due cap (group s)) (fs ! i) i" if "i < length fs"
    by (rule in_order_moves [OF s'(3) calm_staged [OF assms(1)] that due_less calm_in_order [OF assms(1) that]]) (use s'(4) in simp_all)
  then show ?thesis using s'(1) calm_moves [OF assms(1) s'(3,2)] by blast
qed

lemma calm_store:
  assumes "calm cap fs out0 s" "exec cap (Store i) s = Some r"
  shows "\<exists>s'. r = Inr s' \<and> calm cap fs out0 s'"
proof -
  obtain s' k full xs where s': "r = Inr s'" "running cap (length fs) (int (length (hd fs))) out0 s'" "thread_moves i k full xs s s'"
      "advance k full xs (info_of (group s) i) (info_of (group s') i)"
    using store_moves [OF calm_running [OF assms(1)] assms(2)] by blast
  have "in_order cap s' (due cap (group s)) (fs ! i) i" if "i < length fs"
    by (rule in_order_moves [OF s'(3) calm_staged [OF assms(1)] that due_less calm_in_order [OF assms(1) that]])
       (use s'(4) in \<open>auto simp: advance_def split: if_splits\<close>)
  then show ?thesis using s'(1) calm_moves [OF assms(1) s'(3,2)] by blast
qed

text \<open>A buffer that becomes writable is the one that is due, unless that one is full.\<close>

lemma opened_in_turn:
  assumes "calm cap fs out0 s" "i < length fs" "thr s i \<noteq> Idle" "opened (info_of (group s) i) b'" "\<not> racy cap (Rotate i) s"
    and "buf_flag b' (1 - due cap (group s)) \<noteq> 0" "buf_flag (info_of (group s) i) (1 - due cap (group s)) = 0"
  shows "buf_flag (info_of (group s) i) (due cap (group s)) = 2 \<and> int (length (file_pending s i (due cap (group s)))) = cap"
proof -
  let ?d = "due cap (group s)" and ?b = "info_of (group s) i"
  have d: "?d < 2" by (rule due_less)
  have f: "file_inv cap (int (length (hd fs))) (get_file (group s) i) (thr s i) (todo s i)"
    using calm_running [OF assms(1)] assms(2) by (simp add: running_def Let_def)
  then have fl: "buf_flag ?b ?d \<in> {0, 1, 2}" "buf_flag ?b ?d = 2 \<Longrightarrow> buf_size ?b ?d = cap" and wf: "buf_wf cap ?b"
    using d assms(3) unfolding file_inv_def Let_def flags_ok_def info_of_def by blast+
  obtain k where k: "k < 2" "buf_flag ?b k = 0" "buf_flag ?b (1 - k) \<noteq> 1" "k = 1 \<longrightarrow> buf_flag ?b 0 \<noteq> 0" "buf_flag b' = (buf_flag ?b)(k := 1)"
    using assms(4,6,7) unfolding opened_def by auto
  have "k = 1 - ?d" using k(5) assms(6,7) by (auto split: if_splits)
  then have "buf_flag ?b ?d \<noteq> 1" "\<not> (?d = 0 \<and> buf_flag ?b ?d = 0)" using k(3,4) d by (auto simp: less_2_cases_iff)
  moreover have "\<not> (?d = 1 \<and> buf_flag ?b ?d = 0)" using assms(5,7) by (auto simp: racy_def)
  ultimately have two: "buf_flag ?b ?d = 2" using fl(1) d by (auto simp: less_2_cases_iff)
  then have "file_pending s i ?d = contents ?b ?d" using calm_not_xored [OF assms(1)] by (simp add: file_pending_def pending_def)
  then show ?thesis using two fl(2) length_contents [OF wf d] by simp
qed

lemma calm_rotate:
  assumes "calm cap fs out0 s" "exec cap (Rotate i) s = Some r" "\<not> racy cap (Rotate i) s"
  shows "\<exists>s'. r = Inr s' \<and> calm cap fs out0 s'"
proof -
  obtain s' where s': "r = Inr s'" "running cap (length fs) (int (length (hd fs))) out0 s'" "thread_moves i 0 False [] s s'"
      "opened (info_of (group s) i) (info_of (group s') i)"
    using rotate_moves [OF calm_running [OF assms(1)] assms(2)] by blast
  have ni: "thr s i \<noteq> Idle" using assms(2) by (auto simp: exec_def)
  have "in_order cap s' (due cap (group s)) (fs ! i) i" if i: "i < length fs"
    by (rule in_order_moves [OF s'(3) calm_staged [OF assms(1)] i due_less calm_in_order [OF assms(1) i]])
       (use opened_in_turn [OF assms(1) i ni s'(4) assms(3)] in auto)
  then show ?thesis using s'(1) calm_moves [OF assms(1) s'(3,2)] by blast
qed

subsection \<open>The consumer\<close>

lemma in_order_same:
  assumes "info_of (group s') i = info_of (group s) i" "xored (consumer s') i = xored (consumer s) i"
    and "thr s' = thr s" "todo s' = todo s" "xor_size (group s') = xor_size (group s)"
  shows "in_order cap s' d f i \<longleftrightarrow> in_order cap s d f i"
  using assms by (simp add: in_order_def file_pending_def file_unstored_def)

lemma calm_consumer:
  assumes "calm cap fs out0 s" "running cap (length fs) (int (length (hd fs))) out0 (s\<lparr>consumer := c\<rparr>)"
    and "\<And>i k. i < length fs \<Longrightarrow> xored c i k \<longleftrightarrow> xored (consumer s) i k"
    and "\<And>k. c = Xor k \<Longrightarrow> k = due cap (group s)" "\<And>k. c \<noteq> ResetNum k" "\<And>k j. c \<noteq> ResetFlag k j"
  shows "calm cap fs out0 (s\<lparr>consumer := c\<rparr>)"
proof -
  let ?s = "s\<lparr>consumer := c\<rparr>"
  have "in_order cap ?s d f i \<longleftrightarrow> in_order cap s d f i" if "i < length fs" for d f i
    by (rule in_order_same) (use assms(3) that in \<open>auto intro!: ext\<close>)
  then show ?thesis using assms(1,2,4-6) by (simp add: calm_def Let_def)
qed

lemma calm_poll:
  assumes "calm cap fs out0 s" "consumer s = Poll k" "exec cap Judge s = Some r" "\<not> racy cap Judge s"
  shows "\<exists>s'. r = Inr s' \<and> calm cap fs out0 s'"
proof -
  let ?c = "if buf_full_num (group s) k = file_num (group s) then Xor k else if k = 0 then Poll 1 else Check"
  have r: "r = Inr (s\<lparr>consumer := ?c\<rparr>)" using assms(2,3) by (auto simp: exec_def exec_judge_def Let_def)
  then have "running cap (length fs) (int (length (hd fs))) out0 (s\<lparr>consumer := ?c\<rparr>)"
    using running_poll [OF calm_running [OF assms(1)] assms(2,3)] by force
  then have "calm cap fs out0 (s\<lparr>consumer := ?c\<rparr>)"
    by (rule calm_consumer [OF assms(1)]) (use assms(2,4) in \<open>auto simp: xored_def racy_def split: if_splits\<close>)
  then show ?thesis using r by blast
qed

lemma calm_check:
  assumes "calm cap fs out0 s" "consumer s = Check" "exec cap Judge s = Some r"
  shows "\<exists>s'. r = Inr s' \<and> calm cap fs out0 s'"
proof -
  have "xor_flag (group s) = 0" "correct_flag (group s) = 0" using assms(1) by (simp_all add: calm_def running_def Let_def)
  then have r: "r = Inr (s\<lparr>consumer := Poll 0\<rparr>)" using assms(2,3) by (simp add: exec_def exec_judge_def Let_def)
  then have "running cap (length fs) (int (length (hd fs))) out0 (s\<lparr>consumer := Poll 0\<rparr>)"
    using running_check [OF calm_running [OF assms(1)] assms(2,3)] by force
  then have "calm cap fs out0 (s\<lparr>consumer := Poll 0\<rparr>)"
    by (rule calm_consumer [OF assms(1)]) (use assms(2) in \<open>auto simp: xored_def\<close>)
  then show ?thesis using r by blast
qed

lemma calm_reset_num:
  assumes "calm cap fs out0 s" "consumer s = ResetNum k" "exec cap Judge s = Some r"
  shows "\<exists>s'. r = Inr s' \<and> calm cap fs out0 s'"
proof -
  let ?s = "s\<lparr>group := reset_num k (group s), consumer := ResetFlag k 0\<rparr>"
  note r = running_reset_num [OF calm_running [OF assms(1)] assms(2,3)]
  have "xored (ResetFlag k 0) i = xored (ResetNum k) i" for i by (rule ext) (simp add: xored_def)
  then have "in_order cap ?s d f i \<longleftrightarrow> in_order cap s d f i" for d f i
    by (intro in_order_same) (use assms(2) in \<open>simp_all add: info_of_def\<close>)
  moreover have "due cap (group ?s) = due cap (group s)" by (simp add: due_def)
  ultimately have "calm cap fs out0 ?s" using assms(1,2) r(2) by (simp add: calm_def Let_def)
  then show ?thesis using r(1) by blast
qed

lemma calm_reset_flag:
  assumes "calm cap fs out0 s" "consumer s = ResetFlag k i" "exec cap Judge s = Some r"
  shows "\<exists>s'. r = Inr s' \<and> calm cap fs out0 s'"
proof -
  obtain s' where s': "r = Inr s'" "running cap (length fs) (int (length (hd fs))) out0 s'"
      "s' = (if i < length fs then flag_cleared k i s else s\<lparr>consumer := Check\<rparr>)"
    using running_reset_flag [OF calm_running [OF assms(1)] assms(2,3)] by blast
  have "calm cap fs out0 s'"
  proof (cases "i < length fs")
    case True
    let ?s = "flag_cleared k i s"
    have k: "k = 1 - due cap (group s)" using assms(1,2) by (simp add: calm_def Let_def)
    have i: "i < length (single_file_array (group s))" using calm_running [OF assms(1)] True by (simp add: running_def Let_def)
    note same = flag_cleared_same [OF i assms(2)]
    have fr: "xor_size (group ?s) = xor_size (group s)" "correct_flag (group ?s) = correct_flag (group s)" "out ?s = out s"
        "consumer ?s = ResetFlag k (Suc i)"
      by (simp_all add: flag_cleared_def)
    then have due: "due cap (group ?s) = due cap (group s)" by (simp add: due_def)
    have "in_order cap ?s (due cap (group s)) (fs ! j) j" if "j < length fs" for j
      using calm_in_order [OF assms(1) that] same(4,5) fr k same(1) same(2) [of j] same(6) [of j] assms(2)
      unfolding in_order_def by (cases "j = i") simp_all
    then show ?thesis using assms(1) s'(2,3) True fr due k by (simp add: calm_def Let_def)
  next
    case False
    then have "running cap (length fs) (int (length (hd fs))) out0 (s\<lparr>consumer := Check\<rparr>)" using s'(2,3) by simp
    then have "calm cap fs out0 (s\<lparr>consumer := Check\<rparr>)"
      by (rule calm_consumer [OF assms(1)]) (use assms(2) False in \<open>auto simp: xored_def\<close>)
    then show ?thesis using s'(3) False by simp
  qed
  then show ?thesis using s'(1) by blast
qed

text \<open>The buffer that is due holds the next block of every file when it is XORed.\<close>

lemma due_block:
  assumes "calm cap fs out0 s" "consumer s = Xor d" "i < length fs"
  shows "contents (info_of (group s) i) d = take (nat cap) (drop (nat (xor_size (group s))) (fs ! i))"
    and "file_pending s i (1 - d) @ file_unstored s i = drop (nat cap) (drop (nat (xor_size (group s))) (fs ! i))"
proof -
  let ?b = "info_of (group s) i"
  have d: "d = due cap (group s)" using assms(1,2) by (simp add: calm_def Let_def)
  have d2: "d < 2" unfolding d by (rule due_less)
  have flag: "buf_flag ?b d = 2" using calm_staged [OF assms(1)] assms(2,3) by (simp add: staged_def)
  have x: "\<not> xored (consumer s) i k" for k using assms(2) by (simp add: xored_def)
  have c: "file_pending s i d = contents ?b d" using flag x by (simp add: file_pending_def pending_def)
  have f: "file_inv cap (int (length (hd fs))) (get_file (group s) i) (thr s i) (todo s i)"
    using calm_running [OF assms(1)] assms(3) by (simp add: running_def Let_def)
  then have wf: "buf_wf cap ?b" by (simp add: file_inv_def Let_def info_of_def)
  then have size: "buf_size ?b d \<le> cap" "int (length (contents ?b d)) = buf_size ?b d"
    using d2 length_contents [OF wf d2] by (auto simp: buf_wf_def)
  have order: "contents ?b d @ file_pending s i (1 - d) @ file_unstored s i = drop (nat (xor_size (group s))) (fs ! i)"
    using calm_in_order [OF assms(1,3)] c d by (simp add: in_order_def)
  have "buf_size ?b d = cap \<or> thr s i = Idle \<and> todo s i = []"
    using f flag d2 unfolding file_inv_def Let_def flags_ok_def info_of_def by blast
  moreover have "buf_size ?b d = cap \<or> file_pending s i (1 - d) = []"
    using calm_in_order [OF assms(1,3)] x c size(2) d by (auto simp: in_order_def file_pending_def pending_def)
  ultimately consider "buf_size ?b d = cap" | "file_pending s i (1 - d) @ file_unstored s i = []"
    by (auto simp: file_unstored_def unstored_def in_flight_def)
  then have "contents ?b d = take (nat cap) (drop (nat (xor_size (group s))) (fs ! i))
    \<and> file_pending s i (1 - d) @ file_unstored s i = drop (nat cap) (drop (nat (xor_size (group s))) (fs ! i))"
    unfolding order [symmetric] using size by cases auto
  then show "contents ?b d = take (nat cap) (drop (nat (xor_size (group s))) (fs ! i))"
    and "file_pending s i (1 - d) @ file_unstored s i = drop (nat cap) (drop (nat (xor_size (group s))) (fs ! i))"
    by blast+
qed

lemma calm_within:
  assumes "calm cap fs out0 s" "fs \<noteq> []"
  shows "0 \<le> xor_size (group s)" "nat (xor_size (group s)) \<le> length (hd fs)"
proof -
  have r: "sized_output (int (length (hd fs))) out0 s" "balanced (int (length (hd fs))) s 0"
    using calm_running [OF assms(1)] assms by (simp_all add: calm_def running_def Let_def)
  show "0 \<le> xor_size (group s)" using r(1) by (simp add: sized_output_def)
  show "nat (xor_size (group s)) \<le> length (hd fs)" using r(2) unfolding balanced_def by linarith
qed

text \<open>So all buffers have the same size, and their parity is the next block of the parity of the files.\<close>

lemma due_full:
  assumes "calm cap fs out0 s" "consumer s = Xor d" "fs \<noteq> []" "same_length (length (hd fs)) fs"
  defines "x \<equiv> nat (xor_size (group s))"
  defines "m \<equiv> min (nat cap) (length (hd fs) - x)"
  shows "full_bufs (group s) (length fs) d m" "parity (group_contents (group s) (length fs) d) = take m (drop x (parity fs))"
proof -
  have d2: "d < 2" using assms(1,2) due_less by (simp add: calm_def Let_def)
  have len: "length (fs ! i) = length (hd fs)" if "i < length fs" for i using assms(4) nth_mem [OF that] unfolding same_length_def by blast
  have blk: "contents (info_of (group s) i) d = take m (drop x (fs ! i))" if "i < length fs" for i
    using due_block(1) [OF assms(1,2) that] len [OF that] by (simp add: m_def x_def min_def)
  have wf: "buf_wf cap (info_of (group s) i)" if "i < length fs" for i
    using running_alive [OF calm_running [OF assms(1)]] that by blast
  have size: "buf_size (info_of (group s) i) d = int m" if "i < length fs" for i
  proof -
    have "length (take m (drop x (fs ! i))) = m" using len [OF that] by (simp add: m_def)
    then show ?thesis using length_contents [OF wf [OF that] d2] blk [OF that] by simp
  qed
  have "alive (info_of (group s) i) \<and> m \<le> length (in_buf (info_of (group s) i) d)" if "i < length fs" for i
  proof -
    have "alive (info_of (group s) i)" "length (in_buf (info_of (group s) i) d) = nat cap"
      using wf [OF that] d2 unfolding buf_wf_def by blast+
    then show ?thesis by (simp add: m_def)
  qed
  then show "full_bufs (group s) (length fs) d m" using size assms(3) unfolding full_bufs_def by blast
  have "group_contents (group s) (length fs) d = map (\<lambda>f. take m (drop x f)) fs"
    by (rule nth_equalityI) (simp_all add: group_contents_def blk)
  moreover have "x + m \<le> length (hd fs)" using calm_within(2) [OF assms(1,3)] by (simp add: m_def x_def)
  ultimately show "parity (group_contents (group s) (length fs) d) = take m (drop x (parity fs))"
    using parity_take_drop [OF assms(3,4)] by simp
qed

lemma due_next:
  assumes "0 < cap" "cap dvd xor_size g" "xor_size h = xor_size g + cap"
  shows "due cap h = 1 - due cap g" "1 - due cap h = due cap g"
proof -
  have e: "xor_size h div cap = xor_size g div cap + 1" using assms by simp
  have "(q + 1) mod 2 = 1 - q mod 2 \<and> (q mod 2 = 0 \<or> q mod 2 = 1)" for q :: int by presburger
  then show "due cap h = 1 - due cap g" "1 - due cap h = due cap g"
    unfolding due_def e by (auto simp del: mod_add_self2)
qed

text \<open>What the group needs: the files of one size, and room for the result.\<close>

definition calm_ok :: "int \<Rightarrow> byte list list \<Rightarrow> ostream \<Rightarrow> bool" where
  "calm_ok cap fs out0 \<longleftrightarrow> fs \<noteq> [] \<and> length fs \<le> 50 \<and> 0 < cap \<and> same_length (length (hd fs)) fs \<and> length (hd fs) \<le> room out0"

lemma in_order_xored:
  assumes "file_pending s i d @ file_unstored s i = drop (nat (xor_size (group s))) f" "file_pending s i (1 - d) = []"
    and "xored (consumer s) i (1 - d)"
  shows "in_order cap s d f i"
  using assms by (simp add: in_order_def)

text \<open>The state behind that XOR.\<close>

definition block_size :: "int \<Rightarrow> byte list list \<Rightarrow> run \<Rightarrow> nat" where
  "block_size cap fs s = min (nat cap) (length (hd fs) - nat (xor_size (group s)))"

definition block_xored :: "int \<Rightarrow> byte list list \<Rightarrow> nat \<Rightarrow> run \<Rightarrow> run" where
  "block_xored cap fs d s = s\<lparr>
     out := (out s)\<lparr>written := written (out s) @ parity (group_contents (group s) (length fs) d), room := room (out s) - block_size cap fs s\<rparr>,
     group := xor_done (length fs) (block_size cap fs s) (xor_memory (length fs) d (block_size cap fs s) (group s)),
     consumer := ResetNum d\<rparr>"

lemma block_xored_exec:
  assumes "calm cap fs out0 s" "consumer s = Xor d" "calm_ok cap fs out0"
  shows "exec cap Judge s = Some (Inr (block_xored cap fs d s))"
    and "xor_size (group (block_xored cap fs d s)) = xor_size (group s) + int (block_size cap fs s)"
    and "nat (xor_size (group (block_xored cap fs d s))) = nat (xor_size (group s)) + block_size cap fs s"
    and "correct_flag (group (block_xored cap fs d s)) = 0"
    and "written (out (block_xored cap fs d s)) = written out0 @ take (nat (xor_size (group (block_xored cap fs d s)))) (parity fs)"
proof -
  let ?g = "group s" and ?n = "length fs" and ?s = "block_xored cap fs d s"
  have ok: "fs \<noteq> []" "?n \<le> 50" "same_length (length (hd fs)) fs" "length (hd fs) \<le> room out0" using assms(3) by (auto simp: calm_ok_def)
  note full = due_full [OF assms(1,2) ok(1,3), folded block_size_def]
  note x = calm_within [OF assms(1) ok(1)]
  have cf: "correct_flag ?g = 0" and n: "file_num ?g = int ?n"
      and w: "written (out s) = written out0 @ take (nat (xor_size ?g)) (parity fs)"
    using assms(1) by (simp_all add: calm_def Let_def running_def)
  have "int (room (out s)) = int (room out0) - xor_size ?g"
    using calm_running [OF assms(1)] cf ok(4) by (simp add: running_def Let_def sized_output_def)
  then have "block_size cap fs s \<le> room (out s)" using x ok(4) unfolding block_size_def by linarith
  from buf_xor_room [OF full(1) this] show "exec cap Judge s = Some (Inr ?s)"
    using assms(2) n ok(2) by (simp add: exec_def exec_judge_def Let_def block_xored_def)
  show xs: "xor_size (group ?s) = xor_size ?g + int (block_size cap fs s)" "correct_flag (group ?s) = 0"
    using cf by (simp_all add: block_xored_def)
  then show nx: "nat (xor_size (group ?s)) = nat (xor_size ?g) + block_size cap fs s" using x(1) by simp
  show "written (out ?s) = written out0 @ take (nat (xor_size (group ?s))) (parity fs)"
    unfolding nx using w full(2) by (simp add: block_xored_def take_add)
qed

text \<open>Behind a block that is not the last one the other buffer is due, and it holds what follows.\<close>

lemma block_xored_calm:
  assumes "calm cap fs out0 s" "consumer s = Xor d" "calm_ok cap fs out0" "nat (xor_size (group s)) + block_size cap fs s \<noteq> length (hd fs)"
    and "running cap (length fs) (int (length (hd fs))) out0 (block_xored cap fs d s)"
  shows "calm cap fs out0 (block_xored cap fs d s)"
proof -
  let ?g = "group s" and ?s = "block_xored cap fs d s" and ?m = "block_size cap fs s"
  note bx = block_xored_exec [OF assms(1-3)]
  have ok: "fs \<noteq> []" "0 < cap" "same_length (length (hd fs)) fs" using assms(3) by (auto simp: calm_ok_def)
  have d: "d = due cap ?g" and dvd: "cap dvd xor_size ?g" using assms(1,2) by (simp_all add: calm_def Let_def)
  have d2: "d < 2" unfolding d by (rule due_less)
  have m: "?m = nat cap" using assms(4) calm_within(2) [OF assms(1) ok(1)] unfolding block_size_def by linarith
  have step: "xor_size (group ?s) = xor_size ?g + cap" using bx(2) m ok(2) by simp
  note D = due_next [OF ok(2) dvd step, folded d]
  have other: "1 - (1 - d) = d" "1 - d \<noteq> d" using d2 by (cases d; simp)+
  have c: "consumer ?s = ResetNum d" by (simp add: block_xored_def)
  have ne: "xor_size ?g + int ?m \<noteq> int (length (hd fs))" using assms(4) calm_within(1) [OF assms(1) ok(1)] by linarith
  note full = due_full [OF assms(1,2) ok(1,3), folded block_size_def]
  note rt = retouched_done [OF calm_running [OF assms(1)] assms(2) full(1) ne]
  show ?thesis
  proof (rule calmI [OF assms(5) bx(4)])
    show "cap dvd xor_size (group ?s)" unfolding step using dvd by simp
    show "k = due cap (group ?s)" if "consumer ?s = Xor k" for k using that unfolding c by simp
    show "k = 1 - due cap (group ?s)" if "consumer ?s = ResetNum k \<or> (\<exists>j. consumer ?s = ResetFlag k j)" for k
      using that D(2) unfolding c by auto
    show "written (out ?s) = written out0 @ take (nat (xor_size (group ?s))) (parity fs)" by (rule bx(5))
    fix i assume i: "i < length fs"
    note xp = xored_pending [OF calm_running [OF assms(1)] assms(2) full(1) i rt block_xored_def]
    have "file_pending ?s i (1 - d) @ file_unstored ?s i = drop (nat cap) (drop (nat (xor_size ?g)) (fs ! i))"
      using xp(4,5) due_block(2) [OF assms(1,2) i] other(2) by simp
    also have "\<dots> = drop (nat (xor_size (group ?s))) (fs ! i)" unfolding bx(3) m by (simp add: add.commute)
    finally show "in_order cap ?s (due cap (group ?s)) (fs ! i) i"
      unfolding D(1) using xp(3) c by (intro in_order_xored) (simp_all add: other xored_def del: One_nat_def)
  qed
qed

lemma calm_xor:
  assumes "calm cap fs out0 s" "consumer s = Xor d" "exec cap Judge s = Some r" "calm_ok cap fs out0"
  shows "\<exists>s'. r = Inr s' \<and> (calm cap fs out0 s' \<or> parity_written fs out0 s')"
proof -
  let ?n = "length fs" and ?sz = "length (hd fs)" and ?s = "block_xored cap fs d s" and ?m = "block_size cap fs s"
  note run = calm_running [OF assms(1)] and bx = block_xored_exec [OF assms(1,2,4)]
  have ok: "fs \<noteq> []" "0 < ?n" "?n \<le> 50" using assms(4) by (auto simp: calm_ok_def)
  have r: "r = Inr ?s" using assms(3) bx(1) by simp
  have next_inv: "running cap ?n (int ?sz) out0 ?s \<or> released ?n (int ?sz) out0 ?s"
    using running_xor [OF run assms(2,3) ok(2,3)] r by simp
  have flag: "xor_flag (group ?s) = (if xor_size (group s) + int ?m = int ?sz then 1 else 0)"
    using run by (simp add: block_xored_def running_def Let_def)
  show ?thesis
  proof (cases "nat (xor_size (group s)) + ?m = ?sz")
    case True
    then have "xor_flag (group ?s) = 1" using flag calm_within(1) [OF assms(1) ok(1)] by simp
    then have "released ?n (int ?sz) out0 ?s" using next_inv by (auto simp: running_def Let_def)
    moreover have "written (out ?s) = written out0 @ parity fs" using bx(5) unfolding bx(3) True by simp
    ultimately show ?thesis using r by (simp add: parity_written_def)
  next
    case False
    then have "xor_flag (group ?s) = 0" using flag calm_within(1) [OF assms(1) ok(1)] by simp
    then have "running cap ?n (int ?sz) out0 ?s" using next_inv by (auto simp: released_def)
    then show ?thesis using r block_xored_calm [OF assms(1,2,4) False] by blast
  qed
qed

definition calm_inv :: "int \<Rightarrow> byte list list \<Rightarrow> ostream \<Rightarrow> run \<Rightarrow> bool" where
  "calm_inv cap fs out0 s \<longleftrightarrow> calm cap fs out0 s \<or> parity_written fs out0 s"

lemma calm_judge:
  assumes "calm cap fs out0 s" "exec cap Judge s = Some r" "\<not> racy cap Judge s" "calm_ok cap fs out0"
  shows "\<exists>s'. r = Inr s' \<and> calm_inv cap fs out0 s'"
proof (cases "consumer s")
  case (Poll k)
  then show ?thesis using calm_poll [OF assms(1) _ assms(2,3)] unfolding calm_inv_def by blast
next
  case (Xor k)
  then show ?thesis using calm_xor [OF assms(1) _ assms(2,4)] unfolding calm_inv_def by blast
next
  case (ResetNum k)
  then show ?thesis using calm_reset_num [OF assms(1) _ assms(2)] unfolding calm_inv_def by blast
next
  case (ResetFlag k i)
  then show ?thesis using calm_reset_flag [OF assms(1) _ assms(2)] unfolding calm_inv_def by blast
next
  case Check
  then show ?thesis using calm_check [OF assms(1) _ assms(2)] unfolding calm_inv_def by blast
next
  case (Done c)
  then show ?thesis using assms(2) by (simp add: exec_def exec_judge_def Let_def)
qed

lemma written_step:
  assumes "parity_written fs out0 s" "exec cap l s = Some (Inr s')"
  shows "parity_written fs out0 s'"
proof -
  have rel: "released (length fs) (int (length (hd fs))) out0 s" using assms(1) by (simp add: parity_written_def)
  then have "released (length fs) (int (length (hd fs))) out0 s'" using released_step [OF rel assms(2)] by simp
  moreover have "out s' = out s"
    using rel assms(2) by (cases l) (auto simp: released_def exec_def exec_judge_def Let_def split: consumer.splits if_splits)
  ultimately show ?thesis using assms(1) by (simp add: parity_written_def)
qed

lemma calm_exec:
  assumes "calm_inv cap fs out0 s" "exec cap l s = Some (Inr s')" "\<not> racy cap l s" "calm_ok cap fs out0"
  shows "calm_inv cap fs out0 s'"
proof (cases "parity_written fs out0 s")
  case True
  then show ?thesis using written_step [OF True assms(2)] by (simp add: calm_inv_def)
next
  case False
  then have c: "calm cap fs out0 s" using assms(1) by (simp add: calm_inv_def)
  show ?thesis
  proof (cases l)
    case (Recv i)
    then show ?thesis using calm_recv [OF c] assms(2) unfolding calm_inv_def by blast
  next
    case (Store i)
    then show ?thesis using calm_store [OF c] assms(2) unfolding calm_inv_def by blast
  next
    case (Rotate i)
    then show ?thesis using calm_rotate [OF c] assms(2,3) unfolding calm_inv_def by blast
  next
    case Judge
    then show ?thesis using calm_judge [OF c] assms(2-4) by blast
  qed
qed

lemma calm_reached:
  "calm_steps cap s s' \<Longrightarrow> calm_inv cap fs out0 s \<Longrightarrow> calm_ok cap fs out0 \<Longrightarrow> calm_inv cap fs out0 s'"
  by (induction rule: calm_steps.induct) (auto intro: calm_exec)

subsection \<open>The group\<close>

lemma files_calm_ok:
  assumes "files_ok cap pieces" "length (concat (hd pieces)) \<le> room out0"
  shows "calm_ok cap (map concat pieces) out0" "hd (map concat pieces) = concat (hd pieces)"
proof -
  have ok: "pieces \<noteq> []" "length pieces \<le> 50" "0 < cap"
      and len: "\<And>ps. ps \<in> set pieces \<Longrightarrow> length (concat ps) = length (concat (hd pieces))"
    using assms(1) unfolding files_ok_def by blast+
  show hd: "hd (map concat pieces) = concat (hd pieces)" using ok(1) by (simp add: hd_map)
  have "same_length (length (concat (hd pieces))) (map concat pieces)"
    unfolding same_length_def using len by (metis (no_types, lifting) in_set_conv_nth length_map nth_map nth_mem)
  then show "calm_ok cap (map concat pieces) out0" using ok assms(2) unfolding calm_ok_def hd by simp
qed

lemma start_calm:
  assumes "files_ok cap pieces" "group_fresh cap pieces g" "length (concat (hd pieces)) \<le> room out0"
  shows "calm cap (map concat pieces) out0 (start_from g out0 pieces)"
proof -
  let ?s = "start_from g out0 pieces"
  have z: "xor_size g = 0" "correct_flag g = 0" using assms(2) by (simp_all add: group_fresh_def)
  then have d: "due cap g = 0" by (simp add: due_def)
  have "in_order cap ?s 0 (concat (pieces ! i)) i" if i: "i < length pieces" for i
  proof -
    have "file_fresh cap (get_file g i)" using assms(2) i by (simp add: group_fresh_def)
    then have "buf_flag (info_of g i) 1 = 0" "contents (info_of g i) 0 = []" "contents (info_of g i) 1 = []"
      by (simp_all add: file_fresh_def info_of_def contents_def)
    then show ?thesis
      using z(1) i by (simp add: in_order_def file_pending_def pending_def file_unstored_def unstored_def in_flight_def)
  qed
  then show ?thesis
    using start_running [OF assms(1,2), of out0] files_calm_ok(2) [OF assms(1,3)] z d by (simp add: calm_def Let_def)
qed

lemma calm_group:
  assumes "files_ok cap pieces" "group_fresh cap pieces g" "length (concat (hd pieces)) \<le> room out0"
    and "calm_steps cap (start_from g out0 pieces) s"
  shows "calm_inv cap (map concat pieces) out0 s"
  by (rule calm_reached [OF assms(4) _ files_calm_ok(1) [OF assms(1,3)]]) (use start_calm [OF assms(1-3)] in \<open>simp add: calm_inv_def\<close>)

lemma calm_inv_written:
  assumes "calm_inv cap fs out0 s"
  shows "written (out s) = written out0 @ take (nat (xor_size (group s))) (parity fs)" "correct_flag (group s) = 0"
    and "consumer s = Done r \<Longrightarrow> r = RIGHT \<and> written (out s) = written out0 @ parity fs"
  using assms by (auto simp: calm_inv_def calm_def parity_written_def running_def released_def Let_def)

text \<open>A run is free of races, or some step of it is one.\<close>

lemma steps_calm_or_racy:
  "steps cap s s' \<Longrightarrow> calm_steps cap s s' \<or> (\<exists>t l u. calm_steps cap s t \<and> exec cap l t = Some (Inr u) \<and> racy cap l t \<and> steps cap u s')"
proof (induction rule: steps.induct)
  case (refl s)
  then show ?case by (simp add: calm_refl)
next
  case (more s s' s'')
  from more.hyps(2) obtain l where l: "exec cap l s' = Some (Inr s'')" by (rule stepE)
  show ?case
  proof (cases "calm_steps cap s s'")
    case True
    show ?thesis
    proof (cases "racy cap l s'")
      case True
      then show ?thesis using \<open>calm_steps cap s s'\<close> l steps.refl by blast
    next
      case False
      then show ?thesis using calm_more [OF \<open>calm_steps cap s s'\<close> l] by blast
    qed
  next
    case False
    then show ?thesis using more.IH steps.more [OF _ more.hyps(2)] by blast
  qed
qed

subsection \<open>Properties\<close>

text \<open>Files of any size: as long as no step has been a race, what has been written is the beginning of the parity
  of the files, no error has been recorded, and when \<open>judge_xor_condition\<close> returns it reports success and
  the whole parity has been written.\<close>

theorem calm_group_parity:
  assumes "files_ok cap pieces" "group_fresh cap pieces g" "length (concat (hd pieces)) \<le> room out0" "calm_steps cap (start_from g out0 pieces) s"
  shows "written (out s) = written out0 @ take (nat (xor_size (group s))) (parity (map concat pieces)) \<and> correct_flag (group s) = 0
    \<and> (\<forall>r. consumer s = Done r \<longrightarrow> r = RIGHT \<and> written (out s) = written out0 @ parity (map concat pieces))"
  using calm_inv_written [OF calm_group [OF assms]] by blast

fun calm_all :: "int \<Rightarrow> label list \<Rightarrow> run \<Rightarrow> run option" where
  "calm_all cap [] s = Some s"
| "calm_all cap (l # ls) s =
     (if racy cap l s then None else case exec cap l s of Some (Inr s') \<Rightarrow> calm_all cap ls s' | _ \<Rightarrow> None)"

lemma calm_all_trans: "calm_steps cap t u \<Longrightarrow> calm_steps cap s t \<Longrightarrow> calm_steps cap s u"
  by (induction rule: calm_steps.induct) (auto intro: calm_more)

lemma calm_all_steps: "calm_all cap ls s = Some s' \<Longrightarrow> calm_steps cap s s'"
proof (induction ls arbitrary: s)
  case Nil
  then show ?case by (simp add: calm_refl)
next
  case (Cons l ls)
  then obtain t where t: "\<not> racy cap l s" "exec cap l s = Some (Inr t)" "calm_all cap ls t = Some s'"
    by (auto split: option.splits sum.splits if_splits)
  show ?case by (rule calm_all_trans [OF Cons.IH [OF t(3)] calm_more [OF calm_refl t(2,1)]])
qed

lemma small_run_calm:
  "map_option (\<lambda>s. (consumer s, written (out s))) (calm_all 2 small_run (start 2 \<lparr>written = [9], room = 4\<rparr> two_small_files))
    = Some (Done RIGHT, [9, 5, 10])"
  by code_simp

lemma calm_group_parity_witness:
  "\<exists>s. calm_steps 2 (start 2 \<lparr>written = [9], room = 4\<rparr> two_small_files) s \<and> consumer s = Done RIGHT
    \<and> written (out s) = [9] @ parity (map concat two_small_files)"
proof -
  obtain s where s: "calm_all 2 small_run (start 2 \<lparr>written = [9], room = 4\<rparr> two_small_files) = Some s" "consumer s = Done RIGHT"
    using small_run_calm by auto
  note st = calm_all_steps [OF s(1), unfolded start_def]
  have "length (concat (hd two_small_files)) \<le> room \<lparr>written = [9], room = 4\<rparr>" by (simp add: two_small_files_def)
  from calm_group_parity [OF two_small_files_pieces fresh_group_fresh this st] show ?thesis
    unfolding start_def using s(2) st by auto
qed

text \<open>C6. The two races are the only causes among these steps: whenever a group of files of one size ends with an error or with anything
  but the parity in its output (on a device with room for it), some step before was one of them, the consumer taking a full buffer out of turn or
  a thread opening an empty one out of turn.\<close>

theorem only_races_spoil:
  assumes "files_ok cap pieces" "group_fresh cap pieces g" "length (concat (hd pieces)) \<le> room out0" "steps cap (start_from g out0 pieces) s" "consumer s = Done r"
    and "r \<noteq> RIGHT \<or> written (out s) \<noteq> written out0 @ parity (map concat pieces)"
  shows "\<exists>t l u. calm_steps cap (start_from g out0 pieces) t \<and> exec cap l t = Some (Inr u) \<and> racy cap l t \<and> steps cap u s"
proof -
  have "\<not> calm_steps cap (start_from g out0 pieces) s"
    using calm_inv_written(3) [OF calm_group [OF assms(1-3)] assms(5)] assms(6) by blast
  then show ?thesis using steps_calm_or_racy [OF assms(4)] by blast
qed

lemma only_races_spoil_witness:
  "\<exists>t l u. calm_steps 2 two_files t \<and> exec 2 l t = Some (Inr u) \<and> racy 2 l t"
proof -
  let ?out = "\<lparr>written = [], room = 9\<rparr>" and ?ps = "[[[1, 2], [3]], [[4, 8], [16]]] :: byte list list list"
  obtain s where s: "exec_all 2 overtaking two_files = Some s" "consumer s = Done RIGHT" "written (out s) = [19, 5, 10]"
    using overtaking_result by auto
  have "files_ok 2 ?ps" "group_fresh 2 ?ps (fresh_group 2 (length ?ps) (int (length (concat (hd ?ps)))))"
    by (simp add: files_ok_def pieces_ok_def) (rule fresh_group_fresh, simp)
  moreover have "length (concat (hd ?ps)) \<le> room ?out" by simp
  moreover have "steps 2 (start_from (fresh_group 2 (length ?ps) (int (length (concat (hd ?ps))))) ?out ?ps) s"
    using exec_all_steps [OF s(1)] unfolding two_files_def start_def .
  moreover have "written (out s) \<noteq> written ?out @ parity (map concat ?ps)"
    using s(3) by (simp add: parity_def column_def upt_rec)
  ultimately show ?thesis using only_races_spoil [of 2 ?ps _ ?out s RIGHT] s(2) unfolding two_files_def start_def by blast
qed

end
