(* ===== verification/GroupStart.thy ===== *)
theory GroupStart
  imports GroupOrder Connect
begin

text \<open>
  The threads of a group start while the consumer is already polling: \<open>create_client_connect_data_server\<close> calls
  \<open>pthread_create\<close> for each file and goes on to \<open>judge_xor_condition\<close>, and every thread first connects, sends
  its header and allocates its buffers (\<open>process_in_new_thread_file_num\<close>, \<open>thread_start\<close> in theory \<open>Connect\<close>).
  Here that is a step of its own, at any time. Such a run is, seen by the consumer, the threads
  that receive and the output, a run of \<open>GroupRun\<close> in which all files were set up before the first step, so
  what is shown there about the parity holds from the zeroed \<open>g_tgroupFile\<close> on. The connections deliver here too;
  \<open>GroupEvents\<close> adds those that fail or end.
\<close>

subsection \<open>Steps\<close>

datatype phase = Waiting | Receiving | Ended

record starting =
  inner :: run
  phase :: "nat \<Rightarrow> phase"

datatype start_label = Begin nat | Go label

definition begin_thread :: "(nat \<Rightarrow> thread_os) \<Rightarrow> tDataServerInfo \<Rightarrow> nat \<Rightarrow> starting \<Rightarrow> (fault + starting) option" where
  "begin_thread os server i st =
     (if phase st i \<noteq> Waiting \<or> file_num (group (inner st)) \<le> int i then None
      else case thread_start (os i) server i (group (inner st)) of
             Inl e \<Rightarrow> Some (Inl e)
           | Inr r \<Rightarrow> Some (Inr (st\<lparr>inner := (inner st)\<lparr>group := snd (snd r)\<rparr>,
               phase := (phase st)(i := (if fst r = None then Ended else Receiving))\<rparr>)))"

definition start_exec ::
    "int \<Rightarrow> (nat \<Rightarrow> thread_os) \<Rightarrow> tDataServerInfo \<Rightarrow> start_label \<Rightarrow> starting \<Rightarrow> (fault + starting) option" where
  "start_exec cap os server l st =
     (case l of
        Begin i \<Rightarrow> begin_thread os server i st
      | Go l \<Rightarrow>
          if case thread_of l of None \<Rightarrow> True | Some i \<Rightarrow> phase st i = Receiving
          then map_option (map_sum id (\<lambda>s. st\<lparr>inner := s\<rparr>)) (exec cap l (inner st))
          else None)"

inductive start_steps :: "int \<Rightarrow> (nat \<Rightarrow> thread_os) \<Rightarrow> tDataServerInfo \<Rightarrow> starting \<Rightarrow> starting \<Rightarrow> bool" for cap os server where
  start_refl: "start_steps cap os server st st"
| start_more: "start_steps cap os server st st' \<Longrightarrow> start_exec cap os server l st' = Some (Inr st'') \<Longrightarrow> start_steps cap os server st st''"

text \<open>The group that \<open>group_init\<close> makes, no thread started.\<close>

definition all_waiting :: "tGroupFileInfo \<Rightarrow> ostream \<Rightarrow> byte list list list \<Rightarrow> starting" where
  "all_waiting g out0 pieces = \<lparr>inner = start_from g out0 pieces, phase = (\<lambda>i. Waiting)\<rparr>"

subsection \<open>The files set up beforehand\<close>

definition set_up_all :: "(nat \<Rightarrow> thread_os) \<Rightarrow> nat \<Rightarrow> (nat \<Rightarrow> phase) \<Rightarrow> tGroupFileInfo \<Rightarrow> tGroupFileInfo" where
  "set_up_all os n ph g = g\<lparr>single_file_array := map (\<lambda>i. if i < n \<and> ph i \<noteq> Receiving then set_up (os i) (get_file g i) else get_file g i)
     [0..<length (single_file_array g)]\<rparr>"

definition completed :: "(nat \<Rightarrow> thread_os) \<Rightarrow> nat \<Rightarrow> starting \<Rightarrow> run" where
  "completed os n st = (inner st)\<lparr>group := set_up_all os n (phase st) (group (inner st))\<rparr>"

lemma set_up_all_frame [simp]:
  "length (single_file_array (set_up_all os n ph g)) = length (single_file_array g)"
  "file_size (set_up_all os n ph g) = file_size g" "file_num (set_up_all os n ph g) = file_num g"
  "xor_size (set_up_all os n ph g) = xor_size g" "xor_flag (set_up_all os n ph g) = xor_flag g"
  "correct_flag (set_up_all os n ph g) = correct_flag g" "buf_full_num (set_up_all os n ph g) = buf_full_num g"
  by (simp_all add: set_up_all_def)

lemma get_set_up_all:
  "i < length (single_file_array g) \<Longrightarrow>
    get_file (set_up_all os n ph g) i = (if i < n \<and> ph i \<noteq> Receiving then set_up (os i) (get_file g i) else get_file g i)"
  by (simp add: set_up_all_def get_file_def)

lemma completed_simps [simp]:
  "group (completed os n st) = set_up_all os n (phase st) (group (inner st))" "out (completed os n st) = out (inner st)"
  "consumer (completed os n st) = consumer (inner st)" "thr (completed os n st) = thr (inner st)" "todo (completed os n st) = todo (inner st)"
  by (simp_all add: completed_def)

text \<open>Setting files up commutes with what other threads and the consumer do to the group.\<close>

lemma put_file_update: "(put_file i f g)\<lparr>single_file_array := fs\<rparr> = g\<lparr>single_file_array := fs\<rparr>"
  by (simp add: put_file_def)

lemma set_up_all_put:
  assumes "ph i = Receiving \<or> n \<le> i"
  shows "set_up_all os n ph (put_file i f g) = put_file i f (set_up_all os n ph g)"
proof -
  have "map (\<lambda>j. if j < n \<and> ph j \<noteq> Receiving then set_up (os j) (get_file (put_file i f g) j) else get_file (put_file i f g) j)
      [0..<length (single_file_array g)]
    = (map (\<lambda>j. if j < n \<and> ph j \<noteq> Receiving then set_up (os j) (get_file g j) else get_file g j) [0..<length (single_file_array g)])[i := f]"
  proof (rule nth_equalityI)
    fix j
    assume "j < length (map (\<lambda>j. if j < n \<and> ph j \<noteq> Receiving then set_up (os j) (get_file (put_file i f g) j) else get_file (put_file i f g) j)
        [0..<length (single_file_array g)])"
    then have j: "j < length (single_file_array g)" by simp
    show "map (\<lambda>j. if j < n \<and> ph j \<noteq> Receiving then set_up (os j) (get_file (put_file i f g) j) else get_file (put_file i f g) j)
        [0..<length (single_file_array g)] ! j
      = (map (\<lambda>j. if j < n \<and> ph j \<noteq> Receiving then set_up (os j) (get_file g j) else get_file g j) [0..<length (single_file_array g)])[i := f] ! j"
      using j assms by (cases "j = i") auto
  qed simp
  then show ?thesis by (simp add: set_up_all_def put_file_update) (simp add: put_file_def)
qed

lemma set_up_all_bump: "set_up_all os n ph (bump k g) = bump k (set_up_all os n ph g)"
  by (simp add: set_up_all_def bump_def get_file_def)

lemma set_up_all_reset_num: "set_up_all os n ph (reset_num k g) = reset_num k (set_up_all os n ph g)"
  by (simp add: set_up_all_def reset_num_def get_file_def)

lemma set_up_all_started:
  assumes "\<forall>i < n. ph i = Receiving"
  shows "set_up_all os n ph g = g"
proof -
  have "map (\<lambda>i. if i < n \<and> ph i \<noteq> Receiving then set_up (os i) (get_file g i) else get_file g i) [0..<length (single_file_array g)]
    = single_file_array g"
    using assms by (intro nth_equalityI) (auto simp: get_file_def)
  then show ?thesis by (simp add: set_up_all_def)
qed

text \<open>A thread that begins: the file has been set up already.\<close>

lemma set_up_all_begin:
  assumes "ph i \<noteq> Receiving" "i < n" "i < length (single_file_array g)"
  shows "set_up_all os n (ph(i := Receiving)) (put_file i (set_up (os i) (get_file g i)) g) = set_up_all os n ph g"
proof -
  have "map (\<lambda>j. if j < n \<and> (ph(i := Receiving)) j \<noteq> Receiving then set_up (os j) (get_file (put_file i (set_up (os i) (get_file g i)) g) j)
        else get_file (put_file i (set_up (os i) (get_file g i)) g) j) [0..<length (single_file_array g)]
    = map (\<lambda>j. if j < n \<and> ph j \<noteq> Receiving then set_up (os j) (get_file g j) else get_file g j) [0..<length (single_file_array g)]"
    using assms by (intro map_cong) auto
  then show ?thesis by (simp only: set_up_all_def put_file_update get_put_file(3))
qed

subsection \<open>A thread looks at its own file\<close>

lemma put_file_id: "put_file i (get_file g i) g = g"
  by (simp add: put_file_def get_file_def)

lemma store_cases:
  "(\<exists>e. \<forall>h. get_file h i = f \<and> file_size h = sz \<longrightarrow> store cap k i buf len fl h = Inl e)
   \<or> (\<exists>d fl' full f'. \<forall>h. get_file h i = f \<and> file_size h = sz \<longrightarrow>
        store cap k i buf len fl h = Inr (d, fl', (if full then bump k else id) (put_file i f' h)))"
proof -
  let ?b = "in_buf_info f"
  consider (dead) "\<not> alive ?b" | (spill) "alive ?b" "cap < buf_size ?b k + len" | (fit) "alive ?b" "\<not> cap < buf_size ?b k + len" by blast
  then show ?thesis
  proof cases
    case dead
    then have "\<forall>h. get_file h i = f \<and> file_size h = sz \<longrightarrow> store cap k i buf len fl h = Inl UseAfterFree" by (simp add: store_def Let_def)
    then show ?thesis by blast
  next
    case spill
    let ?cp = "cap - buf_size ?b k"
    show ?thesis
    proof (cases "append_to k buf 0 ?cp (?b\<lparr>cp_size := ?cp\<rparr>)")
      case (Inl e)
      then have "\<forall>h. get_file h i = f \<and> file_size h = sz \<longrightarrow> store cap k i buf len fl h = Inl e" using spill by (simp add: store_def Let_def)
      then show ?thesis by blast
    next
      case (Inr b')
      let ?f = "f\<lparr>in_buf_info := b'\<lparr>buf_flag := (buf_flag b')(k := 2)\<rparr>\<rparr>"
      have "\<forall>h. get_file h i = f \<and> file_size h = sz \<longrightarrow>
          store cap k i buf len fl h = Inr (False, 1, (if True then bump k else id) (put_file i ?f h))"
        using spill Inr by (auto simp: store_def Let_def put_info_def)
      then show ?thesis by blast
    qed
  next
    case fit
    let ?f = "f\<lparr>file_index := file_index f + len\<rparr>"
    let ?r = "if fl = 1 then bindE (append_to k buf (cp_size ?b) (len - cp_size ?b) ?b) (\<lambda>b. Inr (b\<lparr>cp_size := 0\<rparr>)) else append_to k buf 0 len ?b"
    show ?thesis
    proof (cases ?r)
      case (Inl e)
      then have "\<forall>h. get_file h i = f \<and> file_size h = sz \<longrightarrow> store cap k i buf len fl h = Inl e"
        using fit by (simp add: store_def Let_def split del: if_split)
      then show ?thesis by blast
    next
      case (Inr b')
      let ?last = "sz \<le> file_index f + len"
      let ?f' = "?f\<lparr>in_buf_info := if ?last then b'\<lparr>buf_flag := (buf_flag b')(k := 2)\<rparr> else b'\<rparr>"
      have "\<forall>h. get_file h i = f \<and> file_size h = sz \<longrightarrow>
          store cap k i buf len fl h = Inr (True, 0, (if ?last then bump k else id) (put_file i ?f' h))"
        using fit Inr by (cases ?last) (simp_all add: store_def Let_def split del: if_split)
      then show ?thesis by blast
    qed
  qed
qed

lemma store_step_cases:
  "(\<exists>e. \<forall>h. get_file h i = f \<and> file_size h = sz \<longrightarrow> store_step cap i buf len fl h = Inl e)
   \<or> (\<exists>d fl' full k f'. \<forall>h. get_file h i = f \<and> file_size h = sz \<longrightarrow>
        store_step cap i buf len fl h = Inr (d, fl', (if full then bump k else id) (put_file i f' h)))"
proof -
  let ?b = "in_buf_info f"
  consider (none) "buf_flag ?b 0 \<noteq> 1" "buf_flag ?b 1 \<noteq> 1" | (one) k where "\<forall>h. get_file h i = f \<longrightarrow> store_step cap i buf len fl h = store cap k i buf len fl h"
    using active_cases [of ?b] store_step_active by metis
  then show ?thesis
  proof cases
    case none
    then have "\<forall>h. get_file h i = f \<and> file_size h = sz \<longrightarrow>
        store_step cap i buf len fl h = Inr (False, fl, (if False then bump 0 else id) (put_file i f h))"
      using put_file_id [of i] by (auto simp: store_step_def Let_def)
    then show ?thesis by blast
  next
    case one
    then show ?thesis using store_cases [of i f sz cap k buf len fl] by (elim disjE exE) (metis, metis)
  qed
qed

lemma rotate_cases:
  "(\<exists>e. \<forall>h. get_file h i = f \<longrightarrow> rotate_bufs cap i h = Inl e) \<or> (\<exists>f'. \<forall>h. get_file h i = f \<longrightarrow> rotate_bufs cap i h = Inr (put_file i f' h))"
proof (cases "bindE (make_writable cap 0 (in_buf_info f)) (make_writable cap 1)")
  case (Inl e)
  then have "\<forall>h. get_file h i = f \<longrightarrow> rotate_bufs cap i h = Inl e"
    by (cases "make_writable cap 0 (in_buf_info f)") (simp_all add: rotate_bufs_def)
  then show ?thesis by blast
next
  case (Inr b')
  then have "\<forall>h. get_file h i = f \<longrightarrow> rotate_bufs cap i h = Inr (put_file i (f\<lparr>in_buf_info := b'\<rparr>) h)"
    by (cases "make_writable cap 0 (in_buf_info f)") (auto simp: rotate_bufs_def put_info_def)
  then show ?thesis by blast
qed

subsection \<open>The simulation\<close>

lemma completed_step:
  "phase st' = phase st \<Longrightarrow> completed os n st' = (inner st')\<lparr>group := set_up_all os n (phase st) (group (inner st'))\<rparr>"
  by (simp add: completed_def)

lemma thread_commutes:
  assumes "thread_of l = Some i" "phase st i = Receiving" "i < length (single_file_array (group (inner st)))" "exec cap l (inner st) = Some r"
  shows "exec cap l (completed os n st) = Some (map_sum id (\<lambda>s. completed os n (st\<lparr>inner := s\<rparr>)) r)"
proof -
  let ?s = "inner st" and ?c = "completed os n st" and ?g = "group (inner st)" and ?up = "set_up_all os n (phase st)"
  have gf: "get_file (?up ?g) i = get_file ?g i" using get_set_up_all [OF assms(3)] assms(2) by simp
  have put: "?up (put_file i f g) = put_file i f (?up g)" for f g using assms(2) by (intro set_up_all_put) blast
  show ?thesis
  proof (cases l)
    case (Recv j)
    then show ?thesis using assms(1,4) by (auto simp: exec_def completed_def split: thread.splits list.splits if_splits)
  next
    case (Store j)
    then have j: "j = i" using assms(1) by simp
    obtain buf fl where th: "thr ?s i = AtStore buf fl" using assms(4) unfolding Store j by (auto simp: exec_def split: thread.splits)
    from store_step_cases [of i "get_file ?g i" "file_size ?g" cap buf "int (length buf)" fl] show ?thesis
    proof (elim disjE exE)
      fix e assume e: "\<forall>h. get_file h i = get_file ?g i \<and> file_size h = file_size ?g \<longrightarrow> store_step cap i buf (int (length buf)) fl h = Inl e"
      then have "store_step cap i buf (int (length buf)) fl ?g = Inl e" "store_step cap i buf (int (length buf)) fl (?up ?g) = Inl e" using gf by simp_all
      then show ?thesis using assms(4) th unfolding Store j by (auto simp: exec_def)
    next
      fix d fl' full k f'
      assume a: "\<forall>h. get_file h i = get_file ?g i \<and> file_size h = file_size ?g \<longrightarrow>
        store_step cap i buf (int (length buf)) fl h = Inr (d, fl', (if full then bump k else id) (put_file i f' h))"
      then have r: "store_step cap i buf (int (length buf)) fl ?g = Inr (d, fl', (if full then bump k else id) (put_file i f' ?g))"
        "store_step cap i buf (int (length buf)) fl (?up ?g) = Inr (d, fl', (if full then bump k else id) (put_file i f' (?up ?g)))"
        using gf by simp_all
      have "(if full then bump k else id) (put_file i f' (?up ?g)) = ?up ((if full then bump k else id) (put_file i f' ?g))"
        using put by (cases full) (simp_all add: set_up_all_bump)
      then show ?thesis using assms(4) th r unfolding Store j by (auto simp: exec_def completed_def)
    qed
  next
    case (Rotate j)
    then have j: "j = i" using assms(1) by simp
    obtain buf fl where th: "thr ?s i = AtRotate buf fl" using assms(4) unfolding Rotate j by (auto simp: exec_def split: thread.splits)
    from rotate_cases [of i "get_file ?g i" cap] show ?thesis
    proof (elim disjE exE)
      fix e assume "\<forall>h. get_file h i = get_file ?g i \<longrightarrow> rotate_bufs cap i h = Inl e"
      then have "rotate_bufs cap i ?g = Inl e" "rotate_bufs cap i (?up ?g) = Inl e" using gf by simp_all
      then show ?thesis using assms(4) th unfolding Rotate j by (auto simp: exec_def)
    next
      fix f' assume "\<forall>h. get_file h i = get_file ?g i \<longrightarrow> rotate_bufs cap i h = Inr (put_file i f' h)"
      then have "rotate_bufs cap i ?g = Inr (put_file i f' ?g)" "rotate_bufs cap i (?up ?g) = Inr (put_file i f' (?up ?g))" using gf by simp_all
      then show ?thesis using assms(4) th put unfolding Rotate j by (auto simp: exec_def completed_def)
    qed
  qed (use assms(1) in simp)
qed

text \<open>While some thread has not begun the consumer only polls.\<close>

lemma judge_commutes:
  assumes "consumer (inner st) \<in> {Poll k, Check} \<or> (\<forall>i < n. phase st i = Receiving)" "exec cap Judge (inner st) = Some r"
  shows "exec cap Judge (completed os n st) = Some (map_sum id (\<lambda>s. completed os n (st\<lparr>inner := s\<rparr>)) r)"
proof (cases "\<forall>i < n. phase st i = Receiving")
  case True
  then have "completed os n st = inner st" "completed os n (st\<lparr>inner := s\<rparr>) = s" for s
    using set_up_all_started [of n "phase st" os] by (simp_all add: completed_def)
  then show ?thesis using assms(2) by (simp add: sum.map_ident id_def)
next
  case False
  then have "consumer (inner st) \<in> {Poll k, Check}" using assms(1) by blast
  then show ?thesis
    using assms(2) by (auto simp: exec_def exec_judge_def Let_def completed_def judge_verdict_def)
qed

text \<open>The races are the same ones.\<close>

lemma racy_completed_judge: "racy cap Judge (completed os n st) \<longleftrightarrow> racy cap Judge (inner st)"
  by (auto simp: racy_def due_def split: consumer.splits)

lemma racy_completed:
  assumes "thread_of l = Some i" "phase st i = Receiving" "i < length (single_file_array (group (inner st)))"
  shows "racy cap l (completed os n st) \<longleftrightarrow> racy cap l (inner st)"
  using assms get_set_up_all [OF assms(3), of os n "phase st"] by (cases l) (auto simp: racy_def due_def info_of_def)

definition starts_ok :: "(nat \<Rightarrow> thread_os) \<Rightarrow> tDataServerInfo \<Rightarrow> nat \<Rightarrow> bool" where
  "starts_ok os server n \<longleftrightarrow>
     (\<exists>ip port. holds (data_server_ip server) 32 ip \<and> holds (data_server_port server) 16 port \<and> (\<forall>i < n. connected (net (os i)) ip))
     \<and> (\<forall>i < n. 0 \<le> send_ret (net (os i)) \<and> 0 \<le> first_socket (os i) \<and> malloc0 (os i) \<and> malloc1 (os i))"

text \<open>A file whose thread has not begun is as it was, and the consumer can only have polled.\<close>

definition not_begun :: "ostream \<Rightarrow> tGroupFileInfo \<Rightarrow> starting \<Rightarrow> nat \<Rightarrow> bool" where
  "not_begun out0 g0 st i \<longleftrightarrow> get_file (group (inner st)) i = get_file g0 i \<and> consumer (inner st) \<in> {Poll 0, Poll 1, Check}
     \<and> xor_flag (group (inner st)) = 0 \<and> correct_flag (group (inner st)) = 0 \<and> out (inner st) = out0"

definition start_inv :: "int \<Rightarrow> (nat \<Rightarrow> thread_os) \<Rightarrow> nat \<Rightarrow> int \<Rightarrow> ostream \<Rightarrow> tGroupFileInfo \<Rightarrow> starting \<Rightarrow> bool" where
  "start_inv cap os n sz out0 g0 st \<longleftrightarrow> group_inv cap n sz out0 (completed os n st)
     \<and> (\<forall>i < n. phase st i \<noteq> Receiving \<longrightarrow> not_begun out0 g0 st i)"

lemma start_running_inner:
  assumes "start_inv cap os n sz out0 g0 st" "i < n" "phase st i \<noteq> Receiving"
  shows "running cap n sz out0 (completed os n st)" "i < length (single_file_array (group (inner st)))" "file_num (group (inner st)) = int n"
proof -
  have "xor_flag (group (inner st)) = 0" using assms by (simp add: start_inv_def not_begun_def)
  then show r: "running cap n sz out0 (completed os n st)" using assms(1) by (auto simp: start_inv_def group_inv_def released_def)
  then show "i < length (single_file_array (group (inner st)))" "file_num (group (inner st)) = int n"
    using assms(2) by (simp_all add: running_def Let_def)
qed

text \<open>The consumer does not start to XOR before every thread has begun: the flags of the others are not 2.\<close>

lemma waiting_not_xor:
  assumes "running cap n sz out0 (completed os n st)" "i < n" "phase st i \<noteq> Receiving"
  shows "consumer (inner st) \<noteq> Xor k"
proof
  assume "consumer (inner st) = Xor k"
  then have k: "k < 2" "buf_flag (info_of (group (completed os n st)) i) k = 2"
    using assms(1,2) by (simp_all add: running_def Let_def staged_def)
  have "i < length (single_file_array (group (inner st)))" using assms(1,2) by (simp add: running_def Let_def)
  then have "buf_flag (info_of (group (completed os n st)) i) k \<noteq> 2"
    using get_set_up_all [of i "group (inner st)" os n "phase st"] assms(2,3) k(1) by (auto simp: info_of_def set_up_def less_2_cases_iff)
  then show False using k(2) by blast
qed

lemma begin_index:
  assumes "start_inv cap os n sz out0 g0 st" "begin_thread os server i st = Some r"
  shows "phase st i = Waiting" "i < n" "i < length (single_file_array (group (inner st)))" "not_begun out0 g0 st i"
    and "r = map_sum id (\<lambda>a. st\<lparr>inner := (inner st)\<lparr>group := snd (snd a)\<rparr>, phase := (phase st)(i := (if fst a = None then Ended else Receiving))\<rparr>)
      (thread_start (os i) server i (group (inner st)))"
proof -
  show w: "phase st i = Waiting" and r: "r = map_sum id (\<lambda>a. st\<lparr>inner := (inner st)\<lparr>group := snd (snd a)\<rparr>, phase := (phase st)(i := (if fst a = None then Ended else Receiving))\<rparr>)
      (thread_start (os i) server i (group (inner st)))"
    using assms(2) by (auto simp: begin_thread_def split: if_splits sum.splits)
  have "int i < file_num (group (inner st))" using assms(2) by (auto simp: begin_thread_def split: if_splits)
  moreover have "group_inv cap n sz out0 (completed os n st)" using assms(1) by (simp add: start_inv_def)
  ultimately show i: "i < n" by (auto simp: group_inv_def running_def released_def Let_def)
  show "i < length (single_file_array (group (inner st)))" "not_begun out0 g0 st i"
    using start_running_inner(2) [OF assms(1) i] assms(1) i w by (simp_all add: start_inv_def)
qed

text \<open>A thread that gets ready was set up before, one that returns without its memory stays one that has not begun.\<close>

lemma begin_ready:
  assumes "start_inv cap os n sz out0 g0 st" "begin_thread os server i st = Some r"
    and "thread_start (os i) server i (group (inner st)) = Inr (Some sock, acts, put_file i (set_up (os i) (get_file (group (inner st)) i)) (group (inner st)))"
  shows "\<exists>st'. r = Inr st' \<and> start_inv cap os n sz out0 g0 st' \<and> completed os n st' = completed os n st \<and> phase st' = (phase st)(i := Receiving)"
proof -
  let ?g = "group (inner st)"
  note b = begin_index [OF assms(1,2)]
  have w: "phase st i \<noteq> Receiving" using b(1) by simp
  let ?g' = "put_file i (set_up (os i) (get_file ?g i)) ?g"
  let ?st = "st\<lparr>inner := (inner st)\<lparr>group := ?g'\<rparr>, phase := (phase st)(i := Receiving)\<rparr>"
  have res: "r = Inr ?st" using b(5) assms(3) by simp
  have same: "completed os n ?st = completed os n st"
    using set_up_all_begin [where ph = "phase st" and os = os, OF w b(2,3)] by (simp add: completed_def)
  have "not_begun out0 g0 ?st j" if "j < n" "phase ?st j \<noteq> Receiving" for j
    using assms(1) that by (auto simp: start_inv_def not_begun_def split: if_splits)
  then have "start_inv cap os n sz out0 g0 ?st"
    using assms(1) same unfolding start_inv_def by auto
  then show ?thesis using res same by auto
qed

lemma begin_returns:
  assumes "start_inv cap os n sz out0 g0 st" "begin_thread os server i st = Some r"
    and "thread_start (os i) server i (group (inner st)) = Inr (None, acts, group (inner st))"
  shows "\<exists>st'. r = Inr st' \<and> start_inv cap os n sz out0 g0 st'"
proof -
  note b = begin_index [OF assms(1,2)]
  let ?st = "st\<lparr>inner := (inner st)\<lparr>group := group (inner st)\<rparr>, phase := (phase st)(i := Ended)\<rparr>"
  have "set_up_all os n ((phase st)(i := Ended)) g = set_up_all os n (phase st) g" for g
    using b(1) by (auto simp: set_up_all_def)
  then have same: "completed os n ?st = completed os n st" by (simp add: completed_def)
  have "not_begun out0 g0 ?st j" if "j < n" "phase ?st j \<noteq> Receiving" for j
    using assms(1) that b(4) by (cases "j = i") (simp_all add: start_inv_def not_begun_def)
  then have "start_inv cap os n sz out0 g0 ?st" using assms(1) same unfolding start_inv_def by simp
  then show ?thesis using b(5) assms(3) by auto
qed

lemma begin_simulated:
  assumes "start_inv cap os n sz out0 g0 st" "starts_ok os server n" "begin_thread os server i st = Some r"
    and "\<forall>i < n. holds (file_path (get_file g0 i)) 1024 (paths ! i)"
  shows "\<exists>st'. r = Inr st' \<and> start_inv cap os n sz out0 g0 st' \<and> completed os n st' = completed os n st \<and> phase st' = (phase st)(i := Receiving)"
proof -
  note b = begin_index [OF assms(1,3)]
  obtain ip port where ip: "holds (data_server_ip server) 32 ip" "holds (data_server_port server) 16 port" "connected (net (os i)) ip"
    using assms(2) b(2) unfolding starts_ok_def by blast
  have os: "0 \<le> send_ret (net (os i))" "0 \<le> first_socket (os i)" "malloc0 (os i)" "malloc1 (os i)" using assms(2) b(2) unfolding starts_ok_def by blast+
  have path: "holds (file_path (get_file (group (inner st)) i)) 1024 (paths ! i)" and c: "correct_flag (group (inner st)) = 0"
    using assms(4) b(2,4) by (simp_all add: not_begun_def)
  show ?thesis using thread_start_sets_up [OF ip path os c] begin_ready [OF assms(1,3)] by blast
qed

lemma exec_polls:
  assumes "exec cap Judge s = Some (Inr s')" "consumer s \<in> {Poll 0, Poll 1, Check}" "xor_flag (group s) = 0" "correct_flag (group s) = 0"
  shows "group s' = group s" "consumer s' \<in> {Poll 0, Poll 1, Check, Xor 0, Xor 1}" "out s' = out s"
  using assms by (auto simp: exec_def exec_judge_def Let_def split: if_splits)

lemma exec_thread_other:
  assumes "exec cap l s = Some (Inr s')" "thread_of l = Some i" "j \<noteq> i"
  shows "get_file (group s') j = get_file (group s) j" "consumer s' = consumer s"
    "xor_flag (group s') = xor_flag (group s)" "correct_flag (group s') = correct_flag (group s)" "out s' = out s"
proof -
  show "out s' = out s"
    using assms(1,2) by (cases l) (auto simp: exec_def split: thread.splits list.splits sum.splits if_splits)
  have "(\<exists>f full k. group s' = (if full then bump k else id) (put_file i f (group s))) \<and> consumer s' = consumer s"
  proof (cases l)
    case (Recv i')
    then have "group s' = group s \<and> consumer s' = consumer s"
      using assms(1) by (auto simp: exec_def split: thread.splits list.splits if_splits)
    moreover have "group s = (if False then bump 0 else id) (put_file i (get_file (group s) i) (group s))" by (simp add: put_file_id)
    ultimately show ?thesis by metis
  next
    case (Store i')
    then obtain buf fl d fl' g where th: "store_step cap i buf (int (length buf)) fl (group s) = Inr (d, fl', g)"
        "group s' = g" "consumer s' = consumer s"
      using assms(1,2) by (auto simp: exec_def split: thread.splits sum.splits)
    from store_step_cases [of i "get_file (group s) i" "file_size (group s)" cap buf "int (length buf)" fl]
    have "\<exists>f full k. g = (if full then bump k else id) (put_file i f (group s))"
    proof (elim disjE exE)
      fix e assume "\<forall>h. get_file h i = get_file (group s) i \<and> file_size h = file_size (group s) \<longrightarrow>
        store_step cap i buf (int (length buf)) fl h = Inl e"
      then show ?thesis using th(1) by simp
    next
      fix d2 fl2 full k f
      assume "\<forall>h. get_file h i = get_file (group s) i \<and> file_size h = file_size (group s) \<longrightarrow>
        store_step cap i buf (int (length buf)) fl h = Inr (d2, fl2, (if full then bump k else id) (put_file i f h))"
      then have "g = (if full then bump k else id) (put_file i f (group s))" using th(1) by simp
      then show ?thesis by blast
    qed
    then show ?thesis using th(2,3) by simp
  next
    case (Rotate i')
    then obtain buf fl g where th: "rotate_bufs cap i (group s) = Inr g" "group s' = g" "consumer s' = consumer s"
      using assms(1,2) by (auto simp: exec_def split: thread.splits sum.splits)
    moreover have "\<exists>f. g = put_file i f (group s)"
      using th(1) rotate_cases [of i "get_file (group s) i" cap] by auto
    ultimately show ?thesis by (metis id_apply)
  qed (use assms(2) in simp)
  then show "get_file (group s') j = get_file (group s) j" "consumer s' = consumer s"
    "xor_flag (group s') = xor_flag (group s)" "correct_flag (group s') = correct_flag (group s)"
    using assms(3) by (auto split: if_splits)
qed

lemma go_simulated:
  assumes "start_inv cap os n sz out0 g0 st" "start_exec cap os server (Go l) st = Some r" "0 < n" "n \<le> 50"
  shows "\<exists>st'. r = Inr st' \<and> start_inv cap os n sz out0 g0 st' \<and> exec cap l (completed os n st) = Some (Inr (completed os n st'))
    \<and> (racy cap l (completed os n st) \<longleftrightarrow> racy cap l (inner st))"
proof -
  have inv: "group_inv cap n sz out0 (completed os n st)" using assms(1) by (simp add: start_inv_def)
  obtain r' where r': "exec cap l (inner st) = Some r'" "r = map_sum id (\<lambda>s. st\<lparr>inner := s\<rparr>) r'"
    and go: "\<And>i. thread_of l = Some i \<Longrightarrow> phase st i = Receiving"
    using assms(2) by (auto simp: start_exec_def split: if_splits option.splits)
  have commutes: "exec cap l (completed os n st) = Some (map_sum id (\<lambda>s. completed os n (st\<lparr>inner := s\<rparr>)) r')
    \<and> (racy cap l (completed os n st) \<longleftrightarrow> racy cap l (inner st))"
  proof (cases "thread_of l")
    case (Some i)
    have "thr (completed os n st) i \<noteq> Idle \<or> todo (completed os n st) i \<noteq> []"
      using r'(1) Some by (cases l) (auto simp: exec_def split: thread.splits list.splits)
    moreover from this have "running cap n sz out0 (completed os n st)" using inv by (auto simp: group_inv_def released_def)
    ultimately have "i < length (single_file_array (group (inner st)))" using running_thread(2) by fastforce
    then show ?thesis using thread_commutes [OF Some _ _ r'(1)] racy_completed [OF Some] go [OF Some] by simp
  next
    case None
    then have l: "l = Judge" by (cases l) simp_all
    have "(\<exists>k. consumer (inner st) \<in> {Poll k, Check}) \<or> (\<forall>i < n. phase st i = Receiving)"
      using assms(1) by (auto simp: start_inv_def not_begun_def)
    then show ?thesis using judge_commutes [of st _ n cap r' os] racy_completed_judge r'(1) unfolding l by blast
  qed
  moreover from this obtain s where s: "r' = Inr s" "group_inv cap n sz out0 (completed os n (st\<lparr>inner := s\<rparr>))"
    using group_exec [OF inv _ assms(3,4)] by (cases r') fastforce+
  moreover have "not_begun out0 g0 (st\<lparr>inner := s\<rparr>) i" if i: "i < n" "phase st i \<noteq> Receiving" for i
  proof -
    have nb: "not_begun out0 g0 st i" using assms(1) i by (simp add: start_inv_def)
    show ?thesis
    proof (cases "thread_of l")
      case (Some j)
      then have "i \<noteq> j" using go [OF Some] i(2) by auto
      then show ?thesis using exec_thread_other [OF r'(1) [unfolded s(1)] Some] nb by (simp add: not_begun_def)
    next
      case None
      then have l: "l = Judge" by (cases l) simp_all
      note p = exec_polls [OF r'(1) [unfolded s(1) l]]
      have g: "group s = group (inner st)" using p(1) nb by (simp add: not_begun_def)
      then have "xor_flag (group s) = 0" using nb by (simp add: not_begun_def)
      then have "running cap n sz out0 (completed os n (st\<lparr>inner := s\<rparr>))" using s(2) by (auto simp: group_inv_def released_def)
      then have "consumer s \<noteq> Xor k" for k using waiting_not_xor [of cap n sz out0 os "st\<lparr>inner := s\<rparr>" i] i by simp
      then show ?thesis using p(2) p(3) nb g by (auto simp: not_begun_def)
    qed
  qed
  ultimately have "start_inv cap os n sz out0 g0 (st\<lparr>inner := s\<rparr>)" using assms(1) by (simp add: start_inv_def)
  then show ?thesis using r'(2) s(1) commutes by simp
qed

subsection \<open>From the zeroed group on\<close>

inductive calm_start_steps :: "int \<Rightarrow> (nat \<Rightarrow> thread_os) \<Rightarrow> tDataServerInfo \<Rightarrow> starting \<Rightarrow> starting \<Rightarrow> bool" for cap os server where
  calm_start_refl: "calm_start_steps cap os server st st"
| calm_start_more: "calm_start_steps cap os server st st' \<Longrightarrow> start_exec cap os server l st' = Some (Inr st'')
    \<Longrightarrow> (\<And>l'. l = Go l' \<Longrightarrow> \<not> racy cap l' (inner st')) \<Longrightarrow> calm_start_steps cap os server st st''"

lemma calm_start_steps_steps: "calm_start_steps cap os server st st' \<Longrightarrow> start_steps cap os server st st'"
  by (induction rule: calm_start_steps.induct) (auto intro: start_steps.intros)

text \<open>What the theorems below assume of a group: its files, the names that fit, the threads that start.\<close>

definition group_made :: "int \<Rightarrow> (nat \<Rightarrow> thread_os) \<Rightarrow> string list \<Rightarrow> byte list list list \<Rightarrow> tGroupFileInfo \<Rightarrow> bool" where
  "group_made cap os paths pieces g0 \<longleftrightarrow> files_ok cap pieces \<and> length paths = length pieces
     \<and> (\<forall>p \<in> set paths. NUL \<notin> set p \<and> length p < 1024) \<and> (\<forall>i < length pieces. \<forall>k < 2. length (memory (os i) k) = nat cap)
     \<and> group_init (int (length (concat (hd pieces)))) paths = Inr g0"

definition start_ok ::
    "int \<Rightarrow> (nat \<Rightarrow> thread_os) \<Rightarrow> tDataServerInfo \<Rightarrow> string list \<Rightarrow> byte list list list \<Rightarrow> tGroupFileInfo \<Rightarrow> bool" where
  "start_ok cap os server paths pieces g0 \<longleftrightarrow> group_made cap os paths pieces g0 \<and> starts_ok os server (length pieces)"

lemma start_okD:
  assumes "start_ok cap os server paths pieces g0"
  shows "group_made cap os paths pieces g0" "files_ok cap pieces" "starts_ok os server (length pieces)"
  using assms unfolding start_ok_def group_made_def by blast+

lemma copy_names_index: "copy_names i ps g = Inr g' \<Longrightarrow> file_index (get_file g' j) = file_index (get_file g j)"
proof (induction ps arbitrary: i g)
  case (Cons p ps)
  then obtain b where b: "i < length (single_file_array g)" "copy_names (Suc i) ps (put_file i ((get_file g i)\<lparr>file_path := b\<rparr>) g) = Inr g'"
    by (auto simp: bindE_def split: if_splits sum.splits)
  then show ?case using Cons.IH [OF b(2)] by (cases "j = i") simp_all
qed simp

lemma group_init_fields:
  assumes "group_made cap os paths pieces g0"
  shows "\<forall>i < length pieces. holds (file_path (get_file g0 i)) 1024 (paths ! i) \<and> cleared g0 i \<and> file_index (get_file g0 i) = 0"
    and "file_size g0 = int (length (concat (hd pieces)))" "file_num g0 = int (length pieces)" "xor_flag g0 = 0" "correct_flag g0 = 0"
    and "xor_size g0 = 0" "buf_full_num g0 = (\<lambda>k. 0)"
proof -
  let ?n = "length pieces"
  have ok: "length paths \<le> 50" "\<forall>p \<in> set paths. NUL \<notin> set p \<and> length p < 1024" "length paths = ?n"
      "group_init (int (length (concat (hd pieces)))) paths = Inr g0"
    using assms unfolding group_made_def files_ok_def by metis+
  have r: "file_size g0 = int (length (concat (hd pieces)))" "file_num g0 = int ?n"
      "\<forall>i < ?n. holds (file_path (get_file g0 i)) 1024 (paths ! i) \<and> cleared g0 i" "xor_flag g0 = 0" "correct_flag g0 = 0"
      "xor_size g0 = 0" "buf_full_num g0 = (\<lambda>k. 0)"
    using group_init_result [OF ok(2), of "int (length (concat (hd pieces)))"] ok(1,3,4) by auto
  have "file_index (get_file g0 i) = 0" if "i < ?n" for i
  proof -
    obtain g where g: "copy_names 0 paths zero_group = Inr g"
        "g0 = g\<lparr>file_size := int (length (concat (hd pieces))), file_num := int (length paths), not_transfer_end_num := to_int32 (int (length (concat (hd pieces))))\<rparr>"
      using ok(4) by (cases "copy_names 0 paths zero_group") (auto simp: group_init_def)
    have "get_file g0 i = get_file g i" using g(2) by (simp add: get_file_def)
    then show ?thesis
      using copy_names_index [OF g(1), of i] zero_group_file [of i] that ok(1,3) by (simp add: zero_file_def)
  qed
  then show "\<forall>i < ?n. holds (file_path (get_file g0 i)) 1024 (paths ! i) \<and> cleared g0 i \<and> file_index (get_file g0 i) = 0" using r(3) by blast
  show "file_size g0 = int (length (concat (hd pieces)))" "file_num g0 = int ?n" "xor_flag g0 = 0" "correct_flag g0 = 0"
    "xor_size g0 = 0" "buf_full_num g0 = (\<lambda>k. 0)" using r by blast+
qed

lemma set_up_fresh:
  assumes "group_made cap os paths pieces g0"
  shows "group_fresh cap pieces (set_up_all os (length pieces) (\<lambda>i. Waiting) g0)"
proof -
  let ?n = "length pieces"
  note g = group_init_fields [OF assms]
  have ok: "files_ok cap pieces" using assms by (simp only: group_made_def)
  have cap: "0 \<le> cap" using ok unfolding files_ok_def by linarith
  have i: "i < length (single_file_array g0)" if "i < ?n" for i using g(1) that by (simp add: cleared_def)
  then have n: "?n \<le> length (single_file_array g0)" by (metis leI less_irrefl)
  have "file_fresh cap (get_file (set_up_all os ?n (\<lambda>i. Waiting) g0) j)" if j: "j < ?n" for j
  proof -
    have z: "buf_size (in_buf_info (get_file g0 j)) k = 0" "file_index (get_file g0 j) = 0" for k
      using g(1) j by (simp_all add: cleared_def info_of_def)
    have m: "\<forall>k < 2. length (memory (os j) k) = nat cap" using assms j unfolding group_made_def by blast
    show ?thesis
      using get_set_up_all [OF i [OF j], of os ?n "\<lambda>i. Waiting"] j z m cap
      by (simp add: file_fresh_def set_up_def buf_wf_def)
  qed
  then show ?thesis using n g(2-7) by (simp add: group_fresh_def)
qed

lemma start_inv_init:
  assumes "group_made cap os paths pieces g0"
  shows "start_inv cap os (length pieces) (int (length (concat (hd pieces)))) out0 g0 (all_waiting g0 out0 pieces)"
    and "completed os (length pieces) (all_waiting g0 out0 pieces) = start_from (set_up_all os (length pieces) (\<lambda>i. Waiting) g0) out0 pieces"
proof -
  show c: "completed os (length pieces) (all_waiting g0 out0 pieces) = start_from (set_up_all os (length pieces) (\<lambda>i. Waiting) g0) out0 pieces"
    by (simp add: completed_def all_waiting_def start_from_def)
  have ok: "files_ok cap pieces" using assms by (simp only: group_made_def)
  have "not_begun out0 g0 (all_waiting g0 out0 pieces) i" for i
    using group_init_fields(4,5) [OF assms] by (simp add: not_begun_def all_waiting_def)
  then show "start_inv cap os (length pieces) (int (length (concat (hd pieces)))) out0 g0 (all_waiting g0 out0 pieces)"
    unfolding start_inv_def c group_inv_def using start_running [OF ok set_up_fresh [OF assms]] by (simp add: all_waiting_def)
qed

lemma start_step_simulated:
  assumes "start_ok cap os server paths pieces g0" "start_inv cap os (length pieces) sz out0 g0 st" "start_exec cap os server l st = Some r"
  shows "\<exists>st'. r = Inr st' \<and> start_inv cap os (length pieces) sz out0 g0 st'
    \<and> (completed os (length pieces) st' = completed os (length pieces) st
       \<or> (\<exists>l'. l = Go l' \<and> exec cap l' (completed os (length pieces) st) = Some (Inr (completed os (length pieces) st'))
            \<and> (racy cap l' (completed os (length pieces) st) \<longleftrightarrow> racy cap l' (inner st))))"
proof (cases l)
  case (Begin i)
  have "starts_ok os server (length pieces)" using start_okD [OF assms(1)] by blast
  then show ?thesis
    using begin_simulated [OF assms(2), of server i r paths] group_init_fields(1) [OF start_okD(1) [OF assms(1)]] assms(3) Begin
    by (fastforce simp: start_exec_def)
next
  case (Go l')
  have ok: "files_ok cap pieces" using start_okD [OF assms(1)] by blast
  then have "0 < length pieces" "length pieces \<le> 50" by (auto simp only: files_ok_def length_greater_0_conv)
  then show ?thesis using go_simulated [OF assms(2)] assms(3) unfolding Go by blast
qed

lemma start_simulated:
  "start_steps cap os server st st' \<Longrightarrow> start_ok cap os server paths pieces g0 \<Longrightarrow> start_inv cap os (length pieces) sz out0 g0 st
    \<Longrightarrow> start_inv cap os (length pieces) sz out0 g0 st' \<and> steps cap (completed os (length pieces) st) (completed os (length pieces) st')"
proof (induction rule: start_steps.induct)
  case (start_more st st' l st'')
  then have i: "start_inv cap os (length pieces) sz out0 g0 st'" "steps cap (completed os (length pieces) st) (completed os (length pieces) st')"
    by blast+
  show ?case
    using start_step_simulated [OF start_more.prems(1) i(1) start_more.hyps(2)] i(2) steps.more [OF i(2) step.step] by auto
qed (auto intro: steps.refl)

lemma calm_start_simulated:
  "calm_start_steps cap os server st st' \<Longrightarrow> start_ok cap os server paths pieces g0 \<Longrightarrow> start_inv cap os (length pieces) sz out0 g0 st
    \<Longrightarrow> start_inv cap os (length pieces) sz out0 g0 st' \<and> calm_steps cap (completed os (length pieces) st) (completed os (length pieces) st')"
proof (induction rule: calm_start_steps.induct)
  case (calm_start_more st st' l st'')
  then have i: "start_inv cap os (length pieces) sz out0 g0 st'" "calm_steps cap (completed os (length pieces) st) (completed os (length pieces) st')"
    by blast+
  show ?case
    using start_step_simulated [OF calm_start_more.prems(1) i(1) calm_start_more.hyps(2)] i(2) calm_more [OF i(2)] calm_start_more.hyps(3) by auto
qed (auto intro: calm_refl)

lemma start_reached:
  assumes "start_ok cap os server paths pieces g0" "start_steps cap os server (all_waiting g0 out0 pieces) st"
  shows "start_inv cap os (length pieces) (int (length (concat (hd pieces)))) out0 g0 st"
    and "steps cap (start_from (set_up_all os (length pieces) (\<lambda>i. Waiting) g0) out0 pieces) (completed os (length pieces) st)"
  using start_simulated [OF assms(2,1) start_inv_init(1) [OF start_okD(1) [OF assms(1)]]] unfolding start_inv_init(2) [OF start_okD(1) [OF assms(1)]] by blast+

lemma calm_start_reached:
  assumes "start_ok cap os server paths pieces g0" "calm_start_steps cap os server (all_waiting g0 out0 pieces) st"
  shows "calm_steps cap (start_from (set_up_all os (length pieces) (\<lambda>i. Waiting) g0) out0 pieces) (completed os (length pieces) st)"
  using calm_start_simulated [OF assms(2,1) start_inv_init(1) [OF start_okD(1) [OF assms(1)]]] unfolding start_inv_init(2) [OF start_okD(1) [OF assms(1)]] by blast

subsection \<open>Progress\<close>

text \<open>The threads that have not begun can all begin.\<close>

lemma begin_enabled:
  assumes "start_inv cap os n sz out0 g0 st" "i < n" "phase st i = Waiting"
  shows "\<exists>r. start_exec cap os server (Begin i) st = Some r"
proof -
  have "file_num (group (inner st)) = int n" using start_running_inner(3) [OF assms(1,2)] assms(3) by simp
  then show ?thesis using assms(2,3) by (simp add: start_exec_def begin_thread_def split: sum.split)
qed

lemma begin_phase:
  assumes "start_exec cap os server (Begin i) st = Some (Inr st')"
  shows "phase st i = Waiting" "phase st' i \<noteq> Waiting" "j \<noteq> i \<Longrightarrow> phase st' j = phase st j"
  using assms by (auto simp: start_exec_def begin_thread_def split: if_splits sum.splits)

lemma go_inner:
  assumes "start_exec cap os server (Go l) st = Some (Inr st')"
  shows "phase st' = phase st" "exec cap l (inner st) = Some (Inr (inner st'))"
proof -
  obtain z where z: "exec cap l (inner st) = Some z" "map_sum id (\<lambda>s. st\<lparr>inner := s\<rparr>) z = Inr st'"
    using assms by (cases "exec cap l (inner st)") (auto simp: start_exec_def split: if_splits)
  then show "phase st' = phase st" "exec cap l (inner st) = Some (Inr (inner st'))" by (cases z; auto)+
qed

definition none_ended :: "starting \<Rightarrow> bool" where
  "none_ended st \<longleftrightarrow> (\<forall>i. phase st i \<noteq> Ended)"

lemma none_ended_step:
  assumes "start_ok cap os server paths pieces g0" "start_inv cap os (length pieces) sz out0 g0 st" "none_ended st"
    and "start_exec cap os server l st = Some (Inr st')"
  shows "none_ended st'"
proof (cases l)
  case (Begin i)
  have "starts_ok os server (length pieces)" using start_okD [OF assms(1)] by blast
  then have "phase st' = (phase st)(i := Receiving)"
    using begin_simulated [OF assms(2), of server i "Inr st'" paths] group_init_fields(1) [OF start_okD(1) [OF assms(1)]] assms(4) Begin
    by (auto simp: start_exec_def)
  then show ?thesis using assms(3) by (simp add: none_ended_def)
next
  case (Go l')
  then show ?thesis using go_inner(1) [OF assms(4) [unfolded Go]] assms(3) by (simp add: none_ended_def)
qed

lemma none_ended_reached:
  assumes "start_ok cap os server paths pieces g0" "start_steps cap os server (all_waiting g0 out0 pieces) st"
  shows "none_ended st"
  using assms(2,1)
proof (induction "all_waiting g0 out0 pieces" st rule: start_steps.induct)
  case start_refl
  then show ?case by (simp add: none_ended_def all_waiting_def)
next
  case (start_more st' l st'')
  then show ?case using none_ended_step start_reached(1) by blast
qed

lemma calm_start_trans:
  "calm_start_steps cap os server t u \<Longrightarrow> calm_start_steps cap os server s t \<Longrightarrow> calm_start_steps cap os server s u"
  by (induction rule: calm_start_steps.induct) (auto intro: calm_start_more)

lemma all_begin:
  assumes "start_ok cap os server paths pieces g0" "start_inv cap os (length pieces) sz out0 g0 st" "none_ended st"
  shows "\<exists>st'. calm_start_steps cap os server st st' \<and> start_inv cap os (length pieces) sz out0 g0 st'
    \<and> completed os (length pieces) st' = completed os (length pieces) st \<and> (\<forall>i < length pieces. phase st' i = Receiving)"
  using assms(2,3)
proof (induction "card {i. i < length pieces \<and> phase st i = Waiting}" arbitrary: st rule: less_induct)
  case less
  let ?n = "length pieces"
  show ?case
  proof (cases "\<exists>i < ?n. phase st i = Waiting")
    case True
    then obtain i where i: "i < ?n" "phase st i = Waiting" by blast
    obtain r where r: "start_exec cap os server (Begin i) st = Some r" using begin_enabled [OF less.prems(1) i] by blast
    obtain t where t: "r = Inr t" "start_inv cap os ?n sz out0 g0 t" "completed os ?n t = completed os ?n st"
      using start_step_simulated [OF assms(1) less.prems(1) r] by blast
    have e: "none_ended t" using none_ended_step [OF assms(1) less.prems r [unfolded t(1)]] .
    note ph = begin_phase [OF r [unfolded t(1)]]
    have "{j. j < ?n \<and> phase t j = Waiting} \<subset> {j. j < ?n \<and> phase st j = Waiting}"
      using i ph by (intro psubsetI subsetI) fastforce+
    then have "card {j. j < ?n \<and> phase t j = Waiting} < card {j. j < ?n \<and> phase st j = Waiting}"
      by (intro psubset_card_mono) simp_all
    then obtain u where u: "calm_start_steps cap os server t u" "start_inv cap os ?n sz out0 g0 u"
        "completed os ?n u = completed os ?n t" "\<forall>i < ?n. phase u i = Receiving"
      using less.hyps t(2) e by blast
    have "calm_start_steps cap os server st t"
      by (rule calm_start_more [OF calm_start_refl]) (use r t(1) in auto)
    then show ?thesis using calm_start_trans [OF u(1)] u t(3) by auto
  next
    case False
    then have "\<forall>i < ?n. phase st i = Receiving" using less.prems(2) unfolding none_ended_def by (metis phase.exhaust)
    then show ?thesis using less.prems calm_start_refl by blast
  qed
qed

text \<open>Once all have begun, the group goes on as in \<open>GroupRun\<close>.\<close>

lemma thread_of_running:
  assumes "group_inv cap n sz out0 s" "exec cap l s = Some r" "thread_of l = Some i"
  shows "i < n"
proof -
  have "thr s i \<noteq> Idle \<or> todo s i \<noteq> []"
    using assms(2,3) by (cases l) (auto simp: exec_def split: thread.splits list.splits)
  then show ?thesis using assms(1) running_thread(1) by (auto simp: group_inv_def released_def)
qed

lemma calm_lifted:
  "calm_steps cap s s' \<Longrightarrow> group_inv cap n sz out0 s \<Longrightarrow> 0 < n \<Longrightarrow> n \<le> 50 \<Longrightarrow> \<forall>i < n. ph i = Receiving
    \<Longrightarrow> group_inv cap n sz out0 s' \<and> calm_start_steps cap os server \<lparr>inner = s, phase = ph\<rparr> \<lparr>inner = s', phase = ph\<rparr>"
proof (induction rule: calm_steps.induct)
  case (calm_more s s' l s'')
  then have i: "group_inv cap n sz out0 s'" "calm_start_steps cap os server \<lparr>inner = s, phase = ph\<rparr> \<lparr>inner = s', phase = ph\<rparr>" by blast+
  have "start_exec cap os server (Go l) \<lparr>inner = s', phase = ph\<rparr> = Some (Inr \<lparr>inner = s'', phase = ph\<rparr>)"
    using thread_of_running [OF i(1) calm_more.hyps(2)] calm_more.hyps(2) calm_more.prems(4)
    by (auto simp: start_exec_def split: option.split)
  then have "calm_start_steps cap os server \<lparr>inner = s, phase = ph\<rparr> \<lparr>inner = s'', phase = ph\<rparr>"
    by (rule calm_start_steps.calm_start_more [OF i(2)]) (use calm_more.hyps(3) in auto)
  then show ?case using group_exec [OF i(1) calm_more.hyps(2) calm_more.prems(2,3)] by simp
qed (auto intro: calm_start_refl)

text \<open>Files that fit a buffer: no step can be a race.\<close>

lemma inv_not_racy:
  assumes "group_ok cap fs out0" "inv cap fs out0 s" "exec cap l s = Some r"
  shows "\<not> racy cap l s"
proof (cases "receiving cap fs out0 s")
  case True
  have "due cap (group s) = 0" using True by (simp add: receiving_def Let_def due_def)
  moreover have "buf_full_num (group s) 1 \<noteq> file_num (group s)" using True assms(1) by (simp add: receiving_def Let_def group_ok_def)
  moreover have "consumer s \<in> {Poll 0, Poll 1, Check, Xor 0}" using True by (auto simp: receiving_def Let_def)
  ultimately show ?thesis by (cases l) (auto simp: racy_def)
next
  case False
  then have "finished fs out0 s" using assms(2) by (simp add: inv_def)
  then show ?thesis using assms(3) by (cases l) (auto simp: finished_def racy_def exec_def)
qed

lemma inv_steps_calm:
  "steps cap s s' \<Longrightarrow> group_ok cap fs out0 \<Longrightarrow> inv cap fs out0 s \<Longrightarrow> inv cap fs out0 s' \<and> calm_steps cap s s'"
proof (induction rule: steps.induct)
  case (more s s' s'')
  then have i: "inv cap fs out0 s'" "calm_steps cap s s'" by blast+
  from more.hyps(2) obtain l where l: "exec cap l s' = Some (Inr s'')" by (rule stepE)
  show ?case using inv_exec [OF more.prems(1) i(1) l] calm_more [OF i(2) l inv_not_racy [OF more.prems(1) i(1) l]] by simp
qed (simp add: calm_refl)

lemma start_ends:
  assumes "start_ok cap os server paths pieces g0" "group_ok cap (map concat pieces) out0"
    and "start_steps cap os server (all_waiting g0 out0 pieces) st"
  shows "\<exists>st'. calm_start_steps cap os server st st' \<and> consumer (inner st') = Done RIGHT"
proof -
  let ?n = "length pieces"
  have ok: "files_ok cap pieces" using start_okD [OF assms(1)] by blast
  then have n: "0 < ?n" "?n \<le> 50" and ne: "\<forall>ps \<in> set pieces. [] \<notin> set ps"
    by (auto simp only: files_ok_def length_greater_0_conv pieces_ok_def)
  note r = start_reached [OF assms(1,3)]
  obtain t where t: "calm_start_steps cap os server st t" "start_inv cap os ?n (int (length (concat (hd pieces)))) out0 g0 t"
      "completed os ?n t = completed os ?n st" "\<forall>i < ?n. phase t i = Receiving"
    using all_begin [OF assms(1) r(1) none_ended_reached [OF assms(1,3)]] by blast
  have c: "completed os ?n t = inner t" using set_up_all_started [of ?n "phase t" os] t(4) by (simp add: completed_def)
  have i: "inv cap (map concat pieces) out0 (inner t)"
    using inv_reached [OF assms(2) set_up_fresh [OF start_okD(1) [OF assms(1)]] ne r(2)] t(3) c by simp
  obtain s' where s': "steps cap (inner t) s'" "consumer s' = Done RIGHT" using inv_ends [OF assms(2) i] by blast
  have g: "group_inv cap ?n (int (length (concat (hd pieces)))) out0 (inner t)" using t(2) c by (simp add: start_inv_def)
  have "calm_start_steps cap os server \<lparr>inner = inner t, phase = phase t\<rparr> \<lparr>inner = s', phase = phase t\<rparr>"
    using calm_lifted [OF conjunct2 [OF inv_steps_calm [OF s'(1) assms(2) i]] g n t(4)] by blast
  moreover have "\<lparr>inner = inner t, phase = phase t\<rparr> = t" by simp
  ultimately have "calm_start_steps cap os server st \<lparr>inner = s', phase = phase t\<rparr>" using calm_start_trans [OF _ t(1)] by metis
  from this s'(2) show ?thesis by (intro exI [of _ "\<lparr>inner = s', phase = phase t\<rparr>"]) simp
qed

subsection \<open>Properties\<close>

definition sample_threads :: "nat \<Rightarrow> thread_os" where
  "sample_threads i = sample_thread\<lparr>memory := (\<lambda>_. replicate 8 0)\<rparr>"

definition two_pieces :: "byte list list list" where
  "two_pieces = [[[1, 2], [3, 4, 5]], [[6, 7, 8, 9, 10]]]"

lemma sample_start_ok: "\<exists>g0. start_ok 8 sample_threads no_data_server [''a'', ''b''] two_pieces g0"
proof -
  have names: "\<forall>p \<in> set [''a'', ''b'']. NUL \<notin> set p \<and> length p < 1024" by (simp add: NUL_def)
  obtain g0 where g: "group_init (int (length (concat (hd two_pieces)))) [''a'', ''b''] = Inr g0" using group_init_total [OF names] by auto
  have "starts_ok sample_threads no_data_server (length two_pieces)"
    unfolding starts_ok_def using no_server_empty
    by (auto simp: no_data_server_def sample_threads_def sample_thread_def good_net_def connected_def EINPROGRESS_def FD_SETSIZE_def intro!: exI [of _ "''''"])
  moreover have "files_ok 8 two_pieces" by (simp add: files_ok_def two_pieces_def pieces_ok_def)
  ultimately have "start_ok 8 sample_threads no_data_server [''a'', ''b''] two_pieces g0"
    unfolding start_ok_def group_made_def using names g by (simp add: two_pieces_def sample_threads_def)
  then show ?thesis by blast
qed

lemma sample_group_ok: "group_ok 8 (map concat two_pieces) \<lparr>written = [], room = 9\<rparr>" "length (concat (hd two_pieces)) = 5"
  "parity (map concat two_pieces) = [7, 5, 11, 13, 15]"
  by (simp_all add: group_ok_def two_pieces_def parity_def column_def upt_rec)

text \<open>C3. From the group that \<open>create_client_connect_data_server\<close> has just filled in, threads starting at any time, files of any
  size: as long as no step has been a race, what has been written is the beginning of the parity, and when
  \<open>judge_xor_condition\<close> returns it reports success and the whole parity has been written.\<close>

theorem calm_start_parity:
  assumes "start_ok cap os server paths pieces g0" "length (concat (hd pieces)) \<le> room out0"
    and "calm_start_steps cap os server (all_waiting g0 out0 pieces) st"
  shows "written (out (inner st)) = written out0 @ take (nat (xor_size (group (inner st)))) (parity (map concat pieces))
    \<and> (\<forall>r. consumer (inner st) = Done r \<longrightarrow> r = RIGHT \<and> written (out (inner st)) = written out0 @ parity (map concat pieces))"
proof -
  have "files_ok cap pieces" using start_okD [OF assms(1)] by blast
  then show ?thesis
    using calm_inv_written [OF calm_group [OF _ set_up_fresh [OF start_okD(1) [OF assms(1)]] assms(2) calm_start_reached [OF assms(1,3)]]] by simp
qed

lemma calm_start_parity_witness:
  "\<exists>g0 st. calm_start_steps 8 sample_threads no_data_server (all_waiting g0 \<lparr>written = [], room = 9\<rparr> two_pieces) st
    \<and> consumer (inner st) = Done RIGHT \<and> written (out (inner st)) = [7, 5, 11, 13, 15]"
proof -
  obtain g0 where ok: "start_ok 8 sample_threads no_data_server [''a'', ''b''] two_pieces g0" using sample_start_ok by blast
  obtain st where st: "calm_start_steps 8 sample_threads no_data_server (all_waiting g0 \<lparr>written = [], room = 9\<rparr> two_pieces) st" "consumer (inner st) = Done RIGHT"
    using start_ends [OF ok sample_group_ok(1) start_refl] by blast
  have "length (concat (hd two_pieces)) \<le> room \<lparr>written = [], room = 9\<rparr>" using sample_group_ok(2) by simp
  from conjunct2 [OF calm_start_parity [OF ok this st(1)]] have "written (out (inner st)) = [7, 5, 11, 13, 15]"
    using st(2) sample_group_ok(3) by simp
  then show ?thesis using st by blast
qed

subsection \<open>Threads that fail\<close>

lemma connect_to_server_socket: "connect_to_server os server fd0 = Inr (0, s, acts) \<Longrightarrow> s = socket_ret os"
  by (auto simp: connect_to_server_def Let_def bindE_def CONNECTSERVERFAILED_def split: if_splits sum.splits)

lemma thread_start_cases:
  assumes "thread_start os server i g = Inr r" "correct_flag g = 0"
  obtains (ready) sock acts where "r = (Some sock, acts, put_file i (set_up os (get_file g i)) g)"
    | (no_memory) acts where "r = (None, acts, g)"
    | (no_connection) acts where "r = (None, acts, fail_group g)"
proof (cases "first_socket os = -1")
  case True
  then show ?thesis using assms that(3) [of "[]"] by (simp add: thread_start_def)
next
  case False
  then obtain x s acts where c: "connect_to_server (net os) server (first_socket os) = Inr (x, s, acts)"
    using assms(1) by (cases "connect_to_server (net os) server (first_socket os)") (auto simp: thread_start_def)
  show ?thesis
  proof (cases "x = 0")
    case x: False
    then show ?thesis using assms False c that(3) by (auto simp: thread_start_def Let_def)
  next
    case x: True
    then obtain y hs where h: "socket_write_header (net os) s (file_path (get_file g i)) = Inr (y, hs)"
      using assms(1) False c by (cases "socket_write_header (net os) s (file_path (get_file g i))") (auto simp: thread_start_def Let_def)
    have s: "s = socket_ret (net os)" using connect_to_server_socket [OF c [unfolded x]] .
    show ?thesis
    proof (cases "y = 0")
      case y: False
      then show ?thesis using assms False c x h that(3) by (auto simp: thread_start_def Let_def)
    next
      case y: True
      show ?thesis
      proof (cases "malloc0 os \<and> malloc1 os")
        case True
        then show ?thesis using assms False c x h y s by (intro that(1)) (auto simp: thread_start_def Let_def set_up_def)
      next
        case m: False
        then show ?thesis using assms False c x h y by (intro that(2)) (auto simp: thread_start_def Let_def split: if_splits)
      qed
    qed
  qed
qed

text \<open>Once \<open>correct_flag\<close> is set it stays set, and the consumer no longer reports success.\<close>

definition error_recorded :: "starting \<Rightarrow> bool" where
  "error_recorded st \<longleftrightarrow> correct_flag (group (inner st)) \<noteq> 0 \<and> consumer (inner st) \<noteq> Done RIGHT"

lemma buf_xor_error: "buf_xor mem n o1 k g = Inr r \<Longrightarrow> correct_flag (snd (snd r)) \<in> {correct_flag g, -1}"
  by (auto simp: buf_xor_def xor_done_def free_all_def put_info_def put_file_def Let_def split: if_splits)

lemma exec_error:
  assumes "exec cap l s = Some (Inr s')" "correct_flag (group s) \<noteq> 0" "consumer s \<noteq> Done RIGHT"
  shows "correct_flag (group s') \<noteq> 0 \<and> consumer s' \<noteq> Done RIGHT"
proof (cases "thread_of l")
  case (Some i)
  then show ?thesis using exec_thread_other(2,4) [OF assms(1) Some, of "Suc i"] assms(2,3) by simp
next
  case None
  then have l: "exec_judge s = Some (Inr s')" using assms(1) by (cases l) (simp_all add: exec_def)
  show ?thesis
  proof (cases "consumer s")
    case (Xor k)
    then obtain r where "buf_xor (in_bufs (group s) (nat (file_num (group s))) k) (nat (file_num (group s))) (out s) k (group s) = Inr r"
        "group s' = snd (snd r)" "consumer s' = ResetNum k"
      using l by (auto simp: exec_judge_def Let_def split: if_splits sum.splits)
    then show ?thesis using buf_xor_error assms(2) by fastforce
  qed (use l assms(2) in \<open>auto simp: exec_judge_def Let_def judge_verdict_def codes split: if_splits\<close>)
qed

lemma error_stays:
  assumes "error_recorded st" "start_exec cap os server l st = Some (Inr st')"
  shows "error_recorded st'"
proof (cases l)
  case (Go l')
  then show ?thesis using exec_error [OF go_inner(2)] assms unfolding error_recorded_def by blast
next
  case (Begin i)
  then obtain r where r: "thread_start (os i) server i (group (inner st)) = Inr r" "inner st' = (inner st)\<lparr>group := snd (snd r)\<rparr>"
    using assms(2) by (auto simp: start_exec_def begin_thread_def split: if_splits sum.splits)
  have "correct_flag (snd (snd r)) \<in> {correct_flag (group (inner st)), -1}"
    using r(1) by (auto simp: thread_start_def fail_group_def Let_def bindE_def split: if_splits sum.splits)
  then show ?thesis using assms(1) r(2) by (auto simp: error_recorded_def)
qed

lemma start_or_error_step:
  assumes "group_made cap os paths pieces g0" "start_inv cap os (length pieces) sz out0 g0 st"
    and "start_exec cap os server l st = Some (Inr st')"
  shows "start_inv cap os (length pieces) sz out0 g0 st' \<or> error_recorded st'"
proof (cases l)
  case (Go l')
  have "0 < length pieces" "length pieces \<le> 50" using assms(1) by (auto simp only: group_made_def files_ok_def length_greater_0_conv)
  then show ?thesis using go_simulated [OF assms(2) assms(3) [unfolded Go]] by auto
next
  case (Begin i)
  have b: "begin_thread os server i st = Some (Inr st')" using assms(3) Begin by (simp add: start_exec_def)
  note i = begin_index [OF assms(2) b]
  have nb: "correct_flag (group (inner st)) = 0" "consumer (inner st) \<noteq> Done RIGHT" using i(4) by (auto simp: not_begun_def)
  obtain r where r: "thread_start (os i) server i (group (inner st)) = Inr r"
    using i(5) by (cases "thread_start (os i) server i (group (inner st))") auto
  from r nb(1) show ?thesis
  proof (cases rule: thread_start_cases)
    case ready
    then show ?thesis using begin_ready [OF assms(2) b] r by auto
  next
    case no_memory
    then show ?thesis using begin_returns [OF assms(2) b] r by auto
  next
    case no_connection
    then show ?thesis using i(5) r nb(2) by (simp add: error_recorded_def fail_group_def)
  qed
qed

lemma start_or_error:
  assumes "group_made cap os paths pieces g0" "start_steps cap os server (all_waiting g0 out0 pieces) st"
  shows "start_inv cap os (length pieces) (int (length (concat (hd pieces)))) out0 g0 st \<or> error_recorded st"
  using assms(2,1)
proof (induction "all_waiting g0 out0 pieces" st rule: start_steps.induct)
  case start_refl
  then show ?case using start_inv_init(1) by blast
next
  case (start_more st' l st'')
  then show ?case using start_or_error_step error_stays by blast
qed

text \<open>C10. A group one of whose threads ends before it receives anything, whatever the other threads do and in whatever order:
  \<open>judge_xor_condition\<close> never reports success; and where no error is recorded (the thread found no memory for its
  buffers), it never returns at all, and has not written a byte.\<close>

theorem failed_start_never_right:
  assumes "group_made cap os paths pieces g0" "start_steps cap os server (all_waiting g0 out0 pieces) st"
    and "i < length pieces" "phase st i = Ended"
  shows "consumer (inner st) \<noteq> Done RIGHT
    \<and> (correct_flag (group (inner st)) = 0 \<longrightarrow> (\<forall>r. consumer (inner st) \<noteq> Done r) \<and> out (inner st) = out0)"
  using start_or_error [OF assms(1,2)]
proof
  assume "start_inv cap os (length pieces) (int (length (concat (hd pieces)))) out0 g0 st"
  then have "not_begun out0 g0 st i" using assms(3,4) by (simp add: start_inv_def)
  then show ?thesis by (auto simp: not_begun_def)
qed (simp add: error_recorded_def)

definition no_memory_threads :: "nat \<Rightarrow> thread_os" where
  "no_memory_threads i = (sample_threads i)\<lparr>malloc1 := i \<noteq> 0\<rparr>"

lemma failed_start_never_right_witness:
  "\<exists>g0 st. start_steps 8 no_memory_threads no_data_server (all_waiting g0 \<lparr>written = [], room = 9\<rparr> two_pieces) st \<and> phase st 0 = Ended
    \<and> correct_flag (group (inner st)) = 0 \<and> out (inner st) = \<lparr>written = [], room = 9\<rparr>"
proof -
  obtain g0 where ok: "start_ok 8 sample_threads no_data_server [''a'', ''b''] two_pieces g0" using sample_start_ok by blast
  have made: "group_made 8 no_memory_threads [''a'', ''b''] two_pieces g0"
    using start_okD(1) [OF ok] by (simp add: group_made_def no_memory_threads_def)
  let ?st = "all_waiting g0 \<lparr>written = [], room = 9\<rparr> two_pieces"
  note g = group_init_fields [OF made]
  have p: "holds (file_path (get_file g0 0)) 1024 ''a''" using g(1) by (auto simp: two_pieces_def)
  obtain acts where c: "connect_to_server good_net no_data_server 6 = Inr (0, 7, acts)"
    using no_server_empty [THEN holds_read]
    by (auto simp: connect_to_server_def no_data_server_def good_net_def Let_def EINPROGRESS_def FD_SETSIZE_def)
  obtain name where "strcpy (zbuf 1024) ''a'' = Inr name" using strcpy_holds [of "zbuf 1024" 1024 "''a''"] by (auto simp: NUL_def)
  then obtain hs where h: "socket_write_header good_net 7 (file_path (get_file g0 0)) = Inr (0, hs)"
    using holds_read [OF p]
    by (auto simp: socket_write_header_def communicate_with_server_def Let_def good_net_def zero_reply_def zero_header_def)
  obtain acts' where "thread_start (no_memory_threads 0) no_data_server 0 g0 = Inr (None, acts', g0)"
    using c h g(5) by (auto simp: thread_start_def no_memory_threads_def sample_threads_def sample_thread_def Let_def)
  then obtain st where st: "start_exec 8 no_memory_threads no_data_server (Begin 0) ?st = Some (Inr st)" "phase st 0 = Ended"
      "correct_flag (group (inner st)) = 0"
    using g(3,5) by (simp add: start_exec_def begin_thread_def all_waiting_def start_from_def two_pieces_def)
  note run = start_more [OF start_refl st(1)]
  have "0 < length two_pieces" by (simp add: two_pieces_def)
  from failed_start_never_right [OF made run this st(2)] show ?thesis using st run by blast
qed

end
