(* ===== verification/GroupProgress.thy ===== *)
theory GroupProgress
  imports GroupStart
begin

text \<open>
  Files of any size: a group can always be served. Round by round, the threads fill the buffer that is
  due, each opens the other buffer before the consumer clears the flag of this one, and the consumer XORs. No step
  of this schedule is one of the races of \<open>GroupOrder\<close>, and each round XORs another block, so the last
  round releases the group.
\<close>

subsection \<open>One thread fills the buffer that is due\<close>

definition filling :: "nat \<Rightarrow> run \<Rightarrow> nat \<Rightarrow> bool" where
  "filling d s i \<longleftrightarrow> buf_flag (info_of (group s) i) d = 1 \<and> buf_flag (info_of (group s) i) (1 - d) = 0 \<and> file_unstored s i \<noteq> []"

text \<open>Full, and what is left of the file goes to the other buffer.\<close>

definition filled :: "nat \<Rightarrow> run \<Rightarrow> nat \<Rightarrow> bool" where
  "filled d s i \<longleftrightarrow> buf_flag (info_of (group s) i) d = 2
     \<and> buf_flag (info_of (group s) i) (1 - d) = (if file_unstored s i = [] then 0 else 1)"

definition only :: "nat \<Rightarrow> run \<Rightarrow> run \<Rightarrow> bool" where
  "only i s s' \<longleftrightarrow> consumer s' = consumer s \<and> xor_size (group s') = xor_size (group s)
     \<and> (\<forall>j. j \<noteq> i \<longrightarrow> info_of (group s') j = info_of (group s) j \<and> thr s' j = thr s j \<and> todo s' j = todo s j)"

lemma only_trans: "only i t u \<Longrightarrow> only i s t \<Longrightarrow> only i s u"
  by (simp add: only_def)

lemma only_moves: "thread_moves i k full xs s s' \<Longrightarrow> only i s s'"
  using thread_moves_frame(3) [of i k full xs s s'] thread_moves_frame(9) [of i k full xs s s']
  by (auto simp: only_def thread_moves_def)

lemma only_others:
  assumes "only i s s'" "j \<noteq> i"
  shows "filling d s' j \<longleftrightarrow> filling d s j" "filled d s' j \<longleftrightarrow> filled d s j"
  using assms by (simp_all add: only_def filling_def filled_def file_unstored_def)

definition distance :: "run \<Rightarrow> nat \<Rightarrow> nat" where
  "distance s i = 3 * length (todo s i) + (case thr s i of Idle \<Rightarrow> 0 | AtStore p fl \<Rightarrow> 1 | AtRotate p fl \<Rightarrow> 2)"

lemma calm_file:
  assumes "calm cap fs out0 s" "i < length fs"
  shows "file_inv cap (int (length (hd fs))) (get_file (group s) i) (thr s i) (todo s i)"
  using calm_running [OF assms(1)] assms(2) by (simp add: running_def Let_def)

lemma unstored_busy:
  assumes "calm cap fs out0 s" "i < length fs"
  shows "file_unstored s i = [] \<longleftrightarrow> thr s i = Idle \<and> todo s i = []"
  using unstored_empty [OF calm_file [OF assms]]
  by (auto simp: file_unstored_def unstored_def info_of_def in_flight_def)

lemma calm_flags: "calm cap fs out0 s \<Longrightarrow> correct_flag (group s) = 0 \<and> xor_flag (group s) = 0"
  by (simp add: calm_def running_def Let_def)

lemma due_only: "only i s s' \<Longrightarrow> due cap (group s') = due cap (group s)"
  by (simp add: only_def due_def)

lemma opened_next:
  assumes "opened b b'" "buf_flag b d = 2" "buf_flag b (1 - d) = 0" "d < 2"
  shows "buf_flag b' = (buf_flag b)(1 - d := 1)"
proof -
  have "1 - d < 2 \<and> buf_flag b (1 - d) = 0 \<and> buf_flag b (1 - (1 - d)) \<noteq> 1" using assms(2-4) by (simp add: Suc_leI)
  then obtain k where k: "k < 2" "buf_flag b k = 0" "buf_flag b' = (buf_flag b)(k := 1)" using assms(1) unfolding opened_def by blast
  have "k \<noteq> d" using k(2) assms(2) by auto
  then show ?thesis using two_cases [OF assms(4) k(1)] k(3) by simp
qed

text \<open>One step of a thread that is filling.\<close>

lemma fill_step:
  assumes "calm cap fs out0 s" "i < length fs" "d < 2" "filling d s i"
  shows "\<exists>s'. calm_steps cap s s' \<and> calm cap fs out0 s' \<and> only i s s'
    \<and> (filled d s' i \<or> (filling d s' i \<and> distance s' i < distance s i))"
proof -
  note r = calm_running [OF assms(1)]
  have b: "buf_flag (info_of (group s) i) d = 1" "buf_flag (info_of (group s) i) (1 - d) = 0" and u: "file_unstored s i \<noteq> []"
    using assms(4) by (simp_all add: filling_def)
  show ?thesis
  proof (cases "thr s i")
    case Idle
    then have "todo s i \<noteq> []" using u by (auto simp: file_unstored_def unstored_def in_flight_def)
    then obtain p ps where p: "todo s i = p # ps" by (cases "todo s i") auto
    let ?s = "s\<lparr>thr := (thr s)(i := AtStore p 0), todo := (todo s)(i := ps)\<rparr>"
    have ex: "exec cap (Recv i) s = Some (Inr ?s)" using Idle p calm_flags [OF assms(1)] by (simp add: exec_def)
    have c: "calm cap fs out0 ?s" using calm_recv [OF assms(1) ex] by simp
    have m: "only i s ?s" by (simp add: only_def)
    have "file_unstored ?s i \<noteq> []" using unstored_busy [OF c assms(2)] by simp
    then have "filling d ?s i" using b by (simp add: filling_def)
    moreover have "distance ?s i < distance s i" using Idle p by (simp add: distance_def)
    moreover have "calm_steps cap s ?s" by (rule calm_more [OF calm_refl ex]) (simp add: racy_def)
    ultimately show ?thesis using c m by blast
  next
    case (AtRotate p fl)
    obtain res where ex: "exec cap (Rotate i) s = Some res"
      using AtRotate by (cases "rotate_bufs cap i (group s)") (simp_all add: exec_def)
    have nr: "\<not> racy cap (Rotate i) s" using b(1) assms(3) by (auto simp: racy_def less_2_cases_iff)
    obtain s' where s': "res = Inr s'" "thread_moves i 0 False [] s s'" "opened (info_of (group s) i) (info_of (group s') i)"
      using rotate_moves [OF r ex] by blast
    have c: "calm cap fs out0 s'" using calm_rotate [OF assms(1) ex nr] s'(1) by simp
    have same: "info_of (group s') i = info_of (group s) i"
      using s'(3) b assms(3) by (auto simp: opened_def less_2_cases_iff)
    have t: "thr s' i = AtStore p fl" "todo s' = todo s"
      using ex AtRotate s'(1) by (auto simp: exec_def split: sum.splits)
    have "file_unstored s' i \<noteq> []" using unstored_busy [OF c assms(2)] t by simp
    then have "filling d s' i" using b same by (simp add: filling_def)
    moreover have "distance s' i < distance s i" using AtRotate t by (simp add: distance_def)
    moreover have "calm_steps cap s s'" by (rule calm_more [OF calm_refl _ nr]) (use ex s'(1) in simp)
    ultimately show ?thesis using c only_moves [OF s'(2)] by blast
  next
    case (AtStore p fl)
    obtain res where ex: "exec cap (Store i) s = Some res"
      using AtStore by (cases "store_step cap i p (int (length p)) fl (group s)") (simp_all add: exec_def)
    have act: "\<exists>j. active (info_of (group s) i) j" using b assms(3) by (auto simp: active_def less_2_cases_iff)
    obtain s' k full xs where s': "res = Inr s'" "thread_moves i k full xs s s'" "advance k full xs (info_of (group s) i) (info_of (group s') i)"
        "if thr s' i = Idle then full \<longleftrightarrow> todo s' i = [] else full" "todo s' = todo s" "thr s' i = Idle \<or> (\<exists>p fl. thr s' i = AtRotate p fl)"
      using store_moves [OF r ex] act by blast
    have c: "calm cap fs out0 s'" using calm_store [OF assms(1) ex] s'(1) by simp
    have st: "calm_steps cap s s'" by (rule calm_more [OF calm_refl, where l = "Store i"]) (use ex s'(1) in \<open>simp_all add: racy_def\<close>)
    note o1 = only_moves [OF s'(2)]
    have fl': "buf_flag (info_of (group s') i) = (if full then (buf_flag (info_of (group s) i))(k := 2) else buf_flag (info_of (group s) i))"
      and k: "k < 2" "full \<Longrightarrow> buf_flag (info_of (group s) i) k = 1"
      using s'(3) unfolding advance_def by blast+
    have kd: "full \<Longrightarrow> k = d" using k b(2) two_cases [OF assms(3) k(1)] by auto
    have d1: "1 - d \<noteq> d" using assms(3) by (auto simp: less_2_cases_iff)
    show ?thesis
    proof (cases "thr s' i = Idle")
      case True
      note u' = unstored_busy [OF c assms(2)]
      show ?thesis
      proof (cases full)
        case True
        then have "filled d s' i" using fl' kd b d1 u' s'(4) \<open>thr s' i = Idle\<close> by (simp add: filled_def)
        then show ?thesis using st c o1 by blast
      next
        case False
        then have "filling d s' i" using fl' b u' s'(4) True by (simp add: filling_def)
        moreover have "distance s' i < distance s i" using True AtStore s'(5) by (simp add: distance_def)
        ultimately show ?thesis using st c o1 by blast
      qed
    next
      case False
      then have f: full using s'(4) by simp
      then have b': "buf_flag (info_of (group s') i) d = 2" "buf_flag (info_of (group s') i) (1 - d) = 0" using fl' kd b d1 by simp_all
      obtain p' fl2 where t: "thr s' i = AtRotate p' fl2" using False s'(6) by blast
      obtain res' where ex': "exec cap (Rotate i) s' = Some res'"
        using t by (cases "rotate_bufs cap i (group s')") (simp_all add: exec_def)
      have nr: "\<not> racy cap (Rotate i) s'" using b'(1) assms(3) by (auto simp: racy_def less_2_cases_iff)
      obtain s2 where s2: "res' = Inr s2" "thread_moves i 0 False [] s' s2" "opened (info_of (group s') i) (info_of (group s2) i)"
        using rotate_moves [OF calm_running [OF c] ex'] by blast
      have c2: "calm cap fs out0 s2" using calm_rotate [OF c ex' nr] s2(1) by simp
      have "thr s2 i = AtStore p' fl2" using ex' t s2(1) by (auto simp: exec_def split: sum.splits)
      then have "file_unstored s2 i \<noteq> []" using unstored_busy [OF c2 assms(2)] by simp
      moreover have "buf_flag (info_of (group s2) i) d = 2 \<and> buf_flag (info_of (group s2) i) (1 - d) = 1"
        using opened_next [OF s2(3) b' assms(3)] b'(1) d1 by simp
      ultimately have "filled d s2 i" by (simp add: filled_def)
      moreover have "calm_steps cap s s2" by (rule calm_more [OF st _ nr]) (use ex' s2(1) in simp)
      ultimately show ?thesis using c2 only_trans [OF only_moves [OF s2(2)] o1] by blast
    qed
  qed
qed

lemma thread_fills:
  assumes "calm cap fs out0 s" "i < length fs" "d < 2" "filling d s i"
  shows "\<exists>s'. calm_steps cap s s' \<and> calm cap fs out0 s' \<and> only i s s' \<and> filled d s' i"
  using assms
proof (induction "distance s i" arbitrary: s rule: less_induct)
  case less
  obtain t where t: "calm_steps cap s t" "calm cap fs out0 t" "only i s t" "filled d t i \<or> (filling d t i \<and> distance t i < distance s i)"
    using fill_step [OF less.prems] by blast
  show ?case
  proof (cases "filled d t i")
    case True
    then show ?thesis using t by blast
  next
    case False
    then obtain u where u: "calm_steps cap t u" "calm cap fs out0 u" "only i t u" "filled d u i"
      using t(4) less.hyps [OF _ t(2) less.prems(2,3)] by blast
    then show ?thesis using calm_all_trans [OF u(1) t(1)] only_trans [OF u(3) t(3)] by blast
  qed
qed

lemma all_fill:
  assumes "calm cap fs out0 s" "d < 2" "\<forall>i < length fs. filling d s i" "m \<le> length fs"
  shows "\<exists>s'. calm_steps cap s s' \<and> calm cap fs out0 s' \<and> consumer s' = consumer s \<and> xor_size (group s') = xor_size (group s)
    \<and> (\<forall>i < m. filled d s' i) \<and> (\<forall>i < length fs. m \<le> i \<longrightarrow> filling d s' i)"
  using assms(4)
proof (induction m)
  case 0
  then show ?case using assms(1,3) calm_refl by blast
next
  case (Suc m)
  then obtain t where t: "calm_steps cap s t" "calm cap fs out0 t" "consumer t = consumer s" "xor_size (group t) = xor_size (group s)"
      "\<forall>i < m. filled d t i" "\<forall>i < length fs. m \<le> i \<longrightarrow> filling d t i"
    by auto
  have m: "m < length fs" using Suc.prems by simp
  obtain u where u: "calm_steps cap t u" "calm cap fs out0 u" "only m t u" "filled d u m"
    using thread_fills [OF t(2) m assms(2)] t(6) m by blast
  have "filled d u i" if "i < Suc m" for i
    using that t(5) u(4) only_others(2) [OF u(3)] by (cases "i = m") auto
  moreover have "filling d u i" if "i < length fs" "Suc m \<le> i" for i
    using that t(6) only_others(1) [OF u(3), of i d] by simp
  moreover have "consumer u = consumer s" "xor_size (group u) = xor_size (group s)" using u(3) t(3,4) by (simp_all add: only_def)
  ultimately show ?case using calm_all_trans [OF u(1) t(1)] u(2) by blast
qed

subsection \<open>One round\<close>

lemma judge_calm_step:
  assumes "calm cap fs out0 s" "exec cap Judge s = Some (Inr s')" "\<forall>k. consumer s = Poll k \<longrightarrow> buf_full_num (group s) k \<noteq> file_num (group s) \<or> k = due cap (group s)"
  shows "calm_steps cap s s'" "\<not> racy cap Judge s"
proof -
  show "\<not> racy cap Judge s" using assms(3) by (auto simp: racy_def split: consumer.splits)
  then show "calm_steps cap s s'" by (rule calm_more [OF calm_refl assms(2)])
qed

text \<open>The buffer that is due is full: the consumer takes it.\<close>

lemma poll_takes:
  assumes "calm cap fs out0 s" "consumer s = Poll d" "d = due cap (group s)" "\<forall>i < length fs. filled d s i"
  shows "calm_steps cap s (s\<lparr>consumer := Xor d\<rparr>)" "calm cap fs out0 (s\<lparr>consumer := Xor d\<rparr>)"
proof -
  have d: "d < 2" unfolding assms(3) by (rule due_less)
  have "full_files (length fs) s d = {..<length fs}" using assms(2,4) by (auto simp: full_files_def filled_def xored_def)
  then have "buf_full_num (group s) d = file_num (group s)"
    using calm_running [OF assms(1)] d assms(2) by (simp add: running_def Let_def counted_def)
  then have ex: "exec cap Judge s = Some (Inr (s\<lparr>consumer := Xor d\<rparr>))" using assms(2) by (simp add: exec_def exec_judge_def Let_def)
  note j = judge_calm_step [OF assms(1) ex]
  show "calm_steps cap s (s\<lparr>consumer := Xor d\<rparr>)" by (rule j) (use assms(2,3) in simp)
  show "calm cap fs out0 (s\<lparr>consumer := Xor d\<rparr>)"
    using calm_poll [OF assms(1,2) ex] assms(2,3) by (simp add: racy_def)
qed

text \<open>Behind the XOR of a block that is not the last one: every file goes on in the other buffer.\<close>

definition handed_over :: "nat \<Rightarrow> nat \<Rightarrow> nat \<Rightarrow> run \<Rightarrow> bool" where
  "handed_over n d j s \<longleftrightarrow> (\<forall>i < n. buf_flag (info_of (group s) i) d = (if i < j then 0 else 2)
     \<and> buf_flag (info_of (group s) i) (1 - d) = 1 \<and> file_unstored s i \<noteq> [])"

lemma xor_hands_over:
  assumes "calm cap fs out0 s" "consumer s = Xor d" "calm_ok cap fs out0" "\<forall>i < length fs. filled d s i"
  shows "\<exists>s'. calm_steps cap s s' \<and> (parity_written fs out0 s' \<or>
    (calm cap fs out0 s' \<and> consumer s' = ResetNum d \<and> due cap (group s') = 1 - d \<and> xor_size (group s') = xor_size (group s) + cap
      \<and> handed_over (length fs) d 0 s'))"
proof -
  let ?s = "block_xored cap fs d s" and ?m = "block_size cap fs s" and ?sz = "length (hd fs)"
  note bx = block_xored_exec [OF assms(1-3)] and r = calm_running [OF assms(1)]
  have ok: "fs \<noteq> []" "0 < cap" "same_length ?sz fs" using assms(3) by (auto simp: calm_ok_def)
  have st: "calm_steps cap s ?s" by (rule judge_calm_step(1) [OF assms(1) bx(1)]) (use assms(2) in simp)
  have d: "d = due cap (group s)" "d < 2" "cap dvd xor_size (group s)" using assms(1,2) due_less [of cap "group s"] by (simp_all add: calm_def Let_def)
  from calm_xor [OF assms(1,2) bx(1) assms(3)] consider "parity_written fs out0 ?s" | "calm cap fs out0 ?s" by blast
  then show ?thesis
  proof cases
    case 1
    then show ?thesis using st by blast
  next
    case 2
    note r' = calm_running [OF 2]
    note full = due_full [OF assms(1,2) ok(1,3), folded block_size_def]
    have ne: "xor_size (group s) + int ?m \<noteq> int ?sz"
    proof
      assume "xor_size (group s) + int ?m = int ?sz"
      then have "xor_flag (group ?s) = 1" using r by (simp add: block_xored_def running_def Let_def)
      then show False using r' by (simp add: running_def Let_def)
    qed
    have within: "0 \<le> xor_size (group s)" "nat (xor_size (group s)) \<le> ?sz" using calm_within [OF assms(1) ok(1)] by blast+
    have m: "int ?m = cap" using ne within ok(2) unfolding block_size_def by linarith
    have x: "xor_size (group ?s) = xor_size (group s) + cap" using bx(2) m by simp
    note rt = retouched_done [OF r assms(2) full(1) ne]
    have "handed_over (length fs) d 0 ?s"
      unfolding handed_over_def
    proof (intro allI impI)
      fix i assume i: "i < length fs"
      note xp = xored_pending [OF r assms(2) full(1) i rt block_xored_def]
      have flags: "buf_flag (info_of (group ?s) i) = buf_flag (info_of (group s) i)"
        using retouched_same(1) [OF rt i] by (simp add: block_xored_def)
      have f: "filled d s i" using assms(4) i by blast
      have d1: "1 - d \<noteq> d" using d(2) by (auto simp: less_2_cases_iff)
      have "file_unstored s i \<noteq> []"
      proof
        assume u: "file_unstored s i = []"
        then have "file_pending s i (1 - d) = []" using f by (simp add: filled_def file_pending_def pending_def)
        then have "file_pending ?s i (1 - d) = []" "file_unstored ?s i = []" using xp(4,5) d1 u by simp_all
        moreover have "balanced (int ?sz) ?s i" using r' i bx(4) by (simp add: running_def Let_def)
        ultimately have "xor_size (group ?s) = int ?sz" using xp(3) balanced_split [OF d(2)] by simp
        then show False using x m ne by simp
      qed
      then show "buf_flag (info_of (group ?s) i) d = (if i < 0 then 0 else 2) \<and> buf_flag (info_of (group ?s) i) (1 - d) = 1
          \<and> file_unstored ?s i \<noteq> []"
        using f flags xp(5) by (simp add: filled_def)
    qed
    moreover have "due cap (group ?s) = 1 - d" using due_next(1) [OF ok(2) d(3) x] d(1) by simp
    moreover have "consumer ?s = ResetNum d" by (simp add: block_xored_def)
    ultimately show ?thesis using st 2 x by blast
  qed
qed

lemma resets_hand_over:
  assumes "calm cap fs out0 s" "consumer s = ResetFlag d j" "d < 2" "handed_over (length fs) d j s" "j \<le> length fs"
  shows "\<exists>s'. calm_steps cap s s' \<and> calm cap fs out0 s' \<and> consumer s' = Check \<and> xor_size (group s') = xor_size (group s)
    \<and> (\<forall>i < length fs. filling (1 - d) s' i)"
  using assms(1,2,4,5)
proof (induction "length fs - j" arbitrary: s j rule: less_induct)
  case less
  have n: "file_num (group s) = int (length fs)" "length fs \<le> length (single_file_array (group s))"
    using calm_running [OF less.prems(1)] by (simp_all add: running_def Let_def)
  have d1: "1 - d \<noteq> d" "1 - (1 - d) = d" using assms(3) by (auto simp: less_2_cases_iff)
  show ?case
  proof (cases "j < length fs")
    case True
    let ?s = "flag_cleared d j s"
    have ex: "exec cap Judge s = Some (Inr ?s)"
      using less.prems(2) n True by (simp add: exec_def exec_judge_def Let_def flag_cleared_def)
    have c: "calm cap fs out0 ?s" using calm_reset_flag [OF less.prems(1,2) ex] by simp
    have st: "calm_steps cap s ?s" by (rule judge_calm_step(1) [OF less.prems(1) ex]) (use less.prems(2) in simp)
    have j: "j < length (single_file_array (group s))" using True n(2) by simp
    note same = flag_cleared_same [OF j less.prems(2)]
    have "handed_over (length fs) d (Suc j) ?s"
      unfolding handed_over_def
    proof (intro allI impI)
      fix i assume i: "i < length fs"
      have h: "buf_flag (info_of (group s) i) d = (if i < j then 0 else 2)" "buf_flag (info_of (group s) i) (1 - d) = 1" "file_unstored s i \<noteq> []"
        using less.prems(3) i unfolding handed_over_def by blast+
      show "buf_flag (info_of (group ?s) i) d = (if i < Suc j then 0 else 2) \<and> buf_flag (info_of (group ?s) i) (1 - d) = 1
          \<and> file_unstored ?s i \<noteq> []"
        using h same(1) same(2) [of i] same(5) [of i] d1(1) by (cases "i = j") auto
    qed
    moreover have "consumer ?s = ResetFlag d (Suc j)" "xor_size (group ?s) = xor_size (group s)" by (simp_all add: flag_cleared_def)
    ultimately obtain t where t: "calm_steps cap ?s t" "calm cap fs out0 t" "consumer t = Check" "xor_size (group t) = xor_size (group s)"
        "\<forall>i < length fs. filling (1 - d) t i"
      using less.hyps [of "Suc j" ?s] c True diff_less_mono2 [of j "Suc j" "length fs"] by auto
    then show ?thesis using calm_all_trans [OF t(1) st] by blast
  next
    case False
    let ?s = "s\<lparr>consumer := Check\<rparr>"
    have ex: "exec cap Judge s = Some (Inr ?s)"
      using less.prems(2) n False by (simp add: exec_def exec_judge_def Let_def)
    have c: "calm cap fs out0 ?s" using calm_reset_flag [OF less.prems(1,2) ex] by simp
    have "calm_steps cap s ?s" by (rule judge_calm_step(1) [OF less.prems(1) ex]) (use less.prems(2) in simp)
    moreover have "filling (1 - d) ?s i" if "i < length fs" for i
      using less.prems(3) that False d1 unfolding handed_over_def filling_def by (simp add: file_unstored_def)
    ultimately show ?thesis using c by (intro exI [of _ ?s]) simp
  qed
qed

text \<open>From the end of its loop body the consumer comes to the buffer that is due.\<close>

lemma polls_due:
  assumes "calm cap fs out0 s" "consumer s = Check" "d = due cap (group s)" "\<forall>i < length fs. filling d s i" "fs \<noteq> []"
  shows "\<exists>s'. calm_steps cap s s' \<and> calm cap fs out0 s' \<and> consumer s' = Poll d \<and> xor_size (group s') = xor_size (group s)
    \<and> (\<forall>i < length fs. filling d s' i)"
proof -
  let ?at = "\<lambda>c. s\<lparr>consumer := c\<rparr>"
  have at: "filling d (?at c) i \<longleftrightarrow> filling d s i" for c i by (simp add: filling_def file_unstored_def)
  have ex: "exec cap Judge s = Some (Inr (?at (Poll 0)))"
    using assms(2) calm_flags [OF assms(1)] by (simp add: exec_def exec_judge_def Let_def)
  have c: "calm cap fs out0 (?at (Poll 0))" using calm_check [OF assms(1,2) ex] by simp
  have st: "calm_steps cap s (?at (Poll 0))" by (rule judge_calm_step(1) [OF assms(1) ex]) (use assms(2) in simp)
  consider "d = 0" | "d = 1" using due_less [of cap "group s"] assms(3) by (auto simp: less_2_cases_iff)
  then show ?thesis
  proof cases
    case 1
    then show ?thesis using st c at assms(4) by (intro exI [of _ "?at (Poll 0)"]) simp
  next
    case 2
    have "full_files (length fs) (?at (Poll 0)) 0 = {}" using assms(4) 2 by (auto simp: full_files_def filling_def)
    then have ne: "buf_full_num (group s) 0 \<noteq> file_num (group s)"
      using calm_running [OF c] assms(5) by (simp add: running_def Let_def counted_def)
    then have ex1: "exec cap Judge (?at (Poll 0)) = Some (Inr (?at (Poll 1)))" by (simp add: exec_def exec_judge_def Let_def)
    note j = judge_calm_step [OF c ex1]
    have st1: "calm_steps cap (?at (Poll 0)) (?at (Poll 1))" and nr: "\<not> racy cap Judge (?at (Poll 0))" by (rule j; use ne in simp)+
    have "calm cap fs out0 (?at (Poll 1))" using calm_poll [OF c _ ex1 nr] by simp
    then show ?thesis using calm_all_trans [OF st1 st] at assms(4) 2 by (intro exI [of _ "?at (Poll 1)"]) simp
  qed
qed

definition round_start :: "int \<Rightarrow> byte list list \<Rightarrow> ostream \<Rightarrow> run \<Rightarrow> bool" where
  "round_start cap fs out0 s \<longleftrightarrow> calm cap fs out0 s \<and> consumer s = Poll (due cap (group s))
     \<and> (\<forall>i < length fs. filling (due cap (group s)) s i)"

lemma one_round:
  assumes "round_start cap fs out0 s" "calm_ok cap fs out0"
  shows "\<exists>s'. calm_steps cap s s' \<and> (parity_written fs out0 s' \<or>
    (round_start cap fs out0 s' \<and> xor_size (group s') = xor_size (group s) + cap))"
proof -
  let ?d = "due cap (group s)"
  have d: "?d < 2" by (rule due_less)
  have ok: "fs \<noteq> []" using assms(2) by (simp add: calm_ok_def)
  obtain t where t: "calm_steps cap s t" "calm cap fs out0 t" "consumer t = Poll ?d" "xor_size (group t) = xor_size (group s)"
      "\<forall>i < length fs. filled ?d t i"
    using all_fill [of cap fs out0 s ?d "length fs"] assms(1) d by (auto simp: round_start_def)
  have dt: "?d = due cap (group t)" using t(4) by (simp add: due_def)
  note p = poll_takes [OF t(2,3) dt t(5)]
  have f: "\<forall>i < length fs. filled ?d (t\<lparr>consumer := Xor ?d\<rparr>) i" using t(5) by (simp add: filled_def file_unstored_def)
  note st = calm_all_trans [OF p(1) t(1)]
  from xor_hands_over [OF p(2) _ assms(2) f] obtain u where u: "calm_steps cap (t\<lparr>consumer := Xor ?d\<rparr>) u"
      "parity_written fs out0 u \<or> (calm cap fs out0 u \<and> consumer u = ResetNum ?d \<and> due cap (group u) = 1 - ?d
        \<and> xor_size (group u) = xor_size (group s) + cap \<and> handed_over (length fs) ?d 0 u)"
    using t(4) by auto
  note su = calm_all_trans [OF u(1) st]
  show ?thesis
  proof (cases "parity_written fs out0 u")
    case True
    then show ?thesis using su by blast
  next
    case False
    then have c: "calm cap fs out0 u" "consumer u = ResetNum ?d" "due cap (group u) = 1 - ?d" "xor_size (group u) = xor_size (group s) + cap"
        "handed_over (length fs) ?d 0 u"
      using u(2) by blast+
    let ?v = "u\<lparr>group := reset_num ?d (group u), consumer := ResetFlag ?d 0\<rparr>"
    have ex: "exec cap Judge u = Some (Inr ?v)" using c(2) by (simp add: exec_def exec_judge_def Let_def)
    have cv: "calm cap fs out0 ?v" using calm_reset_num [OF c(1,2) ex] by simp
    have sv: "calm_steps cap u ?v" by (rule judge_calm_step(1) [OF c(1) ex]) (use c(2) in simp)
    have hv: "handed_over (length fs) ?d 0 ?v" using c(5) by (simp add: handed_over_def info_of_def file_unstored_def)
    obtain w where w: "calm_steps cap ?v w" "calm cap fs out0 w" "consumer w = Check" "xor_size (group w) = xor_size (group u)"
        "\<forall>i < length fs. filling (1 - ?d) w i"
      using resets_hand_over [OF cv _ d hv] by auto
    have dw: "1 - ?d = due cap (group w)" using w(4) c(3) by (simp add: due_def)
    obtain x where x: "calm_steps cap w x" "calm cap fs out0 x" "consumer x = Poll (1 - ?d)" "xor_size (group x) = xor_size (group w)"
        "\<forall>i < length fs. filling (1 - ?d) x i"
      using polls_due [OF w(2,3) dw w(5) ok] by blast
    have "due cap (group x) = 1 - ?d" using x(4) dw by (simp add: due_def)
    then have "round_start cap fs out0 x" using x by (simp add: round_start_def)
    moreover have "calm_steps cap s x"
      by (rule calm_all_trans [OF x(1) calm_all_trans [OF w(1) calm_all_trans [OF sv su]]])
    ultimately show ?thesis using x(4) w(4) c(4) by auto
  qed
qed

subsection \<open>All rounds\<close>

text \<open>When the last block has been XORed the consumer leaves its loop.\<close>

lemma released_calm_step:
  assumes "released n sz out0 s" "exec cap Judge s = Some (Inr s')"
  shows "calm_steps cap s s'" "released n sz out0 s'"
proof -
  have "\<not> racy cap Judge s" using assms(1) by (auto simp: racy_def released_def split: consumer.splits)
  then show "calm_steps cap s s'" by (rule calm_more [OF calm_refl assms(2)])
  show "released n sz out0 s'" using released_step [OF assms] by simp
qed

lemma released_check:
  assumes "released n sz out0 s" "consumer s = Check"
  shows "\<exists>s'. calm_steps cap s s' \<and> consumer s' = Done RIGHT"
proof -
  have "judge_verdict (group s) = RIGHT" using assms(1) by (simp add: released_def judge_verdict_def)
  then have ex: "exec cap Judge s = Some (Inr (s\<lparr>consumer := Done RIGHT\<rparr>))"
    using assms by (simp add: released_def exec_def exec_judge_def Let_def)
  show ?thesis using released_calm_step(1) [OF assms(1) ex] by (intro exI [of _ "s\<lparr>consumer := Done RIGHT\<rparr>"]) simp
qed

lemma released_flags:
  assumes "released n sz out0 s" "consumer s = ResetFlag k j"
  shows "\<exists>s'. calm_steps cap s s' \<and> consumer s' = Done RIGHT"
  using assms
proof (induction "n - j" arbitrary: s j rule: less_induct)
  case less
  have n: "nat (file_num (group s)) = n" using less.prems(1) by (simp add: released_def)
  show ?case
  proof (cases "j < n")
    case True
    let ?s = "flag_cleared k j s"
    have ex: "exec cap Judge s = Some (Inr ?s)" using less.prems(2) n True by (simp add: exec_def exec_judge_def Let_def flag_cleared_def)
    note r = released_calm_step [OF less.prems(1) ex]
    have "consumer ?s = ResetFlag k (Suc j)" by (simp add: flag_cleared_def)
    then obtain t where "calm_steps cap ?s t" "consumer t = Done RIGHT"
      using less.hyps [OF _ r(2)] diff_less_mono2 [of j "Suc j" n] True by auto
    then show ?thesis using calm_all_trans [OF _ r(1)] by blast
  next
    case False
    have ex: "exec cap Judge s = Some (Inr (s\<lparr>consumer := Check\<rparr>))"
      using less.prems(2) n False by (simp add: exec_def exec_judge_def Let_def)
    note r = released_calm_step [OF less.prems(1) ex]
    then show ?thesis using released_check [OF r(2)] calm_all_trans [OF _ r(1)] by fastforce
  qed
qed

lemma released_ends:
  assumes "released n sz out0 s"
  shows "\<exists>s'. calm_steps cap s s' \<and> consumer s' = Done RIGHT"
proof (cases "consumer s")
  case (ResetNum k)
  then have ex: "exec cap Judge s = Some (Inr (s\<lparr>group := reset_num k (group s), consumer := ResetFlag k 0\<rparr>))"
    by (simp add: exec_def exec_judge_def Let_def)
  note r = released_calm_step [OF assms ex]
  then show ?thesis using released_flags [OF r(2)] calm_all_trans [OF _ r(1)] by fastforce
next
  case (Done r)
  then show ?thesis using assms calm_refl by (fastforce simp: released_def)
qed (use assms released_check released_flags in \<open>auto simp: released_def\<close>)

lemma rounds_end:
  assumes "round_start cap fs out0 s" "calm_ok cap fs out0"
  shows "\<exists>s'. calm_steps cap s s' \<and> consumer s' = Done RIGHT"
  using assms(1)
proof (induction "length (hd fs) - nat (xor_size (group s))" arbitrary: s rule: less_induct)
  case less
  have ok: "fs \<noteq> []" "0 < cap" using assms(2) by (simp_all add: calm_ok_def)
  obtain t where t: "calm_steps cap s t" "parity_written fs out0 t \<or> (round_start cap fs out0 t \<and> xor_size (group t) = xor_size (group s) + cap)"
    using one_round [OF less.prems assms(2)] by blast
  show ?case
  proof (cases "parity_written fs out0 t")
    case True
    then obtain u where "calm_steps cap t u" "consumer u = Done RIGHT" using released_ends unfolding parity_written_def by blast
    then show ?thesis using calm_all_trans [OF _ t(1)] by blast
  next
    case False
    then have r: "round_start cap fs out0 t" "xor_size (group t) = xor_size (group s) + cap" using t(2) by blast+
    have "calm cap fs out0 s" "calm cap fs out0 t" using less.prems r(1) by (simp_all add: round_start_def)
    from calm_within [OF this(1) ok(1)] calm_within [OF this(2) ok(1)]
    have "length (hd fs) - nat (xor_size (group t)) < length (hd fs) - nat (xor_size (group s))" using r(2) ok(2) by linarith
    then obtain u where "calm_steps cap t u" "consumer u = Done RIGHT" using less.hyps [OF _ r(1)] by blast
    then show ?thesis using calm_all_trans [OF _ t(1)] by blast
  qed
qed

lemma start_round:
  assumes "files_ok cap pieces" "group_fresh cap pieces g" "length (concat (hd pieces)) \<le> room out0" "0 < length (concat (hd pieces))"
  shows "round_start cap (map concat pieces) out0 (start_from g out0 pieces)"
proof -
  let ?s = "start_from g out0 pieces"
  have d: "due cap (group ?s) = 0" using assms(2) by (simp add: due_def group_fresh_def)
  have "filling 0 ?s i" if i: "i < length pieces" for i
  proof -
    have "length (concat (pieces ! i)) = length (concat (hd pieces))" using assms(1) nth_mem [OF i] unfolding files_ok_def by blast
    then have "concat (pieces ! i) \<noteq> []" using assms(4) by (metis length_0_conv less_irrefl)
    moreover have "file_unstored ?s i = concat (pieces ! i)" using i by (simp add: file_unstored_def unstored_def in_flight_def)
    moreover have "file_fresh cap (get_file g i)" using assms(2) i by (simp add: group_fresh_def)
    ultimately show ?thesis by (simp add: filling_def file_fresh_def info_of_def)
  qed
  then show ?thesis using start_calm [OF assms(1-3)] d by (simp add: round_start_def)
qed

subsection \<open>Properties\<close>

text \<open>C8. Files of any size: whatever the sizes of the pieces the data server sends them in, there is a run, from the group that
  \<open>create_client_connect_data_server\<close> has just filled in, without any of the races, that ends with success and the parity written.\<close>

theorem group_can_be_served:
  assumes "start_ok cap os server paths pieces g0" "length (concat (hd pieces)) \<le> room out0" "0 < length (concat (hd pieces))"
  shows "\<exists>st. calm_start_steps cap os server (all_waiting g0 out0 pieces) st \<and> consumer (inner st) = Done RIGHT
    \<and> written (out (inner st)) = written out0 @ parity (map concat pieces)"
proof -
  let ?n = "length pieces" and ?g = "set_up_all os (length pieces) (\<lambda>i. Waiting) g0"
  have made: "group_made cap os paths pieces g0" and ok: "files_ok cap pieces" using start_okD [OF assms(1)] by blast+
  have n: "0 < ?n" "?n \<le> 50" using ok by (auto simp only: files_ok_def length_greater_0_conv)
  note fresh = set_up_fresh [OF made]
  obtain t where t: "calm_start_steps cap os server (all_waiting g0 out0 pieces) t" "start_inv cap os ?n (int (length (concat (hd pieces)))) out0 g0 t"
      "completed os ?n t = completed os ?n (all_waiting g0 out0 pieces)" "\<forall>i < ?n. phase t i = Receiving"
    using all_begin [OF assms(1) start_inv_init(1) [OF made]] by (force simp: none_ended_def all_waiting_def)
  have inner_t: "inner t = start_from ?g out0 pieces"
    using t(3) start_inv_init(2) [OF made, of out0] set_up_all_started [of ?n "phase t" os] t(4) by (simp add: completed_def)
  obtain s where s: "calm_steps cap (inner t) s" "consumer s = Done RIGHT"
    using rounds_end [OF start_round [OF ok fresh assms(2,3)] files_calm_ok(1) [OF ok assms(2)]] unfolding inner_t by blast
  have "group_inv cap ?n (int (length (concat (hd pieces)))) out0 (inner t)"
    using start_running [OF ok fresh] by (simp add: group_inv_def inner_t)
  then have "calm_start_steps cap os server \<lparr>inner = inner t, phase = phase t\<rparr> \<lparr>inner = s, phase = phase t\<rparr>"
    using calm_lifted [OF s(1) _ n t(4)] by blast
  moreover have "\<lparr>inner = inner t, phase = phase t\<rparr> = t" by simp
  ultimately have run: "calm_start_steps cap os server (all_waiting g0 out0 pieces) \<lparr>inner = s, phase = phase t\<rparr>"
    using calm_start_trans [OF _ t(1)] by metis
  have "written (out s) = written out0 @ parity (map concat pieces)"
    using calm_inv_written(3) [OF calm_group [OF ok fresh assms(2) s(1) [unfolded inner_t]] s(2)] by blast
  then show ?thesis using run s(2) by (intro exI [of _ "\<lparr>inner = s, phase = phase t\<rparr>"]) simp
qed

text \<open>Two files of five bytes and buffers of two: three rounds.\<close>

definition two_byte_threads :: "nat \<Rightarrow> thread_os" where
  "two_byte_threads i = sample_thread\<lparr>memory := (\<lambda>_. replicate 2 0)\<rparr>"

definition five_bytes :: "byte list list list" where
  "five_bytes = [[[1, 2], [3], [4, 5]], [[6], [7, 8], [9, 10]]]"

lemma two_byte_start:
  assumes "files_ok 2 pieces" "length pieces = 2"
  shows "\<exists>g0. start_ok 2 two_byte_threads no_data_server [''a'', ''b''] pieces g0"
proof -
  have names: "\<forall>p \<in> set [''a'', ''b'']. NUL \<notin> set p \<and> length p < 1024" by (simp add: NUL_def)
  obtain g0 where g: "group_init (int (length (concat (hd pieces)))) [''a'', ''b''] = Inr g0" using group_init_total [OF names] by auto
  have "starts_ok two_byte_threads no_data_server (length pieces)"
    unfolding starts_ok_def using no_server_empty
    by (auto simp: no_data_server_def two_byte_threads_def sample_thread_def good_net_def connected_def EINPROGRESS_def FD_SETSIZE_def intro!: exI [of _ "''''"])
  then have "start_ok 2 two_byte_threads no_data_server [''a'', ''b''] pieces g0"
    unfolding start_ok_def group_made_def using names g assms by (simp add: two_byte_threads_def)
  then show ?thesis by blast
qed

lemma group_can_be_served_witness:
  "\<exists>g0 st. calm_start_steps 2 two_byte_threads no_data_server (all_waiting g0 \<lparr>written = [], room = 9\<rparr> five_bytes) st
    \<and> consumer (inner st) = Done RIGHT \<and> written (out (inner st)) = [7, 5, 11, 13, 15]"
proof -
  obtain g0 where ok: "start_ok 2 two_byte_threads no_data_server [''a'', ''b''] five_bytes g0"
    using two_byte_start [of five_bytes] by (auto simp: files_ok_def five_bytes_def pieces_ok_def)
  have "length (concat (hd five_bytes)) \<le> room \<lparr>written = [], room = 9\<rparr>" "0 < length (concat (hd five_bytes))"
    and p: "parity (map concat five_bytes) = [7, 5, 11, 13, 15]"
    by (simp_all add: five_bytes_def parity_def column_def upt_rec)
  from group_can_be_served [OF ok this(1,2)] show ?thesis unfolding p by auto
qed

end
