(* ===== verification/GroupEvents.thy ===== *)
theory GroupEvents
  imports GroupProgress SocketRead
begin

text \<open>
  The events that \<open>GroupRun\<close> and \<open>GroupStart\<close> leave out. There a connection delivers its file; here a call of the handler
  \<open>socket_read_file_data\<close> can also find a failed \<open>recv\<close> (a broken connection, or the timeout of 60 seconds of the event and
  of 10 seconds of the socket), the end of the connection, or a group that has ended, whose buffers it then frees. What
  the handler does is its model of theory \<open>SocketRead\<close>.

  Until a handler frees buffers, such a run is a run of \<open>GroupStart\<close> with \<open>correct_flag\<close> set at some time, so what is
  shown there about the memory holds (\<open>group_memory_safe\<close>, \<open>group_state_well_formed\<close>, \<open>buf_xor_undisturbed\<close>). Nothing
  else in the program ends a group that cannot be completed; \<open>error_ends_group\<close> shows that a recorded error does.
\<close>

subsection \<open>Steps\<close>

record events =
  begun :: starting
  shut :: "nat \<Rightarrow> bool"         \<comment> \<open>the handler has left the event loop of the thread\<close>
  dropped :: "nat \<Rightarrow> bool"      \<comment> \<open>the handler has freed the buffers of the file (a history, no state of the program)\<close>

datatype event_label = Step start_label | Quiet nat received

definition group_ended :: "tGroupFileInfo \<Rightarrow> bool" where
  "group_ended g \<longleftrightarrow> xor_flag g = 1 \<or> correct_flag g = -1"

text \<open>The calls of the handler that receive no byte of the file. A call for a group that has ended does the same whatever
  has arrived.\<close>

definition quiet_event :: "int \<Rightarrow> nat \<Rightarrow> received \<Rightarrow> events \<Rightarrow> (fault + events) option" where
  "quiet_event cap i rcv v =
     (let s = inner (begun v); g = group s
      in if phase (begun v) i \<noteq> Receiving \<or> shut v i \<or> thr s i \<noteq> Idle
            \<or> \<not> (group_ended g \<or> rcv = RecvFailed \<or> (rcv = Received [] \<and> write_state (get_file g i) = 0)) then None
         else map_option (map_sum id (\<lambda>(acts, g').
             v\<lparr>begun := (begun v)\<lparr>inner := s\<lparr>group := g'\<rparr>\<rparr>, shut := (shut v)(i := Deregister \<in> set acts),
               dropped := (dropped v)(i := dropped v i \<or> group_ended g)\<rparr>))
           (socket_read_file_data cap os_all i rcv g))"

definition event_exec ::
    "int \<Rightarrow> (nat \<Rightarrow> thread_os) \<Rightarrow> tDataServerInfo \<Rightarrow> event_label \<Rightarrow> events \<Rightarrow> (fault + events) option" where
  "event_exec cap os server l v =
     (case l of
        Step l \<Rightarrow>
          if case l of Go (Recv i) \<Rightarrow> shut v i | _ \<Rightarrow> False then None
          else map_option (map_sum id (\<lambda>st. v\<lparr>begun := st\<rparr>)) (start_exec cap os server l (begun v))
      | Quiet i rcv \<Rightarrow> quiet_event cap i rcv v)"

inductive event_run :: "int \<Rightarrow> (nat \<Rightarrow> thread_os) \<Rightarrow> tDataServerInfo \<Rightarrow> events \<Rightarrow> event_label list \<Rightarrow> events \<Rightarrow> bool" for cap os server where
  run_nil: "event_run cap os server v [] v"
| run_snoc: "event_run cap os server v ls v' \<Longrightarrow> event_exec cap os server l v' = Some (Inr v'') \<Longrightarrow> event_run cap os server v (ls @ [l]) v''"

definition no_events :: "tGroupFileInfo \<Rightarrow> ostream \<Rightarrow> byte list list list \<Rightarrow> events" where
  "no_events g out0 pieces = \<lparr>begun = all_waiting g out0 pieces, shut = (\<lambda>i. False), dropped = (\<lambda>i. False)\<rparr>"

lemma event_run_append: "event_run cap os server v' ls' v'' \<Longrightarrow> event_run cap os server v ls v' \<Longrightarrow> event_run cap os server v (ls @ ls') v''"
  by (induction rule: event_run.induct) (auto intro: run_snoc simp flip: append_assoc)

lemma event_run_one: "event_exec cap os server l v = Some (Inr v') \<Longrightarrow> event_run cap os server v [l] v'"
  using run_snoc [OF run_nil] by fastforce

text \<open>The runs of \<open>GroupStart\<close> are the runs in which all connections deliver.\<close>

lemma event_run_delivers:
  "start_steps cap os server st st' \<Longrightarrow> \<exists>ls. event_run cap os server \<lparr>begun = st, shut = (\<lambda>i. False), dropped = d\<rparr> ls \<lparr>begun = st', shut = (\<lambda>i. False), dropped = d\<rparr>"
proof (induction rule: start_steps.induct)
  case (start_more st st' l st'')
  have "event_exec cap os server (Step l) \<lparr>begun = st', shut = (\<lambda>i. False), dropped = d\<rparr> = Some (Inr \<lparr>begun = st'', shut = (\<lambda>i. False), dropped = d\<rparr>)"
    using start_more.hyps(2) by (simp add: event_exec_def split: start_label.split label.split)
  then show ?case using start_more.IH run_snoc by blast
qed (blast intro: run_nil)

text \<open>The outcomes of a call that receives nothing.\<close>

lemma quiet_cases:
  assumes "quiet_event cap i rcv v = Some r"
  obtains (freed) "group_ended (group (inner (begun v)))" "alive (info_of (group (inner (begun v))) i)"
      "r = Inr (v\<lparr>begun := (begun v)\<lparr>inner := (inner (begun v))\<lparr>group := upd_file i free_bufs (group (inner (begun v)))\<rparr>\<rparr>,
        shut := (shut v)(i := False), dropped := (dropped v)(i := True)\<rparr>)"
    | (freed_twice) "group_ended (group (inner (begun v)))" "\<not> alive (info_of (group (inner (begun v))) i)" "r = Inl UseAfterFree"
    | (failed) "\<not> group_ended (group (inner (begun v)))"
      "r = Inr (v\<lparr>begun := (begun v)\<lparr>inner := (inner (begun v))\<lparr>group := (group (inner (begun v)))\<lparr>correct_flag := -1\<rparr>\<rparr>\<rparr>,
        shut := (shut v)(i := True)\<rparr>)"
    | (closed) "\<not> group_ended (group (inner (begun v)))" "r = Inr (v\<lparr>shut := (shut v)(i := True)\<rparr>)"
proof (cases "group_ended (group (inner (begun v)))")
  case True
  then show ?thesis
    using assms that(1,2) by (auto simp: quiet_event_def socket_read_file_data_def Let_def group_ended_def fun_upd_idem split: if_splits)
next
  case False
  have same: "v\<lparr>begun := (begun v)\<lparr>inner := (inner (begun v))\<lparr>group := group (inner (begun v))\<rparr>\<rparr>, shut := s, dropped := (dropped v)(i := dropped v i)\<rparr>
      = v\<lparr>shut := s\<rparr>" for s by simp
  show ?thesis
    using assms False that(3,4) by (auto simp: quiet_event_def socket_read_file_data_def Let_def group_ended_def same split: if_splits)
qed

lemma quiet_enabled:
  assumes "quiet_event cap i rcv v = Some r"
  shows "phase (begun v) i = Receiving" "\<not> shut v i" "thr (inner (begun v)) i = Idle"
  using assms by (auto simp: quiet_event_def Let_def split: if_splits)

lemma step_event:
  assumes "event_exec cap os server (Step l) v = Some r"
  obtains r' where "start_exec cap os server l (begun v) = Some r'" "r = map_sum id (\<lambda>st. v\<lparr>begun := st\<rparr>) r'"
  using assms by (auto simp: event_exec_def split: if_splits)

subsection \<open>An error ends the group\<close>

lemma upd_file_frame [simp]:
  "file_num (upd_file i u g) = file_num g" "correct_flag (upd_file i u g) = correct_flag g" "xor_flag (upd_file i u g) = xor_flag g"
  "file_size (upd_file i u g) = file_size g" "xor_size (upd_file i u g) = xor_size g" "buf_full_num (upd_file i u g) = buf_full_num g"
  by (simp_all add: upd_file_def)


lemma thread_start_frame:
  assumes "thread_start os server i g = Inr r"
  shows "file_num (snd (snd r)) = file_num g" "correct_flag (snd (snd r)) \<in> {correct_flag g, -1}"
    and "xor_flag (snd (snd r)) = xor_flag g" "buf_full_num (snd (snd r)) = buf_full_num g"
  using assms by (auto simp: thread_start_def fail_group_def Let_def bindE_def split: if_splits sum.splits)

lemma start_exec_begin:
  assumes "start_exec cap os server (Begin i) st = Some (Inr st')"
  obtains r where "thread_start (os i) server i (group (inner st)) = Inr r" "inner st' = (inner st)\<lparr>group := snd (snd r)\<rparr>"
  using assms by (auto simp: start_exec_def begin_thread_def split: if_splits sum.splits)


lemma event_error_stays:
  assumes "error_recorded (begun v)" "event_exec cap os server l v = Some (Inr v')"
  shows "error_recorded (begun v')"
proof (cases l)
  case (Quiet i rcv)
  then have "quiet_event cap i rcv v = Some (Inr v')" using assms by (simp add: event_exec_def)
  then show ?thesis using assms(1) by (cases rule: quiet_cases) (simp_all add: error_recorded_def)
next
  case (Step l')
  obtain r' where "start_exec cap os server l' (begun v) = Some r'" "Inr v' = map_sum id (\<lambda>st. v\<lparr>begun := st\<rparr>) r'"
    using step_event [OF assms(2) [unfolded Step]] by blast
  then show ?thesis using error_stays [OF assms(1)] by (cases r') auto
qed






subsection \<open>Runs with an error flag\<close>

text \<open>A state beside one of \<open>GroupStart\<close> in which \<open>correct_flag\<close> has not been set from outside: the same but for the flag, a consumer that
  has left its loop because of it, and the threads that returned because of it before they allocated their buffers.\<close>

definition flagged :: "int \<Rightarrow> consumer \<Rightarrow> run \<Rightarrow> run" where
  "flagged c k s = s\<lparr>group := (group s)\<lparr>correct_flag := c\<rparr>, consumer := k\<rparr>"

definition masked :: "starting \<Rightarrow> starting \<Rightarrow> bool" where
  "masked st m \<longleftrightarrow>
     (\<exists>c k. inner st = flagged c k (inner m) \<and> (c = correct_flag (group (inner m)) \<or> c = -1)
        \<and> (k = consumer (inner m) \<or> (consumer (inner m) = Check \<and> c = -1 \<and> k = Done ERROR_CREAT_TRANSMISSION_DATA_CONNECTION)))
     \<and> (\<forall>i. phase st i = phase m i \<or> (phase st i = Ended \<and> phase m i = Waiting))"

lemma flagged_simps [simp]:
  "out (flagged c k s) = out s" "thr (flagged c k s) = thr s" "todo (flagged c k s) = todo s" "consumer (flagged c k s) = k"
  "group (flagged c k s) = (group s)\<lparr>correct_flag := c\<rparr>"
  by (simp_all add: flagged_def)

lemma flagged_same: "flagged (correct_flag (group s)) (consumer s) s = s"
  by (simp add: flagged_def)

lemma flagged_group [simp]:
  "get_file (g\<lparr>correct_flag := c\<rparr>) i = get_file g i" "info_of (g\<lparr>correct_flag := c\<rparr>) i = info_of g i"
  "put_file i f (g\<lparr>correct_flag := c\<rparr>) = (put_file i f g)\<lparr>correct_flag := c\<rparr>"
  "put_info i b (g\<lparr>correct_flag := c\<rparr>) = (put_info i b g)\<lparr>correct_flag := c\<rparr>"
  "bump j (g\<lparr>correct_flag := c\<rparr>) = (bump j g)\<lparr>correct_flag := c\<rparr>" "reset_num j (g\<lparr>correct_flag := c\<rparr>) = (reset_num j g)\<lparr>correct_flag := c\<rparr>"
  "in_bufs (g\<lparr>correct_flag := c\<rparr>) n j = in_bufs g n j"
  by (simp_all add: get_file_def info_of_def put_file_def put_info_def bump_def reset_num_def in_bufs_def)

lemma masked_refl: "masked st st"
  unfolding masked_def using flagged_same by (metis (no_types))

lemma xor_done_flagged: "xor_done n m (g\<lparr>correct_flag := c\<rparr>) = (xor_done n m g)\<lparr>correct_flag := c\<rparr>"
  by (simp add: xor_done_def free_all_def Let_def)

lemma buf_xor_flagged:
  "buf_xor mem n o1 k (g\<lparr>correct_flag := c\<rparr>)
    = map_sum id (\<lambda>(r, o', g'). (r, o', g'\<lparr>correct_flag := (if r = -1 then -1 else c)\<rparr>)) (buf_xor mem n o1 k g)"
  by (simp add: buf_xor_def xor_done_flagged Let_def)

lemma exec_flagged_thread:
  assumes "exec cap l (flagged c k s) = Some r" "l \<noteq> Judge" "c = correct_flag (group s) \<or> c = -1"
  shows "\<exists>r0. exec cap l s = Some r0 \<and> r = map_sum id (flagged c k) r0"
proof (cases l)
  case (Recv i)
  then obtain p ps where p: "thr s i = Idle" "todo s i = p # ps" "xor_flag (group s) \<noteq> 1" "c \<noteq> -1"
      "r = Inr ((flagged c k s)\<lparr>thr := (thr s)(i := AtStore p 0), todo := (todo s)(i := ps)\<rparr>)"
    using assms(1) by (auto simp: exec_def split: thread.splits list.splits if_splits)
  then show ?thesis
    using assms(3) Recv by (intro exI [of _ "Inr (s\<lparr>thr := (thr s)(i := AtStore p 0), todo := (todo s)(i := ps)\<rparr>)"]) (auto simp: exec_def flagged_def)
next
  case (Store i)
  then obtain buf fl where th: "thr s i = AtStore buf fl" using assms(1) by (auto simp: exec_def split: thread.splits)
  from store_step_cases [of i "get_file (group s) i" "file_size (group s)" cap buf "int (length buf)" fl] show ?thesis
  proof (elim disjE exE)
    fix e assume "\<forall>h. get_file h i = get_file (group s) i \<and> file_size h = file_size (group s) \<longrightarrow> store_step cap i buf (int (length buf)) fl h = Inl e"
    then show ?thesis using assms(1) th Store by (auto simp: exec_def)
  next
    fix d fl' full j f'
    assume a: "\<forall>h. get_file h i = get_file (group s) i \<and> file_size h = file_size (group s) \<longrightarrow>
      store_step cap i buf (int (length buf)) fl h = Inr (d, fl', (if full then bump j else id) (put_file i f' h))"
    then have "store_step cap i buf (int (length buf)) fl ((group s)\<lparr>correct_flag := c\<rparr>)
        = Inr (d, fl', (if full then bump j else id) (put_file i f' ((group s)\<lparr>correct_flag := c\<rparr>)))"
      by simp
    then show ?thesis using assms(1) th Store a by (auto simp: exec_def flagged_def)
  qed
next
  case (Rotate i)
  then obtain buf fl where th: "thr s i = AtRotate buf fl" using assms(1) by (auto simp: exec_def split: thread.splits)
  from rotate_cases [of i "get_file (group s) i" cap] show ?thesis
  proof (elim disjE exE)
    fix e assume "\<forall>h. get_file h i = get_file (group s) i \<longrightarrow> rotate_bufs cap i h = Inl e"
    then show ?thesis using assms(1) th Rotate by (auto simp: exec_def)
  next
    fix f' assume a: "\<forall>h. get_file h i = get_file (group s) i \<longrightarrow> rotate_bufs cap i h = Inr (put_file i f' h)"
    then have "rotate_bufs cap i ((group s)\<lparr>correct_flag := c\<rparr>) = Inr (put_file i f' ((group s)\<lparr>correct_flag := c\<rparr>))" by simp
    then show ?thesis using assms(1) th Rotate a by (auto simp: exec_def flagged_def)
  qed
qed (use assms(2) in simp)

text \<open>A step of the consumer: the same step, with the flag kept or set, or the one that leaves the loop because of the flag.\<close>

lemma exec_flagged_judge:
  assumes "exec cap Judge (flagged c (consumer s) s) = Some r" "c = correct_flag (group s) \<or> c = -1"
  shows "(\<exists>c'. exec cap Judge s = Some (Inl c') \<and> r = Inl c')
    \<or> (\<exists>s' c'. exec cap Judge s = Some (Inr s') \<and> r = Inr (flagged c' (consumer s') s') \<and> (c' = correct_flag (group s') \<or> c' = -1))
    \<or> (consumer s = Check \<and> c = -1 \<and> r = Inr (flagged c (Done ERROR_CREAT_TRANSMISSION_DATA_CONNECTION) s))"
proof (cases "c = correct_flag (group s)")
  case True
  then have "exec cap Judge s = Some r" using assms(1) flagged_same [of s] by simp
  then show ?thesis using flagged_same by (cases r) metis+
next
  case False
  then have c: "c = -1" using assms(2) by simp
  show ?thesis
proof (cases "consumer s")
  case (Xor k)
  let ?n = "nat (file_num (group s))"
  consider (many) "100 < ?n" | (Inl) e where "\<not> 100 < ?n" "buf_xor (in_bufs (group s) ?n k) ?n (out s) k (group s) = Inl e"
    | (Inr) x where "\<not> 100 < ?n" "buf_xor (in_bufs (group s) ?n k) ?n (out s) k (group s) = Inr x"
    by (cases "buf_xor (in_bufs (group s) ?n k) ?n (out s) k (group s)") blast+
  then show ?thesis
  proof cases
    case many
    then show ?thesis using assms(1) Xor by (auto simp: exec_def exec_judge_def Let_def)
  next
    case (Inl e)
    then show ?thesis using assms(1) Xor by (auto simp: exec_def exec_judge_def Let_def buf_xor_flagged split: if_splits)
  next
    case (Inr x)
    then have "fst x = -1 \<Longrightarrow> correct_flag (snd (snd x)) = -1" "fst x \<noteq> -1 \<Longrightarrow> correct_flag (snd (snd x)) = correct_flag (group s)"
      by (auto simp: buf_xor_def xor_done_def free_all_def put_info_def Let_def split: if_splits)
    moreover obtain a b g where x: "x = (a, b, g)" by (cases x)
    moreover let ?s = "s\<lparr>out := b, group := g, consumer := ResetNum k\<rparr>"
    have "exec cap Judge s = Some (Inr ?s)" "r = Inr (flagged (if a = -1 then -1 else c) (consumer ?s) ?s)"
      using assms(1) Xor Inr x by (simp_all add: exec_def exec_judge_def Let_def buf_xor_flagged flagged_def split: if_splits)
    moreover have "(if a = -1 then -1 else c) = correct_flag (group ?s) \<or> (if a = -1 then -1 else c) = -1"
      using calculation(1-3) assms(2) by auto
    ultimately show ?thesis by blast
  qed
next
  case Check
  then show ?thesis
    using assms(1) c by (simp add: exec_def exec_judge_def Let_def judge_verdict_def flagged_def)
next
  case (Poll k)
  let ?s = "s\<lparr>consumer := if buf_full_num (group s) k = file_num (group s) then Xor k else if k = 0 then Poll 1 else Check\<rparr>"
  have "exec cap Judge s = Some (Inr ?s)" using Poll by (simp add: exec_def exec_judge_def Let_def)
  moreover have "r = Inr (flagged c (consumer ?s) ?s)" using Poll assms(1) by (simp add: exec_def exec_judge_def Let_def flagged_def)
  ultimately show ?thesis using c by blast
next
  case (ResetNum k)
  let ?s = "s\<lparr>group := reset_num k (group s), consumer := ResetFlag k 0\<rparr>"
  have "exec cap Judge s = Some (Inr ?s)" using ResetNum by (simp add: exec_def exec_judge_def Let_def)
  moreover have "r = Inr (flagged c (consumer ?s) ?s)" using ResetNum assms(1) by (simp add: exec_def exec_judge_def Let_def flagged_def)
  ultimately show ?thesis using c by blast
next
  case (ResetFlag k i)
  let ?s = "if i < nat (file_num (group s)) then s\<lparr>group := put_file i (reset_flag k (get_file (group s) i)) (group s), consumer := ResetFlag k (Suc i)\<rparr>
    else s\<lparr>consumer := Check\<rparr>"
  have "exec cap Judge s = Some (Inr ?s)" using ResetFlag by (simp add: exec_def exec_judge_def Let_def)
  moreover have "r = Inr (flagged c (consumer ?s) ?s)" using ResetFlag assms(1) by (auto simp: exec_def exec_judge_def Let_def flagged_def)
  ultimately show ?thesis using c by blast
qed (use assms(1) in \<open>simp add: exec_def exec_judge_def Let_def\<close>)
qed

lemma thread_start_late:
  assumes "holds (data_server_ip server) 32 ip" "holds (data_server_port server) 16 port" "connected (net os) ip"
    and "holds (file_path (get_file g i)) 1024 p" "0 \<le> send_ret (net os)" "0 \<le> first_socket os" "correct_flag g = -1"
  shows "\<exists>acts. thread_start os server i g = Inr (None, acts, g)"
proof -
  obtain acts where c: "connect_to_server (net os) server (first_socket os) = Inr (0, socket_ret (net os), acts)"
    using connect_to_server_connected [OF assms(1-3)] by blast
  have p: "NUL \<notin> set p" "length p < 1024" using holds_NUL [OF assms(4)] holds_length [OF assms(4)] by auto
  obtain name where "strcpy (zbuf 1024) p = Inr name" using strcpy_holds [of "zbuf 1024" 1024 p] p by auto
  then obtain buf where h: "socket_write_header (net os) (socket_ret (net os)) (file_path (get_file g i)) = Inr (0, [SendTo (socket_ret (net os)) buf])"
    using holds_read [OF assms(4)] assms(5)
    by (simp add: socket_write_header_def communicate_with_server_def Let_def zero_reply_def zero_header_def)
  show ?thesis using c h assms(6,7) by (simp add: thread_start_def Let_def)
qed

subsection \<open>What is freed\<close>

lemma buf_xor_frees:
  assumes "buf_xor mem n o1 k g = Inr r" "xor_flag g \<noteq> 1" "xor_flag (snd (snd r)) = 1" "i < n" "n \<le> length (single_file_array g)"
  shows "\<not> alive (info_of (snd (snd r)) i)"
proof -
  obtain m b where x: "snd (snd r) = xor_done n m (put_info 0 b g)"
    using assms(1-3) by (simp add: buf_xor_def Let_def split: if_splits) (auto split: if_splits)
  let ?g = "put_info 0 b g\<lparr>xor_size := xor_size (put_info 0 b g) + int m, xor_flag := 1\<rparr>"
  have "snd (snd r) = free_all n ?g"
    using x assms(2,3) by (simp add: xor_done_def Let_def split: if_splits)
  moreover have "n \<le> length (single_file_array ?g)" using assms(5) by simp
  ultimately show ?thesis using get_free_all [of n ?g i] assms(4) by (simp add: info_of_def free_bufs_def)
qed

lemma get_put_cases: "get_file (put_file j f g) i = (if i = j \<and> j < length (single_file_array g) then f else get_file g i)"
  by (auto simp: get_file_def put_file_def nth_list_update list_update_beyond)

lemma freed_exec:
  assumes "group_inv cap n sz out0 s" "exec cap l s = Some (Inr s')" "i < n"
    and "xor_flag (group s) = 1 \<longrightarrow> \<not> alive (info_of (group s) i)" "xor_flag (group s') = 1"
  shows "\<not> alive (info_of (group s') i)"
proof (cases "xor_flag (group s) = 1")
  case True
  then have "released n sz out0 s" using assms(1) by (simp add: group_inv_def running_def Let_def)
  then have idle: "\<forall>j. thr s j = Idle \<and> todo s j = []" "\<forall>k. consumer s \<noteq> Xor k" by (auto simp: released_def)
  then have l: "l = Judge" using assms(2) by (cases l) (auto simp: exec_def)
  show ?thesis
    using True assms(2,4) idle(2) unfolding l
    by (auto simp: exec_def exec_judge_def Let_def info_of_def reset_num_def get_file_def [of "_\<lparr>buf_full_num := _\<rparr>"] get_file_def [of "group s"]
        get_put_cases reset_flag_def split: consumer.splits if_splits)
next
  case False
  then have r: "running cap n sz out0 s" using assms(1) by (auto simp: group_inv_def released_def)
  then have n: "n \<le> length (single_file_array (group s))" "nat (file_num (group s)) = n" by (simp_all add: running_def Let_def)
  have l: "l = Judge"
  proof (rule ccontr)
    assume "l \<noteq> Judge"
    then obtain j where "thread_of l = Some j" by (cases l) simp_all
    then show False using exec_thread_other(3) [OF assms(2), of j "Suc j"] False assms(5) by simp
  qed
  show ?thesis
  proof (cases "consumer s")
    case (Xor k)
    then obtain x where "buf_xor (in_bufs (group s) n k) n (out s) k (group s) = Inr x" "group s' = snd (snd x)"
      using assms(2) n(2) unfolding l by (auto simp: exec_def exec_judge_def Let_def split: if_splits sum.splits)
    then show ?thesis using buf_xor_frees False assms(3,5) n(1) by metis
  qed (use assms(2,5) False in \<open>auto simp: l exec_def exec_judge_def Let_def reset_num_def split: if_splits\<close>)
qed

lemma freed_steps:
  "steps cap s s' \<Longrightarrow> group_inv cap n sz out0 s \<Longrightarrow> 0 < n \<Longrightarrow> n \<le> 50 \<Longrightarrow> xor_flag (group s) \<noteq> 1 \<Longrightarrow> i < n
    \<Longrightarrow> xor_flag (group s') = 1 \<longrightarrow> \<not> alive (info_of (group s') i)"
proof (induction rule: steps.induct)
  case (more s s' s'')
  from more.hyps(2) obtain l where l: "exec cap l s' = Some (Inr s'')" by (rule stepE)
  have "group_inv cap n sz out0 s'" using group_steps [OF more.hyps(1)] more.prems by blast
  then show ?case using freed_exec [OF _ l] more by blast
qed simp

subsection \<open>The simulation\<close>

lemma masked_exec:
  assumes "masked st m" "phase st' = phase st" "inner st' = flagged c k s" "c = correct_flag (group s) \<or> c = -1"
    and "k = consumer s \<or> (consumer s = Check \<and> c = -1 \<and> k = Done ERROR_CREAT_TRANSMISSION_DATA_CONNECTION)"
  shows "masked st' (m\<lparr>inner := s\<rparr>)"
  using assms unfolding masked_def by auto

lemma masked_go:
  assumes "masked st m" "start_exec cap os server (Go l) st = Some r"
  obtains (same) st' where "r = Inr st'" "masked st' m"
    | (step) r' where "start_exec cap os server (Go l) m = Some r'"
      "(\<exists>e. r' = Inl e) \<or> (\<exists>st' m'. r = Inr st' \<and> r' = Inr m' \<and> masked st' m')"
proof -
  obtain c k where i: "inner st = flagged c k (inner m)" and c: "c = correct_flag (group (inner m)) \<or> c = -1"
    and k: "k = consumer (inner m) \<or> (consumer (inner m) = Check \<and> c = -1 \<and> k = Done ERROR_CREAT_TRANSMISSION_DATA_CONNECTION)"
    and ph: "\<forall>i. phase st i = phase m i \<or> (phase st i = Ended \<and> phase m i = Waiting)"
    using assms(1) unfolding masked_def by blast
  obtain r1 where r1: "exec cap l (flagged c k (inner m)) = Some r1" "r = map_sum id (\<lambda>s. st\<lparr>inner := s\<rparr>) r1"
    and go: "\<And>i. thread_of l = Some i \<Longrightarrow> phase st i = Receiving"
    using assms(2) i by (auto simp: start_exec_def split: if_splits option.splits)
  have "phase m i = Receiving" if "thread_of l = Some i" for i using go [OF that] ph by (metis phase.distinct(5))
  then have m: "exec cap l (inner m) = Some r0 \<Longrightarrow> start_exec cap os server (Go l) m = Some (map_sum id (\<lambda>s. m\<lparr>inner := s\<rparr>) r0)" for r0
    by (auto simp: start_exec_def split: option.splits)
  show ?thesis
  proof (cases "l = Judge")
    case False
    then obtain r0 where r0: "exec cap l (inner m) = Some r0" "r1 = map_sum id (flagged c k) r0"
      using exec_flagged_thread [OF r1(1) False c] by blast
    show ?thesis
    proof (cases r0)
      case (Inl e)
      then show ?thesis using step [OF m [OF r0(1)]] by simp
    next
      case (Inr s)
      then have e: "exec cap l (inner m) = Some (Inr s)" using r0(1) by simp
      obtain j where "thread_of l = Some j" using False by (cases l) simp_all
      then have "consumer s = consumer (inner m)" "correct_flag (group s) = correct_flag (group (inner m))"
        using exec_thread_other(2,4) [OF e, of j "Suc j"] by simp_all
      then have "masked (st\<lparr>inner := flagged c k s\<rparr>) (m\<lparr>inner := s\<rparr>)" using masked_exec [OF assms(1)] c k by simp
      then show ?thesis using step [OF m [OF r0(1)]] r1(2) r0(2) Inr by simp
    qed
  next
    case True
    then have kc: "k = consumer (inner m)" using r1(1) k by (auto simp: exec_def exec_judge_def Let_def)
    note judge = exec_flagged_judge [OF r1(1) [unfolded True kc] c]
    consider (fault) e where "exec cap Judge (inner m) = Some (Inl e)"
      | (both) s c' where "exec cap Judge (inner m) = Some (Inr s)" "r1 = Inr (flagged c' (consumer s) s)" "c' = correct_flag (group s) \<or> c' = -1"
      | (left) "consumer (inner m) = Check" "c = -1" "r1 = Inr (flagged c (Done ERROR_CREAT_TRANSMISSION_DATA_CONNECTION) (inner m))"
      using judge by blast
    then show ?thesis
    proof cases
      case fault
      from m [unfolded True, OF this] show ?thesis using step [unfolded True] by simp
    next
      case s: both
      then have "masked (st\<lparr>inner := flagged c' (consumer s) s\<rparr>) (m\<lparr>inner := s\<rparr>)" using masked_exec [OF assms(1)] by simp
      then show ?thesis using step [unfolded True, OF m [unfolded True, OF s(1)]] r1(2) s(2) by simp
    next
      case s: left
      then have "masked (st\<lparr>inner := flagged c (Done ERROR_CREAT_TRANSMISSION_DATA_CONNECTION) (inner m)\<rparr>) m"
        using masked_exec [OF assms(1), of "st\<lparr>inner := flagged c (Done ERROR_CREAT_TRANSMISSION_DATA_CONNECTION) (inner m)\<rparr>" c _ "inner m"] c by simp
      then show ?thesis using same r1(2) s(3) by simp
    qed
  qed
qed

lemma masked_begin:
  assumes "masked st m" "start_exec cap os server (Begin i) st = Some r"
    and "start_ok cap os server paths pieces g0" "start_inv cap os (length pieces) sz out0 g0 m"
  shows "\<exists>st' m'. r = Inr st' \<and> masked st' m' \<and> (m' = m \<or> start_exec cap os server (Begin i) m = Some (Inr m'))"
proof -
  let ?n = "length pieces"
  obtain c k where i: "inner st = flagged c k (inner m)" and c: "c = correct_flag (group (inner m)) \<or> c = -1"
    and k: "k = consumer (inner m) \<or> (consumer (inner m) = Check \<and> c = -1 \<and> k = Done ERROR_CREAT_TRANSMISSION_DATA_CONNECTION)"
    and ph: "\<forall>i. phase st i = phase m i \<or> (phase st i = Ended \<and> phase m i = Waiting)"
    using assms(1) unfolding masked_def by blast
  have b: "begin_thread os server i st = Some r" using assms(2) by (simp add: start_exec_def)
  then have w: "phase st i = Waiting" and num: "int i < file_num (group (inner m))"
    and r: "r = map_sum id (\<lambda>a. st\<lparr>inner := (inner st)\<lparr>group := snd (snd a)\<rparr>, phase := (phase st)(i := (if fst a = None then Ended else Receiving))\<rparr>)
      (thread_start (os i) server i ((group (inner m))\<lparr>correct_flag := c\<rparr>))"
    using i by (auto simp: begin_thread_def split: if_splits sum.splits)
  have wm: "phase m i = Waiting" using ph w by (metis phase.distinct(3))
  obtain rm where rm: "begin_thread os server i m = Some rm"
    using wm num by (cases "thread_start (os i) server i (group (inner m))") (auto simp: begin_thread_def)
  note bi = begin_index [OF assms(4) rm]
  have c0: "correct_flag (group (inner m)) = 0" using bi(4) by (simp add: not_begun_def)
  have so: "starts_ok os server ?n" and made: "group_made cap os paths pieces g0" using start_okD [OF assms(3)] by blast+
  obtain ip port where ip: "holds (data_server_ip server) 32 ip" "holds (data_server_port server) 16 port" "connected (net (os i)) ip"
    using so bi(2) unfolding starts_ok_def by blast
  have os: "0 \<le> send_ret (net (os i))" "0 \<le> first_socket (os i)" "malloc0 (os i)" "malloc1 (os i)" using so bi(2) unfolding starts_ok_def by blast+
  have path: "holds (file_path (get_file (group (inner m)) i)) 1024 (paths ! i)"
    using bi(2,4) group_init_fields(1) [OF made] by (simp add: not_begun_def)
  show ?thesis
  proof (cases "c = -1")
    case True
    obtain acts where "thread_start (os i) server i ((group (inner m))\<lparr>correct_flag := c\<rparr>) = Inr (None, acts, (group (inner m))\<lparr>correct_flag := c\<rparr>)"
      using thread_start_late [OF ip _ os(1,2), of "(group (inner m))\<lparr>correct_flag := c\<rparr>" i "paths ! i"] path True by auto
    then have r': "r = Inr (st\<lparr>inner := (inner st)\<lparr>group := (group (inner m))\<lparr>correct_flag := c\<rparr>\<rparr>, phase := (phase st)(i := Ended)\<rparr>)" using r by simp
    have "(inner st)\<lparr>group := (group (inner m))\<lparr>correct_flag := c\<rparr>\<rparr> = flagged c k (inner m)" using i by (simp add: flagged_def)
    then have "masked (st\<lparr>inner := (inner st)\<lparr>group := (group (inner m))\<lparr>correct_flag := c\<rparr>\<rparr>, phase := (phase st)(i := Ended)\<rparr>) m"
      unfolding masked_def using c k ph wm True by auto
    then show ?thesis using r' by blast
  next
    case False
    then have same: "(group (inner m))\<lparr>correct_flag := c\<rparr> = group (inner m)" "k = consumer (inner m)" "c = correct_flag (group (inner m))"
      using c k by auto
    let ?g = "put_file i (set_up (os i) (get_file (group (inner m)) i)) (group (inner m))"
    obtain acts where ts: "thread_start (os i) server i (group (inner m)) = Inr (Some (socket_ret (net (os i))), acts, ?g)"
      using thread_start_sets_up [OF ip path os c0] by blast
    let ?m = "m\<lparr>inner := (inner m)\<lparr>group := ?g\<rparr>, phase := (phase m)(i := Receiving)\<rparr>"
    let ?st = "st\<lparr>inner := (inner st)\<lparr>group := ?g\<rparr>, phase := (phase st)(i := Receiving)\<rparr>"
    have "r = Inr ?st" "rm = Inr ?m" using r bi(5) ts same(1) by simp_all
    moreover have "inner ?st = flagged c (consumer (inner ?m)) (inner ?m)" using i same by (simp add: flagged_def)
    then have "masked ?st ?m" unfolding masked_def using same(3) ph by auto
    ultimately show ?thesis using rm by (auto simp: start_exec_def)
  qed
qed

subsection \<open>Reachable states\<close>

lemma phase_index:
  assumes "start_ok cap os server paths pieces g0" "start_steps cap os server (all_waiting g0 out0 pieces) m" "phase m i \<noteq> Waiting"
  shows "i < length pieces"
  using assms(2,1,3)
proof (induction "all_waiting g0 out0 pieces" m rule: start_steps.induct)
  case start_refl
  then show ?case by (simp add: all_waiting_def)
next
  case (start_more m l m')
  show ?case
  proof (cases l)
    case (Go k)
    then show ?thesis using go_inner(1) start_more by metis
  next
    case (Begin j)
    then have b: "begin_thread os server j m = Some (Inr m')" using start_more.hyps(3) by (simp add: start_exec_def)
    note ph = begin_phase [OF start_more.hyps(3) [unfolded Begin]]
    show ?thesis
    proof (cases "i = j")
      case True
      then show ?thesis using begin_index(2) [OF start_reached(1) [OF start_more.prems(1) start_more.hyps(1)] b] by simp
    next
      case False
      then have "phase m i \<noteq> Waiting" using ph(3) start_more.prems(2) by metis
      then show ?thesis using start_more.hyps(2) start_more.prems(1) by blast
    qed
  qed
qed

text \<open>When the group is complete its buffers are free and every thread has finished its file.\<close>

lemma complete_group:
  assumes "start_ok cap os server paths pieces g0" "start_steps cap os server (all_waiting g0 out0 pieces) m" "xor_flag (group (inner m)) \<noteq> 0"
  shows "released (length pieces) (int (length (concat (hd pieces)))) out0 (inner m)"
    and "i < length pieces \<Longrightarrow> phase m i = Receiving \<and> \<not> alive (info_of (group (inner m)) i)"
proof -
  let ?n = "length pieces" and ?sz = "int (length (concat (hd pieces)))"
  note r = start_reached [OF assms(1,2)]
  have rec: "\<forall>i < ?n. phase m i = Receiving" using r(1) assms(3) by (auto simp: start_inv_def not_begun_def)
  then have c: "completed os ?n m = inner m" using set_up_all_started [of ?n "phase m" os] by (simp add: completed_def)
  then have inv: "group_inv cap ?n ?sz out0 (inner m)" using r(1) by (simp add: start_inv_def)
  then show rl: "released ?n ?sz out0 (inner m)" using assms(3) by (auto simp: group_inv_def running_def Let_def)
  have made: "group_made cap os paths pieces g0" and ok: "files_ok cap pieces" using start_okD [OF assms(1)] by blast+
  have n: "0 < ?n" "?n \<le> 50" using ok by (auto simp only: files_ok_def length_greater_0_conv)
  let ?g = "set_up_all os ?n (\<lambda>i. Waiting) g0"
  have "group_inv cap ?n ?sz out0 (start_from ?g out0 pieces)"
    using start_running [OF ok set_up_fresh [OF made]] by (simp add: group_inv_def)
  moreover have "xor_flag (group (start_from ?g out0 pieces)) \<noteq> 1" using group_init_fields(4) [OF made] by simp
  ultimately have "\<not> alive (info_of (group (inner m)) i)" if "i < ?n" for i
    using freed_steps [OF r(2) _ n _ that] rl unfolding c by (simp add: released_def)
  then show "i < ?n \<Longrightarrow> phase m i = Receiving \<and> \<not> alive (info_of (group (inner m)) i)" using rec by blast
qed

lemma open_group:
  assumes "start_ok cap os server paths pieces g0" "start_steps cap os server (all_waiting g0 out0 pieces) m" "xor_flag (group (inner m)) = 0"
  shows "running cap (length pieces) (int (length (concat (hd pieces)))) out0 (completed os (length pieces) m)"
    and "phase m i = Receiving \<Longrightarrow> info_of (group (completed os (length pieces) m)) i = info_of (group (inner m)) i
      \<and> get_file (group (completed os (length pieces) m)) i = get_file (group (inner m)) i
      \<and> buf_wf cap (info_of (group (inner m)) i)"
proof -
  let ?n = "length pieces"
  show r: "running cap ?n (int (length (concat (hd pieces)))) out0 (completed os ?n m)"
    using start_reached(1) [OF assms(1,2)] assms(3) by (auto simp: start_inv_def group_inv_def released_def)
  assume p: "phase m i = Receiving"
  then have i: "i < ?n" using phase_index [OF assms(1,2)] by simp
  then have "i < length (single_file_array (group (inner m)))" using r by (simp add: running_def Let_def)
  then have f: "get_file (group (completed os ?n m)) i = get_file (group (inner m)) i"
    using get_set_up_all [of i "group (inner m)" os ?n "phase m"] p by simp
  moreover from this have "info_of (group (completed os ?n m)) i = info_of (group (inner m)) i" by (simp add: info_of_def)
  moreover have "buf_wf cap (info_of (group (completed os ?n m)) i)" using running_alive [OF r] i by blast
  ultimately show "info_of (group (completed os ?n m)) i = info_of (group (inner m)) i
      \<and> get_file (group (completed os ?n m)) i = get_file (group (inner m)) i \<and> buf_wf cap (info_of (group (inner m)) i)" by simp
qed

lemma masked_fields:
  assumes "masked st m"
  shows "xor_flag (group (inner st)) = xor_flag (group (inner m))" "info_of (group (inner st)) i = info_of (group (inner m)) i"
    "get_file (group (inner st)) i = get_file (group (inner m)) i"
    "out (inner st) = out (inner m)" "thr (inner st) = thr (inner m)" "todo (inner st) = todo (inner m)"
    "phase st i = Receiving \<longleftrightarrow> phase m i = Receiving"
    "xor_size (group (inner st)) = xor_size (group (inner m))" "file_size (group (inner st)) = file_size (group (inner m))"
    "file_num (group (inner st)) = file_num (group (inner m))" "buf_full_num (group (inner st)) = buf_full_num (group (inner m))"
    "consumer (inner st) = consumer (inner m) \<or> (consumer (inner m) = Check \<and> consumer (inner st) = Done ERROR_CREAT_TRANSMISSION_DATA_CONNECTION)"
    "correct_flag (group (inner st)) = correct_flag (group (inner m)) \<or> correct_flag (group (inner st)) = -1"
    "consumer (inner st) \<noteq> consumer (inner m) \<Longrightarrow> correct_flag (group (inner st)) = -1"
proof -
  obtain c k where i: "inner st = flagged c k (inner m)" and c: "c = correct_flag (group (inner m)) \<or> c = -1"
    and k: "k = consumer (inner m) \<or> (consumer (inner m) = Check \<and> c = -1 \<and> k = Done ERROR_CREAT_TRANSMISSION_DATA_CONNECTION)"
    and ph: "\<forall>i. phase st i = phase m i \<or> (phase st i = Ended \<and> phase m i = Waiting)"
    using assms unfolding masked_def by blast
  show "xor_flag (group (inner st)) = xor_flag (group (inner m))" "info_of (group (inner st)) i = info_of (group (inner m)) i"
    "get_file (group (inner st)) i = get_file (group (inner m)) i"
    "out (inner st) = out (inner m)" "thr (inner st) = thr (inner m)" "todo (inner st) = todo (inner m)"
    "xor_size (group (inner st)) = xor_size (group (inner m))" "file_size (group (inner st)) = file_size (group (inner m))"
    "file_num (group (inner st)) = file_num (group (inner m))" "buf_full_num (group (inner st)) = buf_full_num (group (inner m))"
    "consumer (inner st) = consumer (inner m) \<or> (consumer (inner m) = Check \<and> consumer (inner st) = Done ERROR_CREAT_TRANSMISSION_DATA_CONNECTION)"
    "correct_flag (group (inner st)) = correct_flag (group (inner m)) \<or> correct_flag (group (inner st)) = -1"
    "consumer (inner st) \<noteq> consumer (inner m) \<Longrightarrow> correct_flag (group (inner st)) = -1"
    using i c k by auto
  show "phase st i = Receiving \<longleftrightarrow> phase m i = Receiving" using spec [OF ph, of i] by auto
qed

lemma dropped_stays:
  assumes "event_exec cap os server l v = Some (Inr v')" "dropped v i"
  shows "dropped v' i"
proof (cases l)
  case (Quiet j rcv)
  then have "quiet_event cap j rcv v = Some (Inr v')" using assms by (simp add: event_exec_def)
  then show ?thesis using assms(2) by (cases rule: quiet_cases) auto
next
  case (Step l')
  from assms(1) [unfolded Step] obtain r' where "start_exec cap os server l' (begun v) = Some r'" "Inr v' = map_sum id (\<lambda>st. v\<lparr>begun := st\<rparr>) r'"
    by (rule step_event)
  then show ?thesis using assms(2) by (cases r') auto
qed

lemma masked_fail:
  assumes "masked st m"
  shows "masked (st\<lparr>inner := (inner st)\<lparr>group := (group (inner st))\<lparr>correct_flag := -1\<rparr>\<rparr>\<rparr>) m"
proof -
  obtain c k where i: "inner st = flagged c k (inner m)"
    and k: "k = consumer (inner m) \<or> (consumer (inner m) = Check \<and> c = -1 \<and> k = Done ERROR_CREAT_TRANSMISSION_DATA_CONNECTION)"
    and ph: "\<forall>i. phase st i = phase m i \<or> (phase st i = Ended \<and> phase m i = Waiting)"
    using assms unfolding masked_def by blast
  have "(inner st)\<lparr>group := (group (inner st))\<lparr>correct_flag := -1\<rparr>\<rparr> = flagged (-1) k (inner m)" using i by (simp add: flagged_def)
  then show ?thesis unfolding masked_def using k ph by (intro conjI exI [of _ "-1"] exI [of _ k]) auto
qed

text \<open>One event: nothing that \<open>GroupStart\<close> does not do, or the handler frees.\<close>

lemma event_simulated:
  assumes "start_ok cap os server paths pieces g0" "start_steps cap os server (all_waiting g0 out0 pieces) m" "masked (begun v) m"
    and "event_exec cap os server l v = Some r"
  obtains (goes) v' m' where "r = Inr v'" "dropped v' = dropped v" "masked (begun v') m'"
      "m' = m \<or> (\<exists>l'. l = Step l' \<and> start_exec cap os server l' m = Some (Inr m'))"
    | (freed) v' i rcv where "r = Inr v'" "l = Quiet i rcv" "correct_flag (group (inner (begun v))) = -1" "xor_flag (group (inner (begun v))) = 0"
      "\<not> alive (info_of (group (inner (begun v'))) i)" "error_recorded (begun v')" "dropped v' = (dropped v)(i := True)"
    | (freed_twice) i rcv where "r = Inl UseAfterFree" "l = Quiet i rcv" "xor_flag (group (inner (begun v))) = 1"
proof (cases l)
  case (Step l')
  obtain r' where r': "start_exec cap os server l' (begun v) = Some r'" "r = map_sum id (\<lambda>st. v\<lparr>begun := st\<rparr>) r'"
    using step_event [OF assms(4) [unfolded Step]] by blast
  note inv = start_reached(1) [OF assms(1,2)]
  show ?thesis
  proof (cases l')
    case (Begin i)
    from masked_begin [OF assms(3) r'(1) [unfolded Begin] assms(1) inv]
    show ?thesis using goes [of "v\<lparr>begun := _\<rparr>"] r'(2) Step Begin by auto
  next
    case (Go k)
    from assms(3) r'(1) [unfolded Go] show ?thesis
    proof (cases rule: masked_go)
      case (same st')
      then show ?thesis using goes [of "v\<lparr>begun := st'\<rparr>" m] r'(2) by simp
    next
      case (step rm)
      obtain m' where "rm = Inr m'" using start_step_simulated [OF assms(1) inv step(1)] by blast
      then show ?thesis using goes [of "v\<lparr>begun := _\<rparr>" m'] step r'(2) Step Go by auto
    qed
  qed
next
  case (Quiet i rcv)
  then have q: "quiet_event cap i rcv v = Some r" using assms(4) by (simp add: event_exec_def)
  note f = masked_fields [OF assms(3)]
  have rec: "phase m i = Receiving" using quiet_enabled(1) [OF q] f(7) by simp
  then have i: "i < length pieces" using phase_index [OF assms(1,2)] by simp
  have x: "xor_flag (group (inner (begun v))) = 1 \<Longrightarrow> \<not> alive (info_of (group (inner (begun v))) i)"
    using complete_group(2) [OF assms(1,2) _ i] f(1,2) by simp
  from q show ?thesis
  proof (cases rule: quiet_cases)
    case freed_twice
    have "xor_flag (group (inner (begun v))) = 1"
    proof (rule ccontr)
      assume "xor_flag (group (inner (begun v))) \<noteq> 1"
      then have "xor_flag (group (inner m)) = 0" using f(1) complete_group(1) [OF assms(1,2)] by (auto simp: released_def)
      then show False using open_group(2) [OF assms(1,2) _ rec] freed_twice(2) f(2) by (simp add: buf_wf_def)
    qed
    then show ?thesis using that(3) freed_twice(3) Quiet by blast
  next
    case failed
    from masked_fail [OF assms(3)] show ?thesis using goes failed(2) by simp
  next
    case closed
    then show ?thesis using goes [of _ m] assms(3) by simp
  next
    case freed
    have x1: "xor_flag (group (inner (begun v))) \<noteq> 1" using x freed(2) by blast
    then have c: "correct_flag (group (inner (begun v))) = -1" using freed(1) by (simp add: group_ended_def)
    have x0: "xor_flag (group (inner m)) = 0" using f(1) x1 complete_group(1) [OF assms(1,2)] by (auto simp: released_def)
    have "consumer (inner m) \<noteq> Done RIGHT" using open_group(1) [OF assms(1,2) x0] by (auto simp: running_def Let_def)
    then have nr: "consumer (inner (begun v)) \<noteq> Done RIGHT" using f(12) by (auto simp: codes)
    have "i < length (single_file_array (group (inner m)))" using open_group(1) [OF assms(1,2) x0] i by (simp add: running_def Let_def)
    moreover have "length (single_file_array (group (inner (begun v)))) = length (single_file_array (group (inner m)))"
      using assms(3) unfolding masked_def by auto
    ultimately have "\<not> alive (info_of (upd_file i free_bufs (group (inner (begun v)))) i)"
      by (simp add: upd_file_def info_of_def free_bufs_def)
    then show ?thesis using that(2) freed(3) c x0 f(1) nr Quiet by (simp add: error_recorded_def)
  qed
qed




lemma event_reached:
  assumes "event_run cap os server (no_events g0 out0 pieces) ls v" "start_ok cap os server paths pieces g0"
  shows "((\<exists>i. dropped v i) \<longrightarrow> error_recorded (begun v))
    \<and> ((\<forall>i. \<not> dropped v i) \<longrightarrow> (\<exists>m. start_steps cap os server (all_waiting g0 out0 pieces) m \<and> masked (begun v) m))"
  using assms
proof (induction "no_events g0 out0 pieces" ls v rule: event_run.induct)
  case run_nil
  have "masked (all_waiting g0 out0 pieces) (all_waiting g0 out0 pieces)" by (rule masked_refl)
  then show ?case using start_refl [of cap os server "all_waiting g0 out0 pieces"] by (auto simp: no_events_def)
next
  case (run_snoc ls v l v')
  show ?case
  proof (cases "\<exists>i. dropped v i")
    case True
    then have "error_recorded (begun v')" using run_snoc event_error_stays by blast
    moreover have "\<exists>i. dropped v' i" using True dropped_stays [OF run_snoc.hyps(3)] by blast
    ultimately show ?thesis by blast
  next
    case False
    then obtain m where m: "start_steps cap os server (all_waiting g0 out0 pieces) m" "masked (begun v) m" using run_snoc by blast
    from run_snoc.prems m run_snoc.hyps(3) show ?thesis
    proof (cases rule: event_simulated)
      case (goes v1 m')
      then have "start_steps cap os server (all_waiting g0 out0 pieces) m'" using m(1) start_more by blast
      then show ?thesis using goes False by auto
    qed auto
  qed
qed

subsection \<open>Properties\<close>

abbreviation run_of :: "events \<Rightarrow> run" where
  "run_of v \<equiv> inner (begun v)"




text \<open>C5. The same runs, as long as no handler has freed buffers: for the output, the counters, the threads and (until \<open>buf_xor\<close> frees them)
  the files of the threads that have begun, each is a run of a group whose files were all set up beforehand and whose connections
  all deliver. All that a failed \<open>recv\<close>, a timeout, a closed connection or a thread that begins late adds to it is the error flag, and a consumer that leaves its loop
  because of it.\<close>

theorem starting_group_refines:
  assumes "start_ok cap os server paths pieces g0" "event_run cap os server (no_events g0 out0 pieces) ls v" "\<forall>i. \<not> dropped v i"
  shows "\<exists>g s. group_fresh cap pieces g \<and> steps cap (start_from g out0 pieces) s
    \<and> out (run_of v) = out s \<and> thr (run_of v) = thr s \<and> todo (run_of v) = todo s
    \<and> xor_size (group (run_of v)) = xor_size (group s) \<and> xor_flag (group (run_of v)) = xor_flag (group s)
    \<and> buf_full_num (group (run_of v)) = buf_full_num (group s)
    \<and> (correct_flag (group (run_of v)) = correct_flag (group s) \<or> correct_flag (group (run_of v)) = -1)
    \<and> (consumer (run_of v) = consumer s
        \<or> (consumer s = Check \<and> consumer (run_of v) = Done ERROR_CREAT_TRANSMISSION_DATA_CONNECTION \<and> correct_flag (group (run_of v)) = -1))
    \<and> (xor_flag (group (run_of v)) = 0 \<longrightarrow> (\<forall>i < length pieces. phase (begun v) i = Receiving \<longrightarrow> get_file (group (run_of v)) i = get_file (group s) i))"
proof -
  let ?n = "length pieces"
  obtain m where m: "start_steps cap os server (all_waiting g0 out0 pieces) m" "masked (begun v) m"
    using event_reached [OF assms(2,1)] assms(3) by blast
  note f = masked_fields [OF m(2)]
  let ?g = "set_up_all os ?n (\<lambda>i. Waiting) g0" and ?s = "completed os ?n m"
  have fresh: "group_fresh cap pieces ?g" by (rule set_up_fresh [OF start_okD(1) [OF assms(1)]])
  have st: "steps cap (start_from ?g out0 pieces) ?s" by (rule start_reached(2) [OF assms(1) m(1)])
  have files: "get_file (group (run_of v)) i = get_file (group ?s) i" if "xor_flag (group (run_of v)) = 0" "phase (begun v) i = Receiving" for i
    using open_group(2) [OF assms(1) m(1), of i] that f(1,3,7) by simp
  have c: "consumer (run_of v) = consumer ?s
      \<or> (consumer ?s = Check \<and> consumer (run_of v) = Done ERROR_CREAT_TRANSMISSION_DATA_CONNECTION \<and> correct_flag (group (run_of v)) = -1)"
    using f(12,14) by auto
  show ?thesis
    by (rule exI [of _ ?g], rule exI [of _ ?s]) (use fresh st files c f(1,4-6,8,11,13) in simp)
qed

text \<open>C14. In every state of such a run in which no handler has freed buffers, until \<open>buf_xor\<close> has freed them: both buffers of
  every file whose thread has begun are allocated with their sizes within bounds, the flags have one of their three values
  and at most one buffer of a file is being filled, \<open>file_index\<close> and the counters are within their
  bounds, and as long as no error is recorded the bytes XORed never exceed the size of the files.\<close>

theorem group_state_well_formed:
  assumes "start_ok cap os server paths pieces g0" "event_run cap os server (no_events g0 out0 pieces) ls v" "\<forall>i. \<not> dropped v i"
    and "xor_flag (group (run_of v)) = 0" "phase (begun v) i = Receiving"
  shows "buf_wf cap (info_of (group (run_of v)) i) \<and> (\<forall>k < 2. buf_flag (info_of (group (run_of v)) i) k \<in> {0, 1, 2})
    \<and> \<not> (buf_flag (info_of (group (run_of v)) i) 0 = 1 \<and> buf_flag (info_of (group (run_of v)) i) 1 = 1)
    \<and> file_index (get_file (group (run_of v)) i) \<le> file_size (group (run_of v))
    \<and> (\<forall>k < 2. 0 \<le> buf_full_num (group (run_of v)) k \<and> buf_full_num (group (run_of v)) k \<le> file_num (group (run_of v)))
    \<and> (correct_flag (group (run_of v)) = 0 \<longrightarrow> 0 \<le> xor_size (group (run_of v)) \<and> xor_size (group (run_of v)) \<le> file_size (group (run_of v)))"
proof -
  let ?n = "length pieces"
  obtain m where m: "start_steps cap os server (all_waiting g0 out0 pieces) m" "masked (begun v) m"
    using event_reached [OF assms(2,1)] assms(3) by blast
  note f = masked_fields [OF m(2)]
  have x: "xor_flag (group (inner m)) = 0" and p: "phase m i = Receiving" using assms(4,5) f(1,7) by simp_all
  have i: "i < ?n" using phase_index [OF assms(1) m(1)] p by simp
  have made: "group_made cap os paths pieces g0" and ok: "files_ok cap pieces" using start_okD [OF assms(1)] by blast+
  note fl = open_group(2) [OF assms(1) m(1) x p]
  have "xor_flag (group (completed os ?n m)) = 0" using x by simp
  note w = run_well_formed [OF ok set_up_fresh [OF made] start_reached(2) [OF assms(1) m(1)] this i]
  have c: "correct_flag (group (inner m)) = 0" if "correct_flag (group (run_of v)) = 0" using that f(13) by auto
  show ?thesis using w fl f(2,3,8-11) c by simp
qed


text \<open>The sample group with the consumer in \<open>buf_xor\<close>.\<close>

lemma works_off:
  assumes "group_ok cap fs out0" "receiving cap fs out0 s"
  shows "\<exists>s'. steps cap s s' \<and> receiving cap fs out0 s' \<and> work (length fs) s' = 0"
  using assms(2)
proof (induction "work (length fs) s" arbitrary: s rule: less_induct)
  case less
  show ?case
  proof (cases "work (length fs) s = 0")
    case False
    then obtain t where t: "steps cap s t" "receiving cap fs out0 t" "work (length fs) t < work (length fs) s"
      using receiving_works [OF assms(1) less.prems] by auto
    then show ?thesis using less.hyps [OF t(3,2)] steps_trans by blast
  qed (use less.prems steps.refl in blast)
qed

lemma sample_at_xor:
  "\<exists>g0 ls v. start_ok 8 sample_threads no_data_server [''a'', ''b''] two_pieces g0
    \<and> event_run 8 sample_threads no_data_server (no_events g0 \<lparr>written = [], room = 9\<rparr> two_pieces) ls v
    \<and> consumer (run_of v) = Xor 0 \<and> (\<forall>i. \<not> dropped v i \<and> \<not> shut v i) \<and> \<not> group_ended (group (run_of v))
    \<and> phase (begun v) 0 = Receiving \<and> thr (run_of v) 0 = Idle"
proof -
  let ?out = "\<lparr>written = [], room = 9\<rparr>" and ?fs = "map concat two_pieces" and ?n = "length two_pieces"
  obtain g0 where ok: "start_ok 8 sample_threads no_data_server [''a'', ''b''] two_pieces g0" using sample_start_ok by blast
  note made = start_okD(1) [OF ok] and fok = start_okD(2) [OF ok]
  let ?g = "set_up_all sample_threads ?n (\<lambda>i. Waiting) g0"
  have n: "0 < ?n" "?n \<le> 50" and ne: "\<forall>ps \<in> set two_pieces. [] \<notin> set ps" by (simp_all add: two_pieces_def)
  obtain t where t: "calm_start_steps 8 sample_threads no_data_server (all_waiting g0 ?out two_pieces) t"
      "start_inv 8 sample_threads ?n (int (length (concat (hd two_pieces)))) ?out g0 t"
      "completed sample_threads ?n t = completed sample_threads ?n (all_waiting g0 ?out two_pieces)" "\<forall>i < ?n. phase t i = Receiving"
    using all_begin [OF ok start_inv_init(1) [OF made]] by (force simp: none_ended_def all_waiting_def)
  have it: "inner t = start_from ?g ?out two_pieces"
    using t(3) start_inv_init(2) [OF made, of ?out] set_up_all_started [of ?n "phase t" sample_threads] t(4) by (simp add: completed_def)
  have rc: "receiving 8 ?fs ?out (inner t)" unfolding it by (rule start_receiving [OF sample_group_ok(1) set_up_fresh [OF made] ne])
  obtain s where s: "steps 8 (inner t) s" "receiving 8 ?fs ?out s" "work (length ?fs) s = 0" using works_off [OF sample_group_ok(1) rc] by blast
  let ?s = "s\<lparr>consumer := Xor 0\<rparr>"
  have "steps 8 s ?s" by (rule receiving_to_xor [OF s(2) _ receiving_all [OF sample_group_ok(1) s(2,3)]]) (simp add: two_pieces_def)
  then have run: "steps 8 (inner t) ?s" using s(1) steps_trans by blast
  have g: "group_inv 8 ?n (int (length (concat (hd two_pieces)))) ?out (inner t)"
    using start_running [OF fok set_up_fresh [OF made]] by (simp add: group_inv_def it)
  have "inv 8 ?fs ?out (inner t)" using rc by (simp add: inv_def)
  from conjunct2 [OF inv_steps_calm [OF run sample_group_ok(1) this]]
  have "calm_start_steps 8 sample_threads no_data_server \<lparr>inner = inner t, phase = phase t\<rparr> \<lparr>inner = ?s, phase = phase t\<rparr>"
    using calm_lifted [OF _ g n t(4)] by blast
  moreover have "\<lparr>inner = inner t, phase = phase t\<rparr> = t" by simp
  ultimately have "start_steps 8 sample_threads no_data_server (all_waiting g0 ?out two_pieces) \<lparr>inner = ?s, phase = phase t\<rparr>"
    using calm_start_trans [OF _ t(1)] calm_start_steps_steps by metis
  from event_run_delivers [OF this] obtain ls where
    ls: "event_run 8 sample_threads no_data_server (no_events g0 ?out two_pieces) ls \<lparr>begun = \<lparr>inner = ?s, phase = phase t\<rparr>, shut = (\<lambda>i. False), dropped = (\<lambda>i. False)\<rparr>"
    unfolding no_events_def by blast
  have "0 < length ?fs" by (simp add: two_pieces_def)
  then have "thr s 0 = Idle" "xor_flag (group s) = 0" "correct_flag (group s) = 0"
    using s(2,3) unfolding work_def by (auto simp: receiving_def Let_def sum_nonneg_eq_0_iff split: if_splits)
  then show ?thesis
    using ok ls t(4) n(1)
    by (intro exI [of _ g0] exI [of _ ls] exI [of _ "\<lparr>begun = \<lparr>inner = ?s, phase = phase t\<rparr>, shut = (\<lambda>i. False), dropped = (\<lambda>i. False)\<rparr>"])
       (simp add: group_ended_def)
qed

text \<open>A connection that fails there, and the event after that.\<close>

lemma quiet_fails:
  assumes "\<not> group_ended (group (run_of v))" "phase (begun v) i = Receiving" "thr (run_of v) i = Idle" "\<not> shut v i"
  shows "event_exec cap os server (Quiet i RecvFailed) v = Some (Inr (v\<lparr>begun := (begun v)\<lparr>inner := (run_of v)\<lparr>group := (group (run_of v))\<lparr>correct_flag := -1\<rparr>\<rparr>\<rparr>,
    shut := (shut v)(i := True)\<rparr>))"
  using assms by (simp add: event_exec_def quiet_event_def group_ended_def socket_read_file_data_def Let_def fun_upd_idem)

lemma sample_failed:
  "\<exists>g0 ls v v'. start_ok 8 sample_threads no_data_server [''a'', ''b''] two_pieces g0
    \<and> event_run 8 sample_threads no_data_server (no_events g0 \<lparr>written = [], room = 9\<rparr> two_pieces) ls v
    \<and> event_exec 8 sample_threads no_data_server (Quiet 0 RecvFailed) v = Some (Inr v')
    \<and> event_run 8 sample_threads no_data_server (no_events g0 \<lparr>written = [], room = 9\<rparr> two_pieces) (ls @ [Quiet 0 RecvFailed]) v'
    \<and> consumer (run_of v) = Xor 0 \<and> consumer (run_of v') = Xor 0 \<and> correct_flag (group (run_of v')) = -1 \<and> xor_flag (group (run_of v')) = 0
    \<and> (\<forall>i. \<not> dropped v i) \<and> (\<forall>i. \<not> dropped v' i) \<and> phase (begun v') 0 = Receiving"
proof -
  obtain g0 ls v where v: "start_ok 8 sample_threads no_data_server [''a'', ''b''] two_pieces g0"
      "event_run 8 sample_threads no_data_server (no_events g0 \<lparr>written = [], room = 9\<rparr> two_pieces) ls v"
      "consumer (run_of v) = Xor 0" "\<forall>i. \<not> dropped v i \<and> \<not> shut v i" "\<not> group_ended (group (run_of v))"
      "phase (begun v) 0 = Receiving" "thr (run_of v) 0 = Idle"
    using sample_at_xor by blast
  have "\<not> shut v 0" using v(4) by blast
  note e = quiet_fails [OF v(5-7) this, of 8 sample_threads no_data_server]
  obtain m where m: "start_steps 8 sample_threads no_data_server (all_waiting g0 \<lparr>written = [], room = 9\<rparr> two_pieces) m" "masked (begun v) m"
    using event_reached [OF v(2,1)] v(4) by blast
  have "xor_flag (group (run_of v)) \<noteq> 1" using v(5) by (simp add: group_ended_def)
  then have x: "xor_flag (group (run_of v)) = 0"
    using complete_group(1) [OF v(1) m(1)] masked_fields(1) [OF m(2)] by (cases "xor_flag (group (inner m)) = 0") (simp_all add: released_def)
  show ?thesis
    by (rule exI [of _ g0], rule exI [of _ ls], rule exI [of _ v], rule exI, rule conjI [OF v(1)], rule conjI [OF v(2)], rule conjI [OF e],
        rule conjI [OF run_snoc [OF v(2) e]]) (use v(3,4,6) x in simp)
qed


lemma starting_group_refines_witness:
  "\<exists>v g s. correct_flag (group (run_of v)) = -1 \<and> consumer (run_of v) = Xor 0 \<and> group_fresh 8 two_pieces g
    \<and> steps 8 (start_from g \<lparr>written = [], room = 9\<rparr> two_pieces) s \<and> consumer s = Xor 0 \<and> thr (run_of v) = thr s"
proof -
  obtain g0 ls v' where v: "start_ok 8 sample_threads no_data_server [''a'', ''b''] two_pieces g0"
      "event_run 8 sample_threads no_data_server (no_events g0 \<lparr>written = [], room = 9\<rparr> two_pieces) ls v'"
      "consumer (run_of v') = Xor 0" "correct_flag (group (run_of v')) = -1" "\<forall>i. \<not> dropped v' i"
    using sample_failed by blast
  from starting_group_refines [OF v(1,2,5)] obtain g s where "group_fresh 8 two_pieces g"
      "steps 8 (start_from g \<lparr>written = [], room = 9\<rparr> two_pieces) s" "thr (run_of v') = thr s"
      "consumer (run_of v') = consumer s \<or> consumer s = Check \<and> consumer (run_of v') = Done ERROR_CREAT_TRANSMISSION_DATA_CONNECTION"
    by blast
  then show ?thesis using v(3,4) by (intro exI [of _ v'] exI [of _ g] exI [of _ s]) auto
qed

lemma group_state_well_formed_witness:
  "\<exists>v. correct_flag (group (run_of v)) = -1 \<and> consumer (run_of v) = Xor 0 \<and> buf_wf 8 (info_of (group (run_of v)) 0)"
proof -
  obtain g0 ls v' where v: "start_ok 8 sample_threads no_data_server [''a'', ''b''] two_pieces g0"
      "event_run 8 sample_threads no_data_server (no_events g0 \<lparr>written = [], room = 9\<rparr> two_pieces) ls v'"
      "consumer (run_of v') = Xor 0" "correct_flag (group (run_of v')) = -1" "\<forall>i. \<not> dropped v' i" "xor_flag (group (run_of v')) = 0" "phase (begun v') 0 = Receiving"
    using sample_failed by blast
  from group_state_well_formed [OF v(1,2,5-7)] v(3,4) show ?thesis by blast
qed



text \<open>Empty files: no thread has anything to do.\<close>

definition nothing_to_do :: "ostream \<Rightarrow> run \<Rightarrow> bool" where
  "nothing_to_do out0 s \<longleftrightarrow> out s = out0 \<and> (\<forall>i. thr s i = Idle \<and> todo s i = [])
     \<and> (\<forall>k < 2. buf_full_num (group s) k \<noteq> file_num (group s)) \<and> xor_flag (group s) = 0
     \<and> (consumer s \<in> {Poll 0, Poll 1, Check} \<or> (consumer s = Done ERROR_CREAT_TRANSMISSION_DATA_CONNECTION \<and> correct_flag (group s) \<noteq> 0))"

lemma nothing_exec:
  assumes "nothing_to_do out0 s" "exec cap l s = Some (Inr s')"
  shows "nothing_to_do out0 s'"
proof (cases l)
  case Judge
  then show ?thesis using assms by (auto simp: nothing_to_do_def exec_def exec_judge_def judge_verdict_def Let_def split: if_splits)
qed (use assms in \<open>auto simp: nothing_to_do_def exec_def\<close>)

lemma nothing_event:
  assumes "nothing_to_do out0 (run_of v)" "event_exec cap os server l v = Some (Inr v')"
  shows "nothing_to_do out0 (run_of v')"
proof (cases l)
  case (Quiet i rcv)
  then have "quiet_event cap i rcv v = Some (Inr v')" using assms by (simp add: event_exec_def)
  then show ?thesis using assms(1) by (cases rule: quiet_cases) (auto simp: nothing_to_do_def)
next
  case (Step l')
  from assms(2) [unfolded Step] obtain r' where r': "start_exec cap os server l' (begun v) = Some r'" "Inr v' = map_sum id (\<lambda>st. v\<lparr>begun := st\<rparr>) r'"
    by (rule step_event)
  then have st: "start_exec cap os server l' (begun v) = Some (Inr (begun v'))" by (cases r') auto
  show ?thesis
  proof (cases l')
    case (Begin i)
    obtain r where r: "thread_start (os i) server i (group (run_of v)) = Inr r" "run_of v' = (run_of v)\<lparr>group := snd (snd r)\<rparr>"
      using start_exec_begin [OF st [unfolded Begin]] by metis
    then show ?thesis using assms(1) thread_start_frame [OF r(1)] by (auto simp: nothing_to_do_def)
  next
    case (Go k)
    then show ?thesis using nothing_exec [OF assms(1)] go_inner(2) st by blast
  qed
qed

lemma nothing_run:
  "event_run cap os server v ls v' \<Longrightarrow> nothing_to_do out0 (run_of v) \<Longrightarrow> nothing_to_do out0 (run_of v')"
  by (induction rule: event_run.induct) (auto intro: nothing_event)

text \<open>C11. Empty files, for which the data server sends nothing: the request is never answered with success and nothing is
  written, whatever happens. While no error is recorded the consumer only polls. What ends the group is an error: each connection that is
  still open can record one, when \<open>recv\<close> fails at its timeout; if all of them are closed without one, nothing does.\<close>

theorem empty_group_fails:
  assumes "group_made cap os paths pieces g0" "concat (hd pieces) = []" "event_run cap os server (no_events g0 out0 pieces) ls v"
  shows "out (run_of v) = out0 \<and> xor_flag (group (run_of v)) = 0
    \<and> (consumer (run_of v) \<in> {Poll 0, Poll 1, Check}
        \<or> (consumer (run_of v) = Done ERROR_CREAT_TRANSMISSION_DATA_CONNECTION \<and> correct_flag (group (run_of v)) \<noteq> 0))
    \<and> (\<forall>i. phase (begun v) i = Receiving \<and> \<not> shut v i \<and> correct_flag (group (run_of v)) = 0 \<longrightarrow>
        (\<exists>v'. event_exec cap os server (Quiet i RecvFailed) v = Some (Inr v') \<and> correct_flag (group (run_of v')) = -1))"
proof -
  have ok: "files_ok cap pieces" using assms(1) by (simp only: group_made_def)
  have "pieces ! i = []" if i: "i < length pieces" for i
  proof -
    have "length (concat (pieces ! i)) = length (concat (hd pieces))" "pieces_ok cap (pieces ! i)"
      using ok nth_mem [OF i] unfolding files_ok_def by blast+
    then show ?thesis using assms(2) concat_pieces [of cap "pieces ! i"] by (metis length_0_conv)
  qed
  moreover have "0 < length pieces" using ok by (auto simp only: files_ok_def length_greater_0_conv)
  ultimately have "nothing_to_do out0 (run_of (no_events g0 out0 pieces))"
    using group_init_fields(3-7) [OF assms(1)] by (simp add: nothing_to_do_def no_events_def all_waiting_def)
  then have n: "nothing_to_do out0 (run_of v)" using nothing_run [OF assms(3)] by blast
  moreover have "\<exists>v'. event_exec cap os server (Quiet i RecvFailed) v = Some (Inr v') \<and> correct_flag (group (run_of v')) = -1"
    if "phase (begun v) i = Receiving \<and> \<not> shut v i \<and> correct_flag (group (run_of v)) = 0" for i
    using quiet_fails [of v i cap os server] that n by (simp add: group_ended_def nothing_to_do_def)
  ultimately show ?thesis by (simp add: nothing_to_do_def)
qed

lemma empty_group_fails_witness:
  "\<exists>g0 ls v v'. event_run 2 two_byte_threads no_data_server (no_events g0 \<lparr>written = [], room = 9\<rparr> [[], []]) ls v
    \<and> consumer (run_of v) \<in> {Poll 0, Poll 1, Check} \<and> event_exec 2 two_byte_threads no_data_server (Quiet 1 RecvFailed) v = Some (Inr v')
    \<and> correct_flag (group (run_of v')) = -1"
proof -
  let ?out = "\<lparr>written = [], room = 9\<rparr>" and ?ps = "[[], []] :: byte list list list"
  obtain g0 where ok: "start_ok 2 two_byte_threads no_data_server [''a'', ''b''] ?ps g0"
    using two_byte_start [of ?ps] by (auto simp: files_ok_def pieces_ok_def)
  note made = start_okD(1) [OF ok]
  have "none_ended (all_waiting g0 ?out ?ps)" by (simp add: none_ended_def all_waiting_def)
  from all_begin [OF ok start_inv_init(1) [OF made] this] obtain t where t: "calm_start_steps 2 two_byte_threads no_data_server (all_waiting g0 ?out ?ps) t"
      "completed two_byte_threads (length ?ps) t = completed two_byte_threads (length ?ps) (all_waiting g0 ?out ?ps)"
      "\<forall>i < length ?ps. phase t i = Receiving"
    by blast
  let ?v = "\<lparr>begun = t, shut = (\<lambda>i. False), dropped = (\<lambda>i. False)\<rparr>"
  obtain ls where ls: "event_run 2 two_byte_threads no_data_server (no_events g0 ?out ?ps) ls ?v"
    using event_run_delivers [OF calm_start_steps_steps [OF t(1)]] unfolding no_events_def by blast
  have e: "concat (hd ?ps) = []" by simp
  have it: "inner t = start_from (set_up_all two_byte_threads (length ?ps) (\<lambda>i. Waiting) g0) ?out ?ps"
    using t(2) start_inv_init(2) [OF made, of ?out] set_up_all_started [of "length ?ps" "phase t" two_byte_threads] t(3) by (simp add: completed_def)
  have c: "correct_flag (group (run_of ?v)) = 0" "consumer (run_of ?v) = Poll 0" using it group_init_fields(5) [OF made] by simp_all
  have "phase (begun ?v) 1 = Receiving \<and> \<not> shut ?v 1 \<and> correct_flag (group (run_of ?v)) = 0" using t(3) c(1) by simp
  then obtain v' where "event_exec 2 two_byte_threads no_data_server (Quiet 1 RecvFailed) ?v = Some (Inr v')" "correct_flag (group (run_of v')) = -1"
    using empty_group_fails [OF made e ls] by blast
  then show ?thesis using ls c(2) by (intro exI [of _ g0] exI [of _ ls] exI [of _ ?v] exI [of _ v']) simp
qed

end
