(* ===== verification/GroupShared.thy ===== *)
theory GroupShared
  imports GroupStart
begin

text \<open>
  Two requests for files of a data server at the same time. Each client has its thread, but all of them work on the one
  \<open>g_tgroupFile\<close>: \<open>create_client_connect_data_server\<close> of the second request sets it to zero and fills in its own files
  while the threads of the first request are still receiving. Nothing takes a lock.
\<close>

definition second_request :: "int \<Rightarrow> string list \<Rightarrow> run \<Rightarrow> fault + run" where
  "second_request fsize paths s = bindE (group_init fsize paths) (\<lambda>g. Inr (s\<lparr>group := g\<rparr>))"








subsection \<open>The two requests beside each other\<close>

text \<open>The threads and the consumer of the first request, and those of the second, which start while the first go on. The
  group is the one of \<open>newer\<close>; a step of the first request takes it and gives it back.\<close>

record overlap =
  older :: run
  newer :: starting

datatype overlap_label = Older label | Newer start_label

definition hand_back :: "overlap \<Rightarrow> run \<Rightarrow> overlap" where
  "hand_back ov s = ov\<lparr>older := s, newer := (newer ov)\<lparr>inner := (inner (newer ov))\<lparr>group := group s\<rparr>\<rparr>\<rparr>"

definition overlap_exec ::
    "int \<Rightarrow> (nat \<Rightarrow> thread_os) \<Rightarrow> tDataServerInfo \<Rightarrow> overlap_label \<Rightarrow> overlap \<Rightarrow> (fault + overlap) option" where
  "overlap_exec cap os server l ov =
     (case l of
        Older l \<Rightarrow> map_option (map_sum id (hand_back ov)) (exec cap l ((older ov)\<lparr>group := group (inner (newer ov))\<rparr>))
      | Newer l \<Rightarrow> map_option (map_sum id (\<lambda>st. ov\<lparr>newer := st\<rparr>)) (start_exec cap os server l (newer ov)))"

inductive overlap_run :: "int \<Rightarrow> (nat \<Rightarrow> thread_os) \<Rightarrow> tDataServerInfo \<Rightarrow> overlap \<Rightarrow> overlap \<Rightarrow> bool" for cap os server where
  overlap_refl: "overlap_run cap os server ov ov"
| overlap_more: "overlap_run cap os server ov ov' \<Longrightarrow> overlap_exec cap os server l ov' = Some (Inr ov'') \<Longrightarrow> overlap_run cap os server ov ov''"

text \<open>The second request comes in: it clears the group, and its threads have not begun.\<close>

definition overlapped :: "int \<Rightarrow> string list \<Rightarrow> ostream \<Rightarrow> byte list list list \<Rightarrow> run \<Rightarrow> fault + overlap" where
  "overlapped fsize paths out0 pieces s =
     bindE (second_request fsize paths s) (\<lambda>s'. Inr \<lparr>older = s', newer = all_waiting (group s') out0 pieces\<rparr>)"

lemma overlap_trans: "overlap_run cap os server ov' ov'' \<Longrightarrow> overlap_run cap os server ov ov' \<Longrightarrow> overlap_run cap os server ov ov''"
  by (induction rule: overlap_run.induct) (auto intro: overlap_more)

lemma overlap_newer:
  "start_steps cap os server st st' \<Longrightarrow> overlap_run cap os server \<lparr>older = s, newer = st\<rparr> \<lparr>older = s, newer = st'\<rparr>"
proof (induction rule: start_steps.induct)
  case (start_more st st' l st'')
  have "overlap_exec cap os server (Newer l) \<lparr>older = s, newer = st'\<rparr> = Some (Inr \<lparr>older = s, newer = st''\<rparr>)"
    using start_more.hyps(2) by (simp add: overlap_exec_def)
  then show ?case using start_more.IH overlap_more by blast
qed (rule overlap_refl)

text \<open>What a thread has still to receive does not matter to the others.\<close>

definition with_todo :: "nat \<Rightarrow> byte list list \<Rightarrow> run \<Rightarrow> run" where
  "with_todo i x s = s\<lparr>todo := (todo s)(i := x)\<rparr>"

lemma exec_with_todo:
  assumes "thread_of l \<noteq> Some i" "exec cap l s = Some (Inr s')"
  shows "exec cap l (with_todo i x s) = Some (Inr (with_todo i x s'))"
proof (cases l)
  case Judge
  then show ?thesis
    using assms(2) by (auto simp: exec_def exec_judge_def with_todo_def Let_def split: consumer.splits sum.splits if_splits)
qed (use assms in \<open>auto simp: exec_def with_todo_def fun_upd_twist split: thread.splits list.splits sum.splits if_splits\<close>)

lemma steps_with_todo:
  assumes "steps cap s s'" "group_inv cap n sz out0 s" "0 < n" "n \<le> 50" "\<forall>i < n. ph i = Receiving" "thr s i = Idle" "todo s i = []"
  shows "start_steps cap os server \<lparr>inner = with_todo i x s, phase = ph\<rparr> \<lparr>inner = with_todo i x s', phase = ph\<rparr> \<and> thr s' i = Idle \<and> todo s' i = []"
  using assms
proof (induction rule: steps.induct)
  case (more s s' s'')
  then have IH: "start_steps cap os server \<lparr>inner = with_todo i x s, phase = ph\<rparr> \<lparr>inner = with_todo i x s', phase = ph\<rparr>" "thr s' i = Idle" "todo s' i = []"
    by blast+
  from more.hyps(2) obtain l where l: "exec cap l s' = Some (Inr s'')" by (rule stepE)
  have t: "thread_of l \<noteq> Some i" using l IH(2,3) by (cases l) (auto simp: exec_def)
  have g: "group_inv cap n sz out0 s'" using group_steps [OF more.hyps(1)] more.prems by blast
  have "start_exec cap os server (Go l) \<lparr>inner = with_todo i x s', phase = ph\<rparr> = Some (Inr \<lparr>inner = with_todo i x s'', phase = ph\<rparr>)"
    using exec_with_todo [OF t l] thread_of_running [OF g l] more.prems(4) by (auto simp: start_exec_def split: option.split)
  then show ?case using start_more [OF IH(1)] exec_other [OF l t] IH(2,3) by simp
qed (simp add: start_refl)

text \<open>A group in which thread \<open>i\<close> has received the whole of its file, in the place of what it is sent, and nobody else anything.\<close>

lemma stale_received:
  assumes "group_ok cap (map concat pieces) out0" "group_fresh cap pieces g" "files_ok cap pieces"
    and "i < length pieces" "length p = length (concat (hd pieces))"
  obtains g1 where "group_ok cap ((map concat pieces)[i := p]) out0" "store_step cap i p (int (length p)) 0 g = Inr (True, 0, g1)"
    "receiving cap ((map concat pieces)[i := p]) out0 ((start_from g1 out0 pieces)\<lparr>todo := (\<lambda>j. if j < length pieces then pieces ! j else [])(i := [])\<rparr>)"
    "group_inv cap (length pieces) (int (length (concat (hd pieces)))) out0 ((start_from g1 out0 pieces)\<lparr>todo := (\<lambda>j. if j < length pieces then pieces ! j else [])(i := [])\<rparr>)"
proof -
  let ?ps = "pieces[i := [p]]" and ?fs = "(map concat pieces)[i := p]"
  have fs: "map concat ?ps = ?fs" by (simp add: map_update)
  have ne: "pieces \<noteq> []" using assms(4) by auto
  have hd: "length (concat (hd ?ps)) = length (concat (hd pieces))" "hd ?fs = concat (hd ?ps)"
    using assms(4,5) ne by (cases pieces; cases i; simp)+
  have p: "p \<noteq> []" using assms(1,5) ne by (auto simp: group_ok_def hd_map)
  have h: "hd (map concat pieces) = concat (hd pieces)" and h': "length (hd ?fs) = length (concat (hd pieces))" using ne hd by (simp_all add: hd_map)
  note all = assms(1) [unfolded group_ok_def same_length_def h]
  have "\<forall>f \<in> set ?fs. length f = length (concat (hd pieces))"
    using all assms(5) set_update_subset_insert [of "map concat pieces" i p] by blast
  moreover have "length ?fs \<le> 50" "?fs \<noteq> []" using all by simp_all
  ultimately have ok: "group_ok cap ?fs out0" unfolding group_ok_def same_length_def h' using all by blast
  have fresh: "group_fresh cap ?ps g" using assms(2) hd(1) by (simp add: group_fresh_def)
  have le: "int (length p) \<le> cap" using assms(1,5) ne by (simp add: group_ok_def hd_map)
  have fok: "files_ok cap ?ps"
  proof -
    have "pieces_ok cap qs \<and> length (concat qs) = length (concat (hd ?ps))" if q: "qs \<in> set ?ps" for qs
    proof (cases "qs = [p]")
      case True
      then show ?thesis using p le hd(1) assms(5) by (simp add: pieces_ok_def)
    next
      case False
      then have "qs \<in> set pieces" using q set_update_subset_insert [of pieces i "[p]"] by blast
      then show ?thesis using assms(3) unfolding files_ok_def hd(1) by blast
    qed
    moreover have "length pieces \<le> 50" "0 < cap" using assms(3) unfolding files_ok_def by blast+
    then have "length ?ps \<le> 50" "?ps \<noteq> []" "0 < cap" using ne by simp_all
    ultimately show ?thesis unfolding files_ok_def by blast
  qed
  then have ne': "\<forall>qs \<in> set ?ps. [] \<notin> set qs" unfolding files_ok_def pieces_ok_def by blast
  let ?td = "(\<lambda>j. if j < length pieces then pieces ! j else [])(i := [])"
  let ?u0 = "start_from g out0 ?ps" and ?u1 = "(start_from g out0 pieces)\<lparr>thr := (\<lambda>j. Idle)(i := AtStore p 0), todo := ?td\<rparr>"
  have td: "(todo ?u0)(i := []) = ?td" by auto
  have "xor_flag g = 0" "correct_flag g = 0" using assms(2) by (simp_all add: group_fresh_def)
  then have e0: "exec cap (Recv i) ?u0 = Some (Inr ?u1)"
    using assms(4) td by (simp add: exec_def start_from_def)
  have r0: "receiving cap ?fs out0 ?u0" using start_receiving [OF _ fresh ne', of out0] ok unfolding fs by blast
  have r1: "receiving cap ?fs out0 ?u1" using receiving_recv [OF r0 e0] by simp
  obtain res where e1: "exec cap (Store i) ?u1 = Some res"
    by (cases "store_step cap i p (int (length p)) 0 g") (simp_all add: exec_def)
  obtain u2 where u2: "res = Inr u2" "receiving cap ?fs out0 u2" using receiving_store [OF ok r1 e1] by blast
  obtain d fl g1 where st: "store_step cap i p (int (length p)) 0 g = Inr (d, fl, g1)"
      "u2 = (start_from g out0 pieces)\<lparr>group := g1, thr := ((\<lambda>j. Idle)(i := AtStore p 0))(i := (if d then Idle else AtRotate p fl)), todo := ?td\<rparr>"
    using e1 u2(1) by (cases "store_step cap i p (int (length p)) 0 g") (auto simp: exec_def)
  have "\<forall>j < length ?fs. thread_inv (?fs ! j) u2 j" using u2(2) unfolding receiving_def Let_def by blast
  moreover have "i < length ?fs" using assms(4) by simp
  ultimately have "thread_inv (?fs ! i) u2 i" by blast
  then have d: "d" using st(2) by (auto simp: thread_inv_def split: if_splits)
  then have u2': "u2 = (start_from g1 out0 pieces)\<lparr>todo := ?td\<rparr>" using st(2) by (simp add: start_from_def fun_upd_idem)
  have fl: "fl = 0" using st(1) d by (auto simp: store_step_def store_def bindE_def Let_def split: if_splits sum.splits)
  have "steps cap ?u0 u2" using steps_trans [OF steps_one steps_one [OF e0]] e1 u2(1) by blast
  then have "group_inv cap (length pieces) (int (length (concat (hd pieces)))) out0 u2" using group_reached [OF fok fresh] hd(1) by simp
  then show ?thesis using that [OF ok] st(1) d fl u2(2) unfolding u2' by simp
qed

text \<open>C13. And where a thread of the second request has: a thread of the first request is in \<open>write_buf\<close> with a piece as long as the files of the
  second when that comes in, and stores it after the thread with its number has allocated its buffers. Then the bytes are taken for the contents of
  that file: there is a run of the two requests in which the second is answered with success, and its output is the XOR of
  the other files with the stale piece.\<close>

theorem stale_piece_spoils:
  assumes "start_ok cap os server paths pieces g0" "group_ok cap (map concat pieces) out0" "i < length pieces"
    and "thr s i = AtStore p 0" "length p = length (concat (hd pieces))"
  shows "\<exists>ov ov'. overlapped (int (length (concat (hd pieces)))) paths out0 pieces s = Inr ov \<and> overlap_run cap os server ov ov'
    \<and> consumer (inner (newer ov')) = Done RIGHT
    \<and> written (out (inner (newer ov'))) = written out0 @ parity ((map concat pieces)[i := p])"
proof -
  let ?n = "length pieces" and ?g = "set_up_all os (length pieces) (\<lambda>i. Waiting) g0" and ?fs = "(map concat pieces)[i := p]"
  have made: "group_made cap os paths pieces g0" and fok: "files_ok cap pieces" using start_okD [OF assms(1)] by blast+
  have n: "0 < ?n" "?n \<le> 50" using fok by (auto simp only: files_ok_def length_greater_0_conv)
  note fresh = set_up_fresh [OF made]
  let ?ov = "\<lparr>older = s\<lparr>group := g0\<rparr>, newer = all_waiting g0 out0 pieces\<rparr>"
  have init: "overlapped (int (length (concat (hd pieces)))) paths out0 pieces s = Inr ?ov"
    using made by (simp add: overlapped_def second_request_def group_made_def)
  have "none_ended (all_waiting g0 out0 pieces)" by (simp add: none_ended_def all_waiting_def)
  from all_begin [OF assms(1) start_inv_init(1) [OF made] this] obtain t where
    t: "calm_start_steps cap os server (all_waiting g0 out0 pieces) t" "completed os ?n t = completed os ?n (all_waiting g0 out0 pieces)"
      "\<forall>i < ?n. phase t i = Receiving" by blast
  have it: "inner t = start_from ?g out0 pieces"
    using t(2) start_inv_init(2) [OF made, of out0] set_up_all_started [of ?n "phase t" os] t(3) by (simp add: completed_def)
  have run1: "overlap_run cap os server ?ov \<lparr>older = s\<lparr>group := g0\<rparr>, newer = t\<rparr>"
    by (rule overlap_newer [OF calm_start_steps_steps [OF t(1)]])
  obtain g1 where ok: "group_ok cap ?fs out0" and g1: "store_step cap i p (int (length p)) 0 ?g = Inr (True, 0, g1)"
      "receiving cap ?fs out0 ((start_from g1 out0 pieces)\<lparr>todo := (\<lambda>j. if j < ?n then pieces ! j else [])(i := [])\<rparr>)"
      "group_inv cap ?n (int (length (concat (hd pieces)))) out0 ((start_from g1 out0 pieces)\<lparr>todo := (\<lambda>j. if j < ?n then pieces ! j else [])(i := [])\<rparr>)"
    using stale_received [OF assms(2) fresh fok assms(3,5)] by blast
  let ?u = "(start_from g1 out0 pieces)\<lparr>todo := (\<lambda>j. if j < ?n then pieces ! j else [])(i := [])\<rparr>"
  let ?s1 = "s\<lparr>group := g1, thr := (thr s)(i := Idle)\<rparr>" and ?t1 = "\<lparr>inner = start_from g1 out0 pieces, phase = phase t\<rparr>"
  have "overlap_exec cap os server (Older (Store i)) \<lparr>older = s\<lparr>group := g0\<rparr>, newer = t\<rparr> = Some (Inr \<lparr>older = ?s1, newer = ?t1\<rparr>)"
    using assms(4) g1(1) it by (simp add: overlap_exec_def hand_back_def exec_def start_from_def)
  from overlap_more [OF run1 this] have run2: "overlap_run cap os server ?ov \<lparr>older = ?s1, newer = ?t1\<rparr>" .
  have iu: "inv cap ?fs out0 ?u" using g1(2) by (simp add: inv_def)
  obtain u' where u': "steps cap ?u u'" "consumer u' = Done RIGHT" using inv_ends [OF ok iu] by blast
  have w: "written (out u') = written out0 @ parity ?fs" using inv_done [OF inv_steps [OF u'(1) ok iu] u'(2)] by blast
  have "with_todo i (pieces ! i) ?u = start_from g1 out0 pieces" using assms(3) by (auto simp: with_todo_def start_from_def)
  then have "start_steps cap os server ?t1 \<lparr>inner = with_todo i (pieces ! i) u', phase = phase t\<rparr>"
    using conjunct1 [OF steps_with_todo [OF u'(1) g1(3) n t(3), of i os server "pieces ! i"]] by simp
  from overlap_trans [OF overlap_newer [OF this] run2]
  have "overlap_run cap os server ?ov \<lparr>older = ?s1, newer = \<lparr>inner = with_todo i (pieces ! i) u', phase = phase t\<rparr>\<rparr>" .
  then show ?thesis
    by (intro exI [of _ ?ov] exI [of _ "\<lparr>older = ?s1, newer = \<lparr>inner = with_todo i (pieces ! i) u', phase = phase t\<rparr>\<rparr>"] conjI)
       (use init u'(2) w in \<open>simp_all add: with_todo_def\<close>)
qed

text \<open>The first request: files of five bytes, the thread of the first one has just received its file.\<close>

definition five_nines :: "byte list" where "five_nines = [9, 9, 9, 9, 9]"

lemma stale_piece_spoils_witness:
  "\<exists>g0 s ov ov'. steps 8 (start 8 \<lparr>written = [], room = 9\<rparr> [[five_nines], [five_nines]]) s
    \<and> overlapped 5 [''a'', ''b''] \<lparr>written = [], room = 9\<rparr> two_pieces s = Inr ov
    \<and> start_ok 8 sample_threads no_data_server [''a'', ''b''] two_pieces g0
    \<and> overlap_run 8 sample_threads no_data_server ov ov' \<and> consumer (inner (newer ov')) = Done RIGHT
    \<and> written (out (inner (newer ov'))) = [15, 14, 1, 0, 3] \<and> parity (map concat two_pieces) = [7, 5, 11, 13, 15]"
proof -
  let ?first = "start 8 \<lparr>written = [], room = 9\<rparr> [[five_nines], [five_nines]]"
  obtain g0 where ok: "start_ok 8 sample_threads no_data_server [''a'', ''b''] two_pieces g0" using sample_start_ok by blast
  let ?s = "?first\<lparr>thr := (thr ?first)(0 := AtStore five_nines 0), todo := (todo ?first)(0 := [])\<rparr>"
  have "exec 8 (Recv 0) ?first = Some (Inr ?s)" by (simp add: start_def exec_def fresh_group_def)
  then have s: "steps 8 ?first ?s" by (rule steps_one)
  have i: "0 < length two_pieces" "length five_nines = length (concat (hd two_pieces))" "thr ?s 0 = AtStore five_nines 0"
    by (simp_all add: two_pieces_def five_nines_def)
  have p: "parity ((map concat two_pieces)[0 := five_nines]) = [15, 14, 1, 0, 3]"
    by (simp add: two_pieces_def five_nines_def parity_def column_def upt_rec)
  have "int (length (concat (hd two_pieces))) = 5" by (simp add: two_pieces_def)
  from stale_piece_spoils [OF ok sample_group_ok(1) i(1,3,2)] obtain ov ov' where
    "overlapped 5 [''a'', ''b''] \<lparr>written = [], room = 9\<rparr> two_pieces ?s = Inr ov" "overlap_run 8 sample_threads no_data_server ov ov'"
    "consumer (inner (newer ov')) = Done RIGHT" "written (out (inner (newer ov'))) = [15, 14, 1, 0, 3]"
    unfolding p \<open>int (length (concat (hd two_pieces))) = 5\<close> by auto
  then show ?thesis using s ok sample_group_ok(3) by blast
qed

end
