(* ===== verification/GroupCounter.thy ===== *)
theory GroupCounter
  imports GroupEvents
begin

text \<open>
  The increment \<open>g_tgroupFile.buf_full_num[k]++\<close> at its real grain. In \<open>GroupRun\<close> a thread fills a buffer and counts it
  in one step; in the program the increment of a plain \<open>int\<close> is a load and a store, and the threads of all files do it
  on the same counter without a lock. Here are these accesses by themselves, then the runs of a group in which the
  step that fills a buffer is divided by them (\<open>divided_exec\<close>), and what a lost increment does to such a run.
\<close>

datatype access = Load nat | Save nat

text \<open>The counter, and the register of each thread.\<close>

definition access_step :: "access \<Rightarrow> int \<times> (nat \<Rightarrow> int) \<Rightarrow> int \<times> (nat \<Rightarrow> int)" where
  "access_step a st = (case a of Load i \<Rightarrow> (fst st, (snd st)(i := fst st)) | Save i \<Rightarrow> (snd st i + 1, snd st))"

definition counter :: "access list \<Rightarrow> int" where
  "counter acc = fst (fold access_step acc (0, \<lambda>i. 0))"

text \<open>The accesses of \<open>n\<close> threads in any order: each thread loads once and saves once, in this order.\<close>

definition interleaving :: "nat \<Rightarrow> access list \<Rightarrow> bool" where
  "interleaving n acc \<longleftrightarrow> distinct acc \<and> set acc = Load ` {..<n} \<union> Save ` {..<n}
     \<and> (\<forall>i xs ys. acc = xs @ Save i # ys \<longrightarrow> Load i \<in> set xs)"

definition saves :: "access list \<Rightarrow> nat" where
  "saves acc = length (filter (\<lambda>a. case a of Save i \<Rightarrow> True | Load i \<Rightarrow> False) acc)"

lemma counter_inv:
  assumes "st = fold access_step acc (0, \<lambda>i. 0)"
  shows "0 \<le> fst st \<and> fst st \<le> int (saves acc) \<and> (0 < saves acc \<longrightarrow> 1 \<le> fst st) \<and> (\<forall>i. 0 \<le> snd st i \<and> snd st i \<le> int (saves acc))"
  using assms
proof (induction acc arbitrary: st rule: rev_induct)
  case Nil
  then show ?case by (simp add: saves_def)
next
  case (snoc a acc)
  show ?case
    using snoc.IH [OF HOL.refl] snoc.prems by (cases a) (auto simp: access_step_def saves_def add.commute intro: order_trans)
qed

lemma saves_interleaving:
  assumes "interleaving n acc"
  shows "saves acc = n"
proof -
  let ?P = "\<lambda>a. case a of Save i \<Rightarrow> True | Load i \<Rightarrow> False"
  have "set (filter ?P acc) = Save ` {..<n}" using assms by (auto simp: interleaving_def)
  moreover have "distinct (filter ?P acc)" using assms by (simp add: interleaving_def)
  ultimately have "saves acc = card (Save ` {..<n})" unfolding saves_def by (metis distinct_card)
  also have "\<dots> = n" by (simp add: card_image inj_on_def)
  finally show ?thesis .
qed

text \<open>C17. However the increments of the threads of a group interleave, the counter is at no time larger than the number of the increments that are
  complete, so the consumer never takes a buffer that some file has not filled; when all are complete it is between 1 and the number of the files.\<close>

theorem counter_bounded:
  assumes "interleaving n acc" "0 < n"
  shows "1 \<le> counter acc \<and> counter acc \<le> int n \<and> (\<forall>xs ys. acc = xs @ ys \<longrightarrow> counter xs \<le> int (saves xs))"
  using counter_inv [OF HOL.refl, of acc] counter_inv [OF HOL.refl] saves_interleaving [OF assms(1)] assms(2) by (simp add: counter_def)

text \<open>All threads load before the first one saves.\<close>

definition together :: "nat \<Rightarrow> access list" where
  "together n = map Load [0..<n] @ map Save [0..<n]"

lemma loads_keep: "fold access_step (map Load is') (c, r) = (c, \<lambda>i. if i \<in> set is' then c else r i)"
  by (induction is' arbitrary: r) (auto simp: access_step_def)

lemma saves_same: "\<forall>i \<in> set is'. r i = c \<Longrightarrow> is' \<noteq> [] \<Longrightarrow> fst (fold access_step (map Save is') (c', r)) = c + 1"
proof (induction is' arbitrary: c')
  case (Cons i is')
  then show ?case by (cases "is' = []") (simp_all add: access_step_def)
qed simp

lemma together_counter: "0 < n \<Longrightarrow> counter (together n) = 1"
  unfolding counter_def together_def fold_append comp_def loads_keep by (subst saves_same [where c = 0]) simp_all

lemma together_interleaving: "interleaving n (together n)"
  unfolding interleaving_def
proof (intro conjI allI impI)
  show "distinct (together n)" by (auto simp: together_def distinct_map inj_on_def)
  show "set (together n) = Load ` {..<n} \<union> Save ` {..<n}" by (auto simp: together_def)
  fix i xs ys
  assume a: "together n = xs @ Save i # ys"
  then have "Save i \<in> set (together n)" by simp
  then have i: "i < n" by (auto simp: together_def)
  obtain us where "xs = map Load [0..<n] @ us \<or> map Load [0..<n] = xs @ us \<and> us @ map Save [0..<n] = Save i # ys"
    using a unfolding together_def append_eq_append_conv2 by blast
  then show "Load i \<in> set xs"
  proof
    assume "xs = map Load [0..<n] @ us"
    then show ?thesis using i by simp
  next
    assume "map Load [0..<n] = xs @ us \<and> us @ map Save [0..<n] = Save i # ys"
    then have us: "us = [] \<or> us = Save i # tl us" "map Load [0..<n] = xs @ us" by (cases us; auto)+
    have "Save i \<notin> set (map Load [0..<n])" by auto
    then have "us = []" using us by (metis in_set_conv_decomp)
    then have "xs = map Load [0..<n]" using us(2) by simp
    then show ?thesis using i by simp
  qed
qed

lemma counter_bounded_witness: "counter (together 3) \<le> 3 \<and> interleaving 3 (together 3)"
  using counter_bounded [OF together_interleaving, of 3] together_interleaving by simp

subsection \<open>Divided increments in a group\<close>

text \<open>A group whose threads count in two steps: \<open>LoadNum i\<close> fills the buffer and loads the counter into the register of thread \<open>i\<close>,
  \<open>SaveNum i\<close> writes the counter. Between them the thread does nothing else; \<open>owed i\<close> is the counter it has still to write. A
  \<open>Store\<close> that fills no buffer is \<open>LoadNum\<close> without an access.\<close>

record divided =
  whole :: events
  owed :: "nat \<Rightarrow> nat option"
  register :: "nat \<Rightarrow> int"

datatype divided_label = Whole event_label | LoadNum nat | SaveNum nat

definition set_nums :: "(nat \<Rightarrow> int) \<Rightarrow> events \<Rightarrow> events" where
  "set_nums num v = v\<lparr>begun := (begun v)\<lparr>inner := (run_of v)\<lparr>group := (group (run_of v))\<lparr>buf_full_num := num\<rparr>\<rparr>\<rparr>\<rparr>"

definition label_thread :: "event_label \<Rightarrow> nat option" where
  "label_thread l = (case l of Step (Go k) \<Rightarrow> thread_of k | Step (Begin i) \<Rightarrow> Some i | Quiet i rcv \<Rightarrow> Some i)"

definition is_store :: "event_label \<Rightarrow> bool" where
  "is_store l = (case l of Step (Go (Store i)) \<Rightarrow> True | _ \<Rightarrow> False)"

definition divided_exec ::
    "int \<Rightarrow> (nat \<Rightarrow> thread_os) \<Rightarrow> tDataServerInfo \<Rightarrow> divided_label \<Rightarrow> divided \<Rightarrow> (fault + divided) option" where
  "divided_exec cap os server l d =
     (let num = buf_full_num (group (run_of (whole d)))
      in case l of
        Whole l \<Rightarrow>
          if is_store l \<or> (case label_thread l of None \<Rightarrow> False | Some i \<Rightarrow> owed d i \<noteq> None) then None
          else map_option (map_sum id (\<lambda>v. d\<lparr>whole := v\<rparr>)) (event_exec cap os server l (whole d))
      | LoadNum i \<Rightarrow>
          if owed d i \<noteq> None then None
          else map_option (map_sum id (\<lambda>v.
              let num' = buf_full_num (group (run_of v)); k = (if num' 0 \<noteq> num 0 then 0 else 1)
              in if num' k = num k then d\<lparr>whole := v\<rparr>
                 else d\<lparr>whole := set_nums num v, owed := (owed d)(i := Some k),
                        register := snd (access_step (Load i) (num k, register d))\<rparr>))
            (event_exec cap os server (Step (Go (Store i))) (whole d))
      | SaveNum i \<Rightarrow>
          (case owed d i of
             None \<Rightarrow> None
           | Some k \<Rightarrow> Some (Inr (d\<lparr>whole := set_nums (num(k := fst (access_step (Save i) (num k, register d)))) (whole d),
               owed := (owed d)(i := None)\<rparr>))))"

inductive divided_run :: "int \<Rightarrow> (nat \<Rightarrow> thread_os) \<Rightarrow> tDataServerInfo \<Rightarrow> divided \<Rightarrow> divided \<Rightarrow> bool" for cap os server where
  divided_refl: "divided_run cap os server d d"
| divided_more: "divided_run cap os server d d' \<Longrightarrow> divided_exec cap os server l d' = Some (Inr d'') \<Longrightarrow> divided_run cap os server d d''"

fun divided_all :: "int \<Rightarrow> (nat \<Rightarrow> thread_os) \<Rightarrow> tDataServerInfo \<Rightarrow> divided_label list \<Rightarrow> divided \<Rightarrow> divided option" where
  "divided_all cap os server [] d = Some d"
| "divided_all cap os server (l # ls) d =
     (case divided_exec cap os server l d of Some (Inr d') \<Rightarrow> divided_all cap os server ls d' | _ \<Rightarrow> None)"

lemma divided_trans: "divided_run cap os server d' d'' \<Longrightarrow> divided_run cap os server d d' \<Longrightarrow> divided_run cap os server d d''"
  by (induction rule: divided_run.induct) (auto intro: divided_more)

lemma divided_all_run: "divided_all cap os server ls d = Some d' \<Longrightarrow> divided_run cap os server d d'"
proof (induction ls arbitrary: d)
  case (Cons l ls)
  then obtain e where e: "divided_exec cap os server l d = Some (Inr e)" "divided_all cap os server ls e = Some d'"
    by (auto split: option.splits sum.splits)
  show ?case by (rule divided_trans [OF Cons.IH [OF e(2)] divided_more [OF divided_refl e(1)]])
qed (simp add: divided_refl)

text \<open>The grain of \<open>GroupRun\<close>: a load and a save without another step between them are the undivided step.\<close>

lemma undivided_store:
  assumes "event_exec cap os server (Step (Go (Store i))) (whole d) = Some (Inr v)" "owed d i = None"
    and "k < 2" "buf_full_num (group (run_of v)) = (buf_full_num (group (run_of (whole d))))(k := buf_full_num (group (run_of (whole d))) k + 1)"
  shows "\<exists>d'. divided_all cap os server [LoadNum i, SaveNum i] d = Some d' \<and> whole d' = v"
  using assms by (auto simp: divided_exec_def Let_def set_nums_def access_step_def less_2_cases_iff fun_upd_idem)

subsection \<open>A lost increment\<close>

definition divided_thread :: "divided_label \<Rightarrow> nat option" where
  "divided_thread l = (case l of Whole l \<Rightarrow> label_thread l | LoadNum i \<Rightarrow> Some i | SaveNum i \<Rightarrow> Some i)"

lemma set_nums_simps [simp]:
  "thr (run_of (set_nums num v)) = thr (run_of v)" "todo (run_of (set_nums num v)) = todo (run_of v)"
  by (simp_all add: set_nums_def)

lemma event_other:
  assumes "event_exec cap os server l v = Some (Inr v')" "label_thread l \<noteq> Some i"
  shows "thr (run_of v') i = thr (run_of v) i \<and> todo (run_of v') i = todo (run_of v) i"
proof (cases l)
  case (Quiet j rcv)
  then have "quiet_event cap j rcv v = Some (Inr v')" using assms by (simp add: event_exec_def)
  then show ?thesis by (cases rule: quiet_cases) simp_all
next
  case (Step l')
  from assms(1) [unfolded Step] obtain r' where r': "start_exec cap os server l' (begun v) = Some r'" "Inr v' = map_sum id (\<lambda>st. v\<lparr>begun := st\<rparr>) r'"
    by (rule step_event)
  then have st: "start_exec cap os server l' (begun v) = Some (Inr (begun v'))" by (cases r') auto
  show ?thesis
  proof (cases l')
    case (Begin j)
    obtain r where "thread_start (os j) server j (group (run_of v)) = Inr r" "run_of v' = (run_of v)\<lparr>group := snd (snd r)\<rparr>"
      using start_exec_begin [OF st [unfolded Begin]] by blast
    then show ?thesis by simp
  next
    case (Go k)
    then show ?thesis using exec_other [OF go_inner(2)] st assms(2) Step by (simp add: label_thread_def)
  qed
qed

lemma map_sum_Inr_iff: "map_sum id f x = Inr y \<longleftrightarrow> (\<exists>z. x = Inr z \<and> y = f z)"
  by (cases x) auto

lemma divided_other:
  assumes "divided_exec cap os server l d = Some (Inr d')" "divided_thread l \<noteq> Some i"
  shows "thr (run_of (whole d')) i = thr (run_of (whole d)) i \<and> todo (run_of (whole d')) i = todo (run_of (whole d)) i \<and> owed d' i = owed d i"
proof (cases l)
  case (Whole l')
  then obtain v where "event_exec cap os server l' (whole d) = Some (Inr v)" "d' = d\<lparr>whole := v\<rparr>"
    using assms(1) by (cases "event_exec cap os server l' (whole d)") (auto simp: divided_exec_def map_sum_Inr_iff split: if_splits)
  then show ?thesis using event_other [of cap os server l' "whole d" v i] assms(2) Whole by (simp add: divided_thread_def)
next
  case (LoadNum j)
  then obtain v where "event_exec cap os server (Step (Go (Store j))) (whole d) = Some (Inr v)"
      "d' = d\<lparr>whole := v\<rparr> \<or> (\<exists>k num r. d' = d\<lparr>whole := set_nums num v, owed := (owed d)(j := Some k), register := r\<rparr>)"
    using assms(1) by (cases "event_exec cap os server (Step (Go (Store j))) (whole d)")
      (auto simp: divided_exec_def map_sum_Inr_iff Let_def split: if_splits)
  moreover have "i \<noteq> j" using assms(2) LoadNum by (simp add: divided_thread_def)
  ultimately show ?thesis
    using event_other [of cap os server "Step (Go (Store j))" "whole d" v i] by (auto simp: label_thread_def)
next
  case (SaveNum j)
  then show ?thesis using assms by (auto simp: divided_exec_def divided_thread_def Let_def split: option.splits)
qed

lemma divided_all_other:
  "divided_all cap os server ls d = Some d' \<Longrightarrow> \<forall>l \<in> set ls. divided_thread l \<noteq> Some i
    \<Longrightarrow> thr (run_of (whole d')) i = thr (run_of (whole d)) i \<and> todo (run_of (whole d')) i = todo (run_of (whole d)) i \<and> owed d' i = owed d i"
proof (induction ls arbitrary: d)
  case (Cons l ls)
  then obtain e where e: "divided_exec cap os server l d = Some (Inr e)" "divided_all cap os server ls e = Some d'"
    by (auto split: option.splits sum.splits)
  show ?case using Cons.IH [OF e(2)] divided_other [OF e(1), of i] Cons.prems(2) by simp
qed simp

text \<open>Two files of one byte, their threads begun. Both threads fill their buffer and load the counter before the first one writes it.\<close>

definition two_bytes :: divided where
  "two_bytes = \<lparr>whole = \<lparr>begun = \<lparr>inner = start 2 \<lparr>written = [], room = 9\<rparr> [[[1]], [[2]]], phase = (\<lambda>i. Receiving)\<rparr>,
     shut = (\<lambda>i. False), dropped = (\<lambda>i. False)\<rparr>, owed = (\<lambda>i. None), register = (\<lambda>i. 0)\<rparr>"

definition losing :: "divided_label list" where
  "losing = [Whole (Step (Go (Recv 0))), Whole (Step (Go (Recv 1))), LoadNum 0, LoadNum 1, SaveNum 0, SaveNum 1]"

definition divided_summary :: "divided \<Rightarrow> consumer \<times> int list \<times> thread list \<times> byte list list list \<times> nat option list \<times> ostream" where
  "divided_summary d = (let s = run_of (whole d); g = group s in (consumer s,
     [file_num g, buf_full_num g 0, buf_full_num g 1, xor_flag g, buf_flag (info_of g 0) 0, buf_flag (info_of g 1) 0],
     [thr s 0, thr s 1], [todo s 0, todo s 1], [owed d 0, owed d 1], out s))"

lemma losing_result:
  "map_option divided_summary (divided_all 2 two_byte_threads no_data_server losing two_bytes)
    = Some (Poll 0, [2, 1, 0, 0, 2, 2], [Idle, Idle], [[], []], [None, None], \<lparr>written = [], room = 9\<rparr>)"
  by code_simp

lemma divided_nothing:
  assumes "divided_run cap os server d d'" "nothing_to_do out0 (run_of (whole d))" "\<forall>i. owed d i = None"
  shows "nothing_to_do out0 (run_of (whole d')) \<and> (\<forall>i. owed d' i = None)"
  using assms
proof (induction rule: divided_run.induct)
  case (divided_more d d' l d'')
  then have n: "nothing_to_do out0 (run_of (whole d'))" "\<forall>i. owed d' i = None" by blast+
  show ?case
  proof (cases l)
    case (Whole l')
    then obtain v where "event_exec cap os server l' (whole d') = Some (Inr v)" "d'' = d'\<lparr>whole := v\<rparr>"
      using divided_more.hyps(2) by (cases "event_exec cap os server l' (whole d')") (auto simp: divided_exec_def map_sum_Inr_iff split: if_splits)
    then show ?thesis using nothing_event [OF n(1)] n(2) by simp
  next
    case (LoadNum i)
    have "event_exec cap os server (Step (Go (Store i))) (whole d') = None"
      using n(1) by (simp add: nothing_to_do_def event_exec_def start_exec_def exec_def)
    then show ?thesis using divided_more.hyps(2) LoadNum n(2) by (simp add: divided_exec_def)
  next
    case (SaveNum i)
    then show ?thesis using divided_more.hyps(2) n(2) by (simp add: divided_exec_def)
  qed
qed blast

text \<open>C16. Increments are lost: two files of one byte can be received so that both are complete, nothing is left to be received, stored or
  counted, and the counter of their buffer is 1. Whatever happens then, the files are never XORed: the consumer polls until a connection fails, and returns the error code.\<close>

theorem lost_increments_fail:
  "\<exists>d. divided_run 2 two_byte_threads no_data_server two_bytes d
    \<and> (\<forall>i. thr (run_of (whole d)) i = Idle \<and> todo (run_of (whole d)) i = [] \<and> owed d i = None)
    \<and> buf_flag (info_of (group (run_of (whole d))) 0) 0 = 2 \<and> buf_flag (info_of (group (run_of (whole d))) 1) 0 = 2
    \<and> file_num (group (run_of (whole d))) = 2 \<and> buf_full_num (group (run_of (whole d))) 0 = 1
    \<and> (\<forall>d'. divided_run 2 two_byte_threads no_data_server d d' \<longrightarrow> out (run_of (whole d')) = \<lparr>written = [], room = 9\<rparr>
        \<and> (consumer (run_of (whole d')) \<in> {Poll 0, Poll 1, Check}
           \<or> (consumer (run_of (whole d')) = Done ERROR_CREAT_TRANSMISSION_DATA_CONNECTION \<and> correct_flag (group (run_of (whole d'))) \<noteq> 0)))"
proof -
  obtain d where d: "divided_all 2 two_byte_threads no_data_server losing two_bytes = Some d"
      "divided_summary d = (Poll 0, [2, 1, 0, 0, 2, 2], [Idle, Idle], [[], []], [None, None], \<lparr>written = [], room = 9\<rparr>)"
    using losing_result by auto
  note s = d(2) [unfolded divided_summary_def Let_def]
  have idle: "thr (run_of (whole d)) i = Idle \<and> todo (run_of (whole d)) i = [] \<and> owed d i = None" for i
  proof (cases "i < 2")
    case True
    then show ?thesis using s by (auto simp: less_2_cases_iff)
  next
    case False
    then have "\<forall>l \<in> set losing. divided_thread l \<noteq> Some i" by (auto simp: losing_def divided_thread_def label_thread_def)
    from divided_all_other [OF d(1) this] show ?thesis using False by (simp add: two_bytes_def start_def)
  qed
  have "nothing_to_do \<lparr>written = [], room = 9\<rparr> (run_of (whole d))" using s idle by (simp add: nothing_to_do_def less_2_cases_iff)
  then have "nothing_to_do \<lparr>written = [], room = 9\<rparr> (run_of (whole d'))" if "divided_run 2 two_byte_threads no_data_server d d'" for d'
    using divided_nothing [OF that] idle by blast
  then show ?thesis using divided_all_run [OF d(1)] s idle by (intro exI [of _ d]) (simp add: nothing_to_do_def)
qed

lemma lost_increments_fail_witness:
  "\<exists>d. divided_run 2 two_byte_threads no_data_server two_bytes d \<and> buf_full_num (group (run_of (whole d))) 0 = 1
    \<and> (\<forall>i. todo (run_of (whole d)) i = []) \<and> consumer (run_of (whole d)) \<noteq> Done RIGHT \<and> out (run_of (whole d)) = \<lparr>written = [], room = 9\<rparr>"
proof -
  obtain d where d: "divided_run 2 two_byte_threads no_data_server two_bytes d" "buf_full_num (group (run_of (whole d))) 0 = 1"
      "\<forall>i. todo (run_of (whole d)) i = []"
      "\<forall>d'. divided_run 2 two_byte_threads no_data_server d d' \<longrightarrow> out (run_of (whole d')) = \<lparr>written = [], room = 9\<rparr>
        \<and> (consumer (run_of (whole d')) \<in> {Poll 0, Poll 1, Check}
         \<or> (consumer (run_of (whole d')) = Done ERROR_CREAT_TRANSMISSION_DATA_CONNECTION \<and> correct_flag (group (run_of (whole d'))) \<noteq> 0))"
    using lost_increments_fail by blast
  have "consumer (run_of (whole d)) \<noteq> Done RIGHT" "out (run_of (whole d)) = \<lparr>written = [], room = 9\<rparr>"
    using d(4) divided_refl [of 2 two_byte_threads no_data_server d] by (auto simp: codes)
  then show ?thesis using d(1-3) by blast
qed

end
