(* ===== verification/Server.thy ===== *)
theory Server
  imports Common Json SendFeedback RaidAllFile Connect
begin

text \<open>
  \<open>src/oraid_server.cpp\<close>: the listening socket, a thread per client, and the request handler
  \<open>buffered_on_read\<close>, which takes a request apart (\<open>Common\<close>, \<open>Json\<close>), XORs the files of this machine
  (\<open>RaidAllFile\<close>) or fetches them from the data server (\<open>SendFeedback\<close>, \<open>Connect\<close>), and answers.

  The operating system, libevent, cJSON and the HTTP client are parameters of the model; logging and the
  lines printed to the terminal are left out, except where they read an array.
\<close>

subsection \<open>Sockets and clients\<close>

definition DEFAULT_PORT :: int where "DEFAULT_PORT = 3260"

text \<open>The server's own \<open>setnonblocking\<close> is the one of the data client (theory \<open>Connect\<close>), word for word.
  Pointers to libevent's objects are numbers.\<close>

record client =
  fd :: int
  base :: nat
  ev_accept :: "nat option"
  write_state :: int
  write_index :: nat
  write_total_size :: nat
  file_name :: cbuf
  file_fd :: int
  write_offset :: int

datatype srv_action =
    EventDel nat
  | LoopExit nat
  | FreeEvent nat
  | FreeClient
  | CloseFd int
  | SentTo int string

subsection \<open>One request\<close>

record 'j server_env =
  json_library :: "'j cjson"
  disk :: posix
  post_file_server :: "string \<Rightarrow> string \<Rightarrow> nat \<Rightarrow> response"
  group_os :: create_os
  judge_threads :: "ostream \<Rightarrow> tGroupFileInfo \<Rightarrow> (int \<times> ostream \<times> tGroupFileInfo) partial"
  last_errno :: int
  errno_text :: string
  time_text :: string            \<comment> \<open>\<open>ctime\<close>\<close>
  socket_write :: write_os
  local_addr :: string           \<comment> \<open>\<open>inet_ntoa (local_addr.sin_addr)\<close>\<close>

definition verbs :: "string list" where
  "verbs = [''GET'', ''HEAD'', ''POST'', ''PUT'', ''DELETE'', ''CONNECT'', ''OPTIONS'', ''TRACE'']"

definition is_http :: "cbuf \<Rightarrow> int \<Rightarrow> bool" where
  "is_http recvbuf ret \<longleftrightarrow> 10 < ret \<and> list_ex (\<lambda>v. has_prefix v recvbuf) verbs"

text \<open>\<open>unsigned char recvbuf[BUF_MAX] = {0}\<close> behind a \<open>read\<close> of at most that many bytes.\<close>

definition recv_array :: "string \<Rightarrow> cbuf" where
  "recv_array bytes = bytes @ zbuf (BUF_MAX - length bytes)"

record outcome =
  ret_code :: int
  data_server :: tDataServerInfo
  local_result :: "file_result option"
  group_result :: "(group_action list \<times> tGroupFileInfo) option"
  sent :: string

text \<open>Files of the data server. The address is the one \<open>g_tDataDerverInfo\<close> holds now.\<close>

definition nonlocal_request ::
    "'j server_env \<Rightarrow> tDataServerInfo \<Rightarrow> int \<Rightarrow> xor_request \<Rightarrow> (int \<times> (group_action list \<times> tGroupFileInfo) option) partial" where
  "nonlocal_request env server ret q =
     (if ret = 0 then
        bindP (Some (send_file_name_main (post_file_server env) (q_files q) server (zbuf BUF_MAX))) (\<lambda>a.
        if fst a = 0 then
          bindP (Some (read_cstr (snd a))) (\<lambda>content.
          bindP (Some (get_json_nonlocal_file_attribute_info (json_library env) content 0)) (\<lambda>b.
          if fst b = 0 then
            bindP (Some (read_cstr (q_output q))) (\<lambda>output_file_name.
            bindP (create_client_connect_data_server (group_os env) (judge_threads env) (snd b) (q_files q) output_file_name)
              (\<lambda>r. Some (Inr (fst r, Some (snd r)))))
          else Some (Inr (fst b, None))))
        else Some (Inr (fst a, None)))
      else Some (Inr (ret, None)))"

text \<open>Files of this machine.\<close>

definition local_request :: "'j server_env \<Rightarrow> int \<Rightarrow> xor_request \<Rightarrow> (int \<times> file_result option) partial" where
  "local_request env ret q =
     (if ret = 0 then
        bindP (Some (read_cstr (q_output q))) (\<lambda>output_file_name.
        bindP (open_file (disk env) output_file_name (q_files q)) (\<lambda>r. Some (Inr (code r, Some r))))
      else Some (Inr (ret, None)))"

text \<open>The answer, the same code in both branches; the result of \<open>write_buf\<close> is only logged.\<close>

definition answer_client :: "'j server_env \<Rightarrow> int \<Rightarrow> http_info \<Rightarrow> string partial" where
  "answer_client env ret h =
     bindP (Some (set_send_json_info (zbuf 128) ret (last_errno env) (errno_text env))) (\<lambda>send_http_content.
     bindP (Some (read_cstr send_http_content)) (\<lambda>content.
     bindP (Some (read_cstr (h_header h))) (\<lambda>http_header.
     bindP (Some (read_cstr (h_content_type h))) (\<lambda>content_type.
     bindP (Some (set_output_http_info (zbuf BUF_MAX) content http_header content_type (time_text env))) (\<lambda>send_http_info.
     bindP (Some (read_cstr send_http_info)) (\<lambda>text_sent.
     case SendFeedback.write_buf (socket_write env) (text_sent @ [NUL]) of
       None \<Rightarrow> None
     | Some r \<Rightarrow> Some (Inr (snd r))))))))"

text \<open>The handler up to the parsed request, which leaves its address in \<open>g_tDataDerverInfo\<close>, and the rest, which
  reads \<open>g_tDataDerverInfo\<close> again. The threads of two clients share it.\<close>

definition parse_http :: "'j server_env \<Rightarrow> tDataServerInfo \<Rightarrow> cbuf \<Rightarrow> (http_info \<times> int \<times> xor_request) partial" where
  "parse_http env server recvbuf =
     bindP (get_input_http_info recvbuf no_info) (\<lambda>h.
     bindP (Some (read_cstr (h_content h))) (\<lambda>content.
     bindP (Some (get_json_need_xor_file_info (json_library env) content server [] (zbuf 1024))) (\<lambda>p.
     Some (Inr (h, p)))))"

definition serve_http :: "'j server_env \<Rightarrow> tDataServerInfo \<Rightarrow> http_info \<times> int \<times> xor_request \<Rightarrow> outcome partial" where
  "serve_http env server p =
     (case p of (h, ret, q) \<Rightarrow>
        bindP (Some (read_cstr (data_server_ip server))) (\<lambda>ip.
        if local_addr env \<noteq> ip
        then bindP (nonlocal_request env server ret q) (\<lambda>r.
             bindP (answer_client env (fst r) h) (\<lambda>s.
             Some (Inr \<lparr>ret_code = fst r, data_server = server, local_result = None, group_result = snd r, sent = s\<rparr>)))
        else bindP (local_request env ret q) (\<lambda>r.
             bindP (answer_client env (fst r) h) (\<lambda>s.
             Some (Inr \<lparr>ret_code = fst r, data_server = server, local_result = snd r, group_result = None, sent = s\<rparr>)))))"

text \<open>One request with no other beside it.\<close>

definition handle_http :: "'j server_env \<Rightarrow> tDataServerInfo \<Rightarrow> cbuf \<Rightarrow> outcome partial" where
  "handle_http env server recvbuf =
     bindP (parse_http env server recvbuf) (\<lambda>p. serve_http env (q_server (snd (snd p))) p)"

text \<open>The clients' threads beside each other: the one address they share, the request each has parsed and the outcome
  of the last one it served. A step is one half of a client's request. The mutex of \<open>json.cpp\<close> is held around each
  single copy into the address only, so it excludes none of these orders.\<close>

record clients =
  address :: tDataServerInfo
  parsed :: "nat \<Rightarrow> (http_info \<times> int \<times> xor_request) option"
  served :: "nat \<Rightarrow> outcome option"

datatype client_label = Parses (label_client: nat) cbuf | Serves (label_client: nat)

definition client_exec :: "'j server_env \<Rightarrow> client_label \<Rightarrow> clients \<Rightarrow> clients partial" where
  "client_exec env l cs =
     (case l of
        Parses c recvbuf \<Rightarrow>
          bindP (parse_http env (address cs) recvbuf) (\<lambda>p.
          Some (Inr (cs\<lparr>address := q_server (snd (snd p)), parsed := (parsed cs)(c \<mapsto> p)\<rparr>)))
      | Serves c \<Rightarrow>
          (case parsed cs c of
             None \<Rightarrow> Some (Inr cs)
           | Some p \<Rightarrow>
               bindP (serve_http env (address cs) p) (\<lambda>o'.
               Some (Inr (cs\<lparr>parsed := (parsed cs)(c := None), served := (served cs)(c \<mapsto> o')\<rparr>)))))"

fun client_run :: "'j server_env \<Rightarrow> client_label list \<Rightarrow> clients \<Rightarrow> clients partial" where
  "client_run env [] cs = Some (Inr cs)"
| "client_run env (l # ls) cs = bindP (client_exec env l cs) (client_run env ls)"

definition no_clients :: clients where
  "no_clients = \<lparr>address = no_data_server, parsed = (\<lambda>_. None), served = (\<lambda>_. None)\<rparr>"

text \<open>What \<open>read\<close> gave: nothing (an error or the end of the connection), or bytes. The result is the state of the
  global address of the data server, the actions, and whether the client is gone.\<close>

datatype read_result = ReadFailed | ReadBytes string

definition read_ret :: "read_result \<Rightarrow> int" where
  "read_ret r = (case r of ReadFailed \<Rightarrow> -1 | ReadBytes bytes \<Rightarrow> int (length bytes))"

definition drop_client :: "int \<Rightarrow> client \<Rightarrow> fault + srv_action list" where
  "drop_client sock cl =
     (case ev_accept cl of
        None \<Rightarrow> Inl NullDeref
      | Some ev \<Rightarrow> Inr [EventDel ev, LoopExit (base cl), FreeEvent ev, FreeClient, CloseFd sock])"

definition buffered_on_read ::
    "'j server_env \<Rightarrow> tDataServerInfo \<Rightarrow> int \<Rightarrow> client option \<Rightarrow> read_result
      \<Rightarrow> (tDataServerInfo \<times> srv_action list \<times> bool) partial" where
  "buffered_on_read env server sock arg r =
     (case arg of
        None \<Rightarrow> Some (Inr (server, [], False))
      | Some cl \<Rightarrow>
          (let ret = read_ret r;
               recvbuf = (case r of ReadFailed \<Rightarrow> zbuf BUF_MAX | ReadBytes bytes \<Rightarrow> recv_array bytes)
           in if ret \<le> 0 \<and> write_offset cl = 0
              then Some (bindE (drop_client sock cl) (\<lambda>acts. Inr (server, acts, True)))
              else if is_http recvbuf ret
              then bindP (handle_http env server recvbuf)
                     (\<lambda>o'. Some (Inr (data_server o', [SentTo (fd cl) (sent o')], False)))
              else Some (Inr (server, [], False))))"

subsection \<open>The thread of a client\<close>

text \<open>The event loop calls the handler for each block of bytes that arrives until the handler has left it.
  \<open>False\<close>: the loop still waits when the blocks are used up.\<close>

fun event_loop ::
    "'j server_env \<Rightarrow> tDataServerInfo \<Rightarrow> int \<Rightarrow> client \<Rightarrow> read_result list
      \<Rightarrow> (tDataServerInfo \<times> srv_action list \<times> bool) partial" where
  "event_loop env server sock cl [] = Some (Inr (server, [], False))"
| "event_loop env server sock cl (r # rs) =
     bindP (buffered_on_read env server sock (Some cl) r) (\<lambda>a.
     if snd (snd a) then Some (Inr a)
     else bindP (event_loop env (fst a) sock cl rs)
            (\<lambda>b. Some (Inr (fst b, fst (snd a) @ fst (snd b), snd (snd b)))))"

record client_os =
  setfl_ret :: int
  calloc_ok :: bool
  event_new :: "nat option"       \<comment> \<open>\<open>malloc\<close> of the event, not checked\<close>
  base_new :: nat

definition new_client :: "int \<Rightarrow> nat option \<Rightarrow> nat \<Rightarrow> client" where
  "new_client client_fd ev b = \<lparr>fd = client_fd, base = b, ev_accept = ev, write_state = 0, write_index = 0,
     write_total_size = 0, file_name = zbuf 1024, file_fd = 0, write_offset = 0\<rparr>"

text \<open>The actions of the thread, and whether it has ended.\<close>

definition process_in_new_thread_when_accepted ::
    "client_os \<Rightarrow> 'j server_env \<Rightarrow> tDataServerInfo \<Rightarrow> int \<Rightarrow> read_result list
      \<Rightarrow> (tDataServerInfo \<times> srv_action list \<times> bool) partial" where
  "process_in_new_thread_when_accepted os env server arg rs =
     (let client_fd = to_int32 arg
      in if client_fd < 0 then Some (Inr (server, [], True))
         else if fst (setnonblocking 0 (setfl_ret os)) < 0 then Some (Inr (server, [], True))
         else if \<not> calloc_ok os then Some (Inr (server, [], True))
         else if event_new os = None then Some (Inl NullDeref)
         else event_loop env server client_fd (new_client client_fd (event_new os) (base_new os)) rs)"

subsection \<open>\<open>on_accept\<close>, the signal handlers, \<open>log_info_init\<close>\<close>

datatype sockopt = SO_LINGER | SO_REUSEADDR | SO_RCVBUF | SO_SNDBUF

datatype main_action =
    SetSockOpt int sockopt int nat     \<comment> \<open>descriptor, option, value, \<open>optlen\<close>\<close>
  | StartThread int                    \<comment> \<open>\<open>process_in_new_thread_when_accepted\<close> with its argument\<close>
  | DetachThread bool                  \<comment> \<open>\<open>False\<close>: the thread was never created\<close>
  | SignalHandler string string
  | BindListen int int
  | Dispatch int
  | CloseListen int
  | LogStart
  | LogStop

definition buf_200M :: int where "buf_200M = 200 * 1024 * 1024"

definition on_accept :: "int \<Rightarrow> string \<Rightarrow> int \<Rightarrow> fault + main_action list" where
  "on_accept accept_ret ip pthread_create_result =
     (if accept_ret < 0 then Inr []
      else bindE (strcpy (zbuf 64) ip) (\<lambda>client_ip. bindE (read_cstr client_ip) (\<lambda>_.
        Inr ([SetSockOpt accept_ret SO_RCVBUF buf_200M 4, SetSockOpt accept_ret SO_SNDBUF buf_200M 4]
          @ (if pthread_create_result = 0 then [StartThread accept_ret, DetachThread True] else [DetachThread False])))))"

text \<open>The lines \<open>DebugBacktrace\<close> logs for a stack of the given frames, before it ends the process.\<close>

definition SIZE :: nat where "SIZE = 100"

definition DebugBacktrace :: "string \<Rightarrow> string list \<Rightarrow> fault + string list" where
  "DebugBacktrace time_now frames =
     (let strings = take SIZE frames; n = length strings
      in bindE (strcpy (zbuf 10) (fmt_d (int n))) (\<lambda>buf. bindE (read_cstr buf) (\<lambda>b.
         Inr ([''BackTrace'', ''Data : '' @ time_now, ''backtrack'' @ b @ ''deep'',
           ''backtrack'' @ fmt_d (int n) @ ''deep'' @ [LF]] @ strings))))"

text \<open>\<open>wait\<close> takes one of the children that have ended.\<close>

definition sig_chld :: "int list \<Rightarrow> int option \<times> int list" where
  "sig_chld ended = (case ended of [] \<Rightarrow> (None, []) | p # ps \<Rightarrow> (Some p, ps))"

record glog_flags =
  log_dir :: string
  destinations :: "(string \<times> string) list"
  stderrthreshold :: int
  log_prefix :: bool
  logbuflevel :: int
  logbufsecs :: int
  max_log_size :: int
  program :: "string option"

definition set_destination :: "string \<Rightarrow> string \<Rightarrow> cbuf \<Rightarrow> glog_flags \<Rightarrow> fault + (cbuf \<times> glog_flags)" where
  "set_destination level prefix log_file f =
     bindE (strcpy log_file prefix) (\<lambda>b. bindE (read_cstr b) (\<lambda>s.
     Inr (zbuf 264, f\<lparr>destinations := destinations f @ [(level, s)]\<rparr>)))"

definition log_info_init :: "string \<Rightarrow> string \<Rightarrow> glog_flags \<Rightarrow> fault + glog_flags" where
  "log_info_init exec_path log_path f =
     (let f = f\<lparr>log_dir := log_path, program := Some exec_path\<rparr>
      in bindE (set_destination ''INFO'' ''INFO_MESSAGE_'' (zbuf 264) f) (\<lambda>a.
         bindE (set_destination ''WARNING'' ''WARNING_MESSAGE_'' (fst a) (snd a)) (\<lambda>a.
         bindE (set_destination ''ERROR'' ''ERROR_MESSAGE_'' (fst a) (snd a)) (\<lambda>a.
         Inr ((snd a)\<lparr>stderrthreshold := 3, log_prefix := True, logbuflevel := 2, logbufsecs := 0, max_log_size := 50\<rparr>)))))"

subsection \<open>\<open>main\<close>\<close>

record main_os =
  socket_ret :: int
  bind_ret :: int
  listen_ret :: int

definition signal_table :: "(string \<times> string) list" where
  "signal_table = [(''SIGSEGV'', ''DebugBacktrace''), (''SIGFPE'', ''DebugBacktrace''), (''SIGABRT'', ''DebugBacktrace''),
     (''SIGILL'', ''DebugBacktrace''), (''SIGINT'', ''DebugBacktrace''), (''SIGCHLD'', ''sig_chld''), (''SIGPIPE'', ''SIG_IGN'')]"

definition socket_options :: "int \<Rightarrow> main_action list" where
  "socket_options s =
     [SetSockOpt s SO_LINGER 1 4, SetSockOpt s SO_REUSEADDR 1 4, SetSockOpt s SO_RCVBUF buf_200M 4,
      SetSockOpt s SO_SNDBUF buf_200M 4]"

definition main :: "main_os \<Rightarrow> string \<Rightarrow> glog_flags \<Rightarrow> fault + (int \<times> main_action list \<times> glog_flags)" where
  "main os argv0 f =
     bindE (log_info_init argv0 ''123'' f) (\<lambda>f.
     let s = socket_ret os; acts = LogStart # map (\<lambda>(sig, h). SignalHandler sig h) signal_table
     in if s = -1 then Inr (- CLIENTSOCKETFAILED, acts, f)
        else if bind_ret os = -1 then Inr (- CONNECTSERVERFAILED, acts @ socket_options s, f)
        else if listen_ret os = -1 then Inr (- CONNECTSERVERFAILED, acts @ socket_options s, f)
        else Inr (RIGHT, acts @ socket_options s @ [BindListen s DEFAULT_PORT, Dispatch s, CloseListen s, LogStop], f))"

subsection \<open>A request\<close>

text \<open>What the handler needs of its surroundings to answer: an error text and a time that fit, a socket that
  takes at least a byte of what it is given.\<close>

definition answers :: "'j server_env \<Rightarrow> bool" where
  "answers env \<longleftrightarrow> clean (errno_text env) \<and> length (errno_text env) \<le> 67 \<and> \<bar>last_errno env\<bar> < 10 ^ 3
     \<and> (\<exists>day. time_text env = day @ [LF] \<and> clean day \<and> length day < 200)
     \<and> write_ok (socket_write env) \<and> (\<forall>i n. 0 < fst (socket_write env i n))"

definition answer_text :: "'j server_env \<Rightarrow> int \<Rightarrow> string \<Rightarrow> string \<Rightarrow> string" where
  "answer_text env ret hdr ct =
     (let content = json_answer ret (message_text ret (last_errno env) (errno_text env))
      in http_text (response_lines hdr ct (time_text env) content) content @ [NUL])"

lemma answer_client_text:
  assumes "answers env" "holds (h_header h) 256 hdr" "holds (h_content_type h) 256 ct" "clean hdr" "clean ct"
    and "\<bar>ret\<bar> < 10 ^ 3"
  shows "answer_client env ret h = Some (Inr (answer_text env ret hdr ct))"
proof -
  obtain day where day: "time_text env = day @ [LF]" "clean day" "length day < 200" using assms(1) by (auto simp: answers_def)
  let ?m = "message_text ret (last_errno env) (errno_text env)"
  have e: "NUL \<notin> set (errno_text env)" "length (errno_text env) \<le> 67" "\<bar>last_errno env\<bar> < 10 ^ 3"
    using assms(1) by (auto simp: answers_def clean_def)
  obtain b where b: "set_send_json_info (zbuf 128) ret (last_errno env) (errno_text env) = Inr b" "holds b 128 (json_answer ret ?m)"
    using json_answer_fits [OF e assms(6)] by blast
  have c: "clean (json_answer ret ?m)"
    using assms(1) by (intro json_answer_clean message_text_clean) (simp add: answers_def)
  have "length (json_answer ret ?m) < 128" using b(2) by (rule holds_length)
  then obtain r where r: "set_output_http_info (zbuf 16384) (json_answer ret ?m) hdr ct (day @ [LF]) = Inr r"
      "holds r 16384 (http_text (response_lines hdr ct (day @ [LF]) (json_answer ret ?m)) (json_answer ret ?m))"
    using response_fits [OF c assms(4,5) day(2) _ _ _ day(3)] holds_length [OF assms(2)] holds_length [OF assms(3)] by auto
  have "SendFeedback.write_buf (socket_write env) buf = Some (0, buf)" for buf :: string
    using feedback_writer.run_all [of "socket_write env" buf] assms(1) by (simp add: answers_def SendFeedback.write_buf_def)
  then show ?thesis
    using b r assms(2,3) day(1)
    by (simp add: answer_client_def holds_read BUF_MAX_def answer_text_def Let_def)
qed

text \<open>A request as a client means it: its text, and that it fits the arrays of the parser.\<close>

definition request_text :: "string \<Rightarrow> string \<Rightarrow> string \<Rightarrow> string list \<Rightarrow> string \<Rightarrow> string" where
  "request_text verb path version hs body = http_text ((verb @ '' /'' @ path @ '' '' @ version) # hs @ ['''']) body"

definition request_wf :: "string \<Rightarrow> string \<Rightarrow> string \<Rightarrow> string list \<Rightarrow> string \<Rightarrow> bool" where
  "request_wf verb path version hs body \<longleftrightarrow> clean verb \<and> clean path \<and> clean version \<and> clean body
     \<and> CHR '' '' \<notin> set verb \<and> CHR '' '' \<notin> set version \<and> version \<noteq> []
     \<and> length verb + length path + length version < 1021 \<and> length version < 256 \<and> length path < 256
     \<and> (\<forall>l \<in> set hs. clean l \<and> length l < 270) \<and> length body < 1024
     \<and> length (request_text verb path version hs body) < BUF_MAX"

lemma recv_array_NUL: "length bytes < BUF_MAX \<Longrightarrow> \<exists>rest. recv_array bytes = bytes @ NUL # rest"
  by (metis append_Nil2 diff_is_0_eq leD list.size(3) recv_array_def replicate_Suc zbuf_def not0_implies_Suc)

lemma last_content_type_clean: "\<forall>l \<in> set hs. clean l \<Longrightarrow> clean t \<Longrightarrow> clean (last_content_type t hs)"
proof (induction hs arbitrary: t)
  case (Cons l hs)
  have "clean (drop 14 l)" using Cons.prems(1) by (auto simp: clean_def dest: in_set_dropD)
  then show ?case using Cons by (auto simp: content_type_of_def)
qed simp

lemma request_parsed:
  assumes "request_wf verb path version hs body"
  shows "\<exists>h. get_input_http_info (recv_array (request_text verb path version hs body)) no_info = Some (Inr h)
    \<and> holds (h_content h) 1024 body \<and> holds (h_header h) 256 version
    \<and> holds (h_content_type h) 256 (last_content_type '''' hs)"
proof -
  obtain rest where r: "recv_array (request_text verb path version hs body) = request_text verb path version hs body @ NUL # rest"
    using recv_array_NUL assms by (auto simp: request_wf_def)
  have "CHR ''/'' \<noteq> NUL" "CHR ''/'' \<noteq> CR" by (simp_all add: NUL_def CR_def)
  moreover have "last_content_type t (ls @ ['''']) = last_content_type t ls" for t ls
    by (induction ls arbitrary: t) (simp_all add: content_type_of_def)
  ultimately have "\<exists>h. get_input_http_info (request_text verb path version hs body @ NUL # rest) no_info = Some (Inr h)
    \<and> holds (h_content h) 1024 body \<and> holds (h_header h) 256 version \<and> holds (h_content_type h) 256 (last_content_type '''' hs)"
    using get_input_message [of verb path version body "CHR ''/''" "hs @ ['''']" rest] assms
    by (simp add: request_wf_def request_text_def) blast
  then show ?thesis unfolding r .
qed

text \<open>A complete JSON request.\<close>

definition json_request ::
    "'j cjson \<Rightarrow> string \<Rightarrow> string \<Rightarrow> string \<Rightarrow> string \<Rightarrow> string \<Rightarrow> string list \<Rightarrow> bool" where
  "json_request c info ip port meth outname paths \<longleftrightarrow>
     (\<exists>j i1 i2 i3 i4 a. Parse c info = Some j
       \<and> GetObjectItem c j ''data_server_ip'' = Some i1 \<and> valuestring c i1 = Some ip \<and> NUL \<notin> set ip \<and> length ip < 32
       \<and> GetObjectItem c j ''data_server_port'' = Some i2 \<and> valuestring c i2 = Some port \<and> NUL \<notin> set port \<and> length port < 16
       \<and> GetObjectItem c j ''data_server_method'' = Some i3 \<and> valuestring c i3 = Some meth \<and> NUL \<notin> set meth \<and> length meth < 128
       \<and> GetObjectItem c j ''output_file_name'' = Some i4 \<and> valuestring c i4 = Some outname \<and> NUL \<notin> set outname \<and> length outname < 1024
       \<and> GetObjectItem c j ''file_name_total'' = Some a \<and> GetArraySize c a = length paths
       \<and> (\<forall>i < length paths. file_path_at c a i = Some (paths ! i)))"

lemma json_request_read:
  assumes "json_request c info ip port meth outname paths" "server_wf server"
  shows "\<exists>q. get_json_need_xor_file_info c info server [] (zbuf 1024) = Inr (RIGHT, q)
    \<and> holds (data_server_ip (q_server q)) 32 ip \<and> holds (data_server_port (q_server q)) 16 port
    \<and> holds (data_server_method (q_server q)) 128 meth \<and> holds (q_output q) 1024 outname \<and> q_files q = paths"
proof -
  have "length (zbuf 1024) = 1024" by simp
  then show ?thesis
    using assms request_reads [of c info _ server "zbuf 1024" _ ip _ port _ meth _ outname _ "\<lambda>i. paths ! i" "[]"]
    unfolding json_request_def by (fastforce simp: map_nth)
qed

lemma http_request_parsed:
  assumes "request_wf verb path version hs body" "server_wf server"
    and "json_request (json_library env) body ip port meth outname paths"
  shows "\<exists>h q. parse_http env server (recv_array (request_text verb path version hs body)) = Some (Inr (h, RIGHT, q))
    \<and> holds (h_header h) 256 version \<and> holds (h_content_type h) 256 (last_content_type '''' hs)
    \<and> holds (data_server_ip (q_server q)) 32 ip \<and> holds (data_server_port (q_server q)) 16 port
    \<and> holds (data_server_method (q_server q)) 128 meth \<and> holds (q_output q) 1024 outname \<and> q_files q = paths"
proof -
  obtain h where h: "get_input_http_info (recv_array (request_text verb path version hs body)) no_info = Some (Inr h)"
      "holds (h_content h) 1024 body" "holds (h_header h) 256 version" "holds (h_content_type h) 256 (last_content_type '''' hs)"
    using request_parsed [OF assms(1)] by blast
  show ?thesis using h json_request_read [OF assms(3,2)] by (auto simp: parse_http_def holds_read)
qed

lemma request_answer:
  assumes "request_wf verb path version hs body" "answers env" "\<bar>ret\<bar> < 10 ^ 3"
    and "holds (h_header h) 256 version" "holds (h_content_type h) 256 (last_content_type '''' hs)"
  shows "answer_client env ret h = Some (Inr (answer_text env ret version (last_content_type '''' hs)))"
proof -
  have "clean version" "clean (last_content_type '''' hs)"
    using assms(1) last_content_type_clean [of hs "''''"] by (auto simp: request_wf_def)
  then show ?thesis using answer_client_text [OF assms(2,4,5)] assms(3) by blast
qed

subsection \<open>Properties\<close>

text \<open>C2. A request for files of this machine, from its bytes to its answer: a well-formed request whose address
  is this machine's, for a group of files of one length (the first without a byte 0xFF behind its whole words),
  writes the parity of the files to the output file, leaves no stream open, and is answered with code 0, the
  version and the content type of the request.\<close>

theorem local_request_answered:
  assumes "request_wf verb path version hs body" "server_wf server" "answers env"
    and "json_request (json_library env) body (local_addr env) port meth outname paths"
    and "group_files (disk env) paths fs n" "same_length n fs" "no_ff_tail (hd fs)"
    and "fopen_w (disk env) (out_path outname) = Some r" "n \<le> r"
  shows "\<exists>o'. handle_http env server (recv_array (request_text verb path version hs body)) = Some (Inr o')
    \<and> ret_code o' = RIGHT \<and> sent o' = answer_text env RIGHT version (last_content_type '''' hs)
    \<and> local_result o' = Some \<lparr>code = RIGHT, produced = Some (out_path outname, \<lparr>written = parity fs, room = r - n\<rparr>), left_open = 0\<rparr>"
proof -
  obtain h q where p: "parse_http env server (recv_array (request_text verb path version hs body)) = Some (Inr (h, RIGHT, q))"
      "holds (h_header h) 256 version" "holds (h_content_type h) 256 (last_content_type '''' hs)"
      "holds (data_server_ip (q_server q)) 32 (local_addr env)" "holds (q_output q) 1024 outname" "q_files q = paths"
    using http_request_parsed [OF assms(1,2,4)] by blast
  have "answer_client env RIGHT h = Some (Inr (answer_text env RIGHT version (last_content_type '''' hs)))"
    by (rule request_answer [OF assms(1,3) _ p(2,3)]) (simp add: RIGHT_def)
  then show ?thesis
    using open_file_right [OF assms(5-9)] p
    by (simp add: handle_http_def serve_http_def local_request_def holds_read RIGHT_def)
qed

lemma nonlocal_answer:
  assumes "request_wf verb path version hs body" "server_wf server" "answers env"
    and "json_request (json_library env) body ip port meth outname paths" "ip \<noteq> local_addr env"
    and "\<forall>f \<in> set paths. NUL \<notin> set f" "length (nonlocal_content paths) < BUF_MAX"
    and "answer (post_file_server env (ip @ '':'' @ port @ ''/'' @ meth) (nonlocal_content paths)) = Some resp"
    and "NUL \<notin> set (resp_body resp)" "length (resp_body resp) < BUF_MAX"
    and "get_json_nonlocal_file_attribute_info (json_library env) (resp_body resp) 0 = Inr (RIGHT, fsize)"
    and "create_client_connect_data_server (group_os env) (judge_threads env) fsize paths outname = Some (Inr (ret, g))"
    and "\<bar>ret\<bar> < 10 ^ 3"
  shows "\<exists>o'. handle_http env server (recv_array (request_text verb path version hs body)) = Some (Inr o')
    \<and> ret_code o' = ret \<and> sent o' = answer_text env ret version (last_content_type '''' hs) \<and> local_result o' = None"
proof -
  obtain h q where p: "parse_http env server (recv_array (request_text verb path version hs body)) = Some (Inr (h, RIGHT, q))"
      "holds (h_header h) 256 version" "holds (h_content_type h) 256 (last_content_type '''' hs)"
      "holds (data_server_ip (q_server q)) 32 ip" "holds (data_server_port (q_server q)) 16 port"
      "holds (data_server_method (q_server q)) 128 meth" "holds (q_output q) 1024 outname" "q_files q = paths"
    using http_request_parsed [OF assms(1,2,4)] by blast
  obtain b where b: "strcpy (zbuf BUF_MAX) (resp_body resp) = Inr b" "holds b BUF_MAX (resp_body resp)"
    using strcpy_holds [of "zbuf BUF_MAX" BUF_MAX "resp_body resp"] assms(9,10) by auto
  have "cstr (resp_body resp @ [NUL]) = resp_body resp" using assms(9) by (rule cstr_append_NUL)
  then have "send_file_name_main (post_file_server env) paths (q_server q) (zbuf BUF_MAX) = Inr (RIGHT, b)"
    using send_file_name_result [OF p(4-6) assms(6,7), of "post_file_server env"] assms(8) b(1) by simp
  then have "nonlocal_request env (q_server q) RIGHT q = Some (Inr (ret, Some g))"
    using assms(11,12) b(2) p(7,8) by (simp add: nonlocal_request_def holds_read RIGHT_def)
  moreover have "answer_client env ret h = Some (Inr (answer_text env ret version (last_content_type '''' hs)))"
    by (rule request_answer [OF assms(1,3,13) p(2,3)])
  ultimately show ?thesis
    using p assms(5) by (simp add: handle_http_def serve_http_def holds_read)
qed

text \<open>A request for files of a data server: the server asks it for the sizes of the files, fetches and XORs
  them, and answers with the code the fetching ends with.\<close>

theorem nonlocal_request_answered:
  assumes "request_wf verb path version hs body" "server_wf server" "answers env"
    and "json_request (json_library env) body ip port meth outname paths" "ip \<noteq> local_addr env"
    and "\<forall>f \<in> set paths. NUL \<notin> set f" "length (nonlocal_content paths) < BUF_MAX"
    and "answer (post_file_server env (ip @ '':'' @ port @ ''/'' @ meth) (nonlocal_content paths)) = Some resp"
    and "NUL \<notin> set (resp_body resp)" "length (resp_body resp) < BUF_MAX"
    and "get_json_nonlocal_file_attribute_info (json_library env) (resp_body resp) 0 = Inr (RIGHT, fsize)"
    and "create_client_connect_data_server (group_os env) (judge_threads env) fsize paths outname = Some (Inr (ret, g))"
    and "\<bar>ret\<bar> < 10 ^ 3"
  shows "\<exists>o'. handle_http env server (recv_array (request_text verb path version hs body)) = Some (Inr o')
    \<and> ret_code o' = ret \<and> sent o' = answer_text env ret version (last_content_type '''' hs) \<and> local_result o' = None"
  by (rule nonlocal_answer [OF assms])

text \<open>A request whose body is no JSON is answered with ERROR_CJSON_PARSE, opens no file, contacts nobody and
  leaves the address of the data server as it was.\<close>

theorem unparsed_request_answered:
  assumes "request_wf verb path version hs body" "server_wf server" "answers env" "Parse (json_library env) body = None"
  shows "handle_http env server (recv_array (request_text verb path version hs body)) = Some (Inr
    \<lparr>ret_code = ERROR_CJSON_PARSE, data_server = server, local_result = None, group_result = None,
     sent = answer_text env ERROR_CJSON_PARSE version (last_content_type '''' hs)\<rparr>)"
proof -
  obtain h where h: "get_input_http_info (recv_array (request_text verb path version hs body)) no_info = Some (Inr h)"
      "holds (h_content h) 1024 body" "holds (h_header h) 256 version" "holds (h_content_type h) 256 (last_content_type '''' hs)"
    using request_parsed [OF assms(1)] by blast
  obtain ip where ip: "holds (data_server_ip server) 32 ip" using assms(2) by (auto simp: server_wf_def)
  have "answer_client env ERROR_CJSON_PARSE h = Some (Inr (answer_text env ERROR_CJSON_PARSE version (last_content_type '''' hs)))"
    by (rule request_answer [OF assms(1,3) _ h(3,4)]) (simp add: codes)
  then show ?thesis
    using h ip assms(4)
    by (simp add: handle_http_def parse_http_def serve_http_def local_request_def nonlocal_request_def
        get_json_need_xor_file_info_def holds_read codes)
qed

lemma event_loop_actions:
  assumes "event_loop env server sock (new_client c (Some ev) b) rs = Some (Inr (sv, acts, ended))"
  shows "\<exists>texts. acts = map (SentTo c) texts @ (if ended then [EventDel ev, LoopExit b, FreeEvent ev, FreeClient, CloseFd sock] else [])
    \<and> (ended \<longleftrightarrow> (\<exists>r \<in> set rs. read_ret r \<le> 0))"
  using assms
proof (induction rs arbitrary: server acts)
  case (Cons r rs)
  let ?cl = "new_client c (Some ev) b" and ?bye = "[EventDel ev, LoopExit b, FreeEvent ev, FreeClient, CloseFd sock]"
  show ?case
  proof (cases "read_ret r \<le> 0")
    case True
    then have "acts = ?bye" "ended" using Cons.prems by (simp_all add: buffered_on_read_def drop_client_def new_client_def Let_def)
    then show ?thesis using True by (intro exI [of _ "[]"]) simp
  next
    case False
    obtain sv1 acts1 where one: "buffered_on_read env server sock (Some ?cl) r = Some (Inr (sv1, acts1, False))"
        "acts1 \<in> insert [] (range (\<lambda>t. [SentTo c t]))"
      using Cons.prems False
      by (auto simp: buffered_on_read_def new_client_def Let_def bindP_def split: option.splits sum.splits if_splits)
    obtain acts2 where two: "event_loop env sv1 sock ?cl rs = Some (Inr (sv, acts2, ended))" "acts = acts1 @ acts2"
      using Cons.prems one(1) by (auto simp: bindP_def split: option.splits sum.splits)
    obtain texts where t: "acts2 = map (SentTo c) texts @ (if ended then ?bye else [])"
      and e: "ended \<longleftrightarrow> (\<exists>r \<in> set rs. read_ret r \<le> 0)"
      using Cons.IH [OF two(1)] by blast
    have "acts1 = map (SentTo c) [] \<or> (\<exists>s. acts1 = map (SentTo c) [s])" using one(2) by auto
    then obtain texts1 where "acts1 = map (SentTo c) texts1" by blast
    then have "acts = map (SentTo c) (texts1 @ texts) @ (if ended then ?bye else [])"
      unfolding two(2) t by (simp only: map_append append_assoc)
    moreover have "(\<exists>x \<in> set (r # rs). read_ret x \<le> 0) \<longleftrightarrow> (\<exists>x \<in> set rs. read_ret x \<le> 0)" using False by simp
    ultimately show ?thesis using e by blast
  qed
qed simp

text \<open>C29. The life of a client: its thread only sends answers to it until an empty or failed read; then the event
  is removed, the loop left, the event and the client are freed and the socket is closed, each once and in this
  order, and nothing follows, whatever else arrives.\<close>

theorem client_released_once:
  assumes "0 \<le> c" "c < 2 ^ 31" "setfl_ret os \<noteq> -1" "calloc_ok os"
    and "process_in_new_thread_when_accepted os env server c rs = Some (Inr (sv, acts, ended))"
  shows "\<exists>ev texts. event_new os = Some ev
    \<and> acts = map (SentTo c) texts
        @ (if ended then [EventDel ev, LoopExit (base_new os), FreeEvent ev, FreeClient, CloseFd c] else [])
    \<and> (ended \<longleftrightarrow> (\<exists>r \<in> set rs. read_ret r \<le> 0))"
proof -
  have "to_int32 c = c" unfolding to_int32_def using assms(1,2) by (intro signed_take_bit_int_eq_self) simp_all
  then have run: "process_in_new_thread_when_accepted os env server c rs =
      (if event_new os = None then Some (Inl NullDeref)
       else event_loop env server c (new_client c (event_new os) (base_new os)) rs)"
    using assms(1,3,4) by (simp add: process_in_new_thread_when_accepted_def setnonblocking_def Let_def)
  show ?thesis
  proof (cases "event_new os")
    case None
    then show ?thesis using run assms(5) by simp
  next
    case (Some ev)
    then have "event_loop env server c (new_client c (Some ev) (base_new os)) rs = Some (Inr (sv, acts, ended))"
      using run assms(5) by simp
    from event_loop_actions [OF this] show ?thesis using Some by blast
  qed
qed

lemma client_run_append:
  "client_run env ls cs = Some (Inr cs2) \<Longrightarrow> client_run env (ls @ ms) cs = client_run env ms cs2"
  by (induction ls arbitrary: cs) (auto simp: bindP_Inr_iff)

lemma client_exec_other:
  "client_exec env l cs = Some (Inr cs') \<Longrightarrow> label_client l \<noteq> c \<Longrightarrow> parsed cs' c = parsed cs c"
  by (cases l) (auto simp: client_exec_def bindP_Inr_iff split: option.splits)

lemma client_run_other:
  "client_run env ls cs = Some (Inr cs') \<Longrightarrow> \<forall>l \<in> set ls. label_client l \<noteq> c \<Longrightarrow> parsed cs' c = parsed cs c"
proof (induction ls arbitrary: cs)
  case (Cons l ls)
  then obtain cs1 where "client_exec env l cs = Some (Inr cs1)" "client_run env ls cs1 = Some (Inr cs')"
    by (auto simp: bindP_Inr_iff)
  then show ?case using Cons client_exec_other [of env l cs cs1 c] by simp
qed simp

text \<open>A client without others beside it is answered as \<open>handle_http\<close> says.\<close>

lemma client_alone:
  assumes "handle_http env (address cs) recvbuf = Some (Inr o')"
  shows "\<exists>cs'. client_run env [Parses c recvbuf, Serves c] cs = Some (Inr cs') \<and> served cs' c = Some o'"
  using assms by (auto simp: handle_http_def client_exec_def bindP_Inr_iff)

text \<open>C30. Two clients share the address of the data server. A well-formed request for files of this machine is answered
  with success and the parity of its files when its thread runs alone; when, after it has been parsed, other clients
  run and the last of them is parsed with the address of a data server (which does not know the files), the first
  client's files are not opened at all: it is answered that the other's data server could not be asked for them.\<close>

theorem requests_share_address:
  assumes "request_wf verb path version hs body" "server_wf (address cs)" "answers env" "a \<noteq> b"
    and "json_request (json_library env) body (local_addr env) port meth outname paths"
    and "group_files (disk env) paths fs n" "same_length n fs" "no_ff_tail (hd fs)"
    and "fopen_w (disk env) (out_path outname) = Some r" "n \<le> r"
    and "client_run env (Parses a (recv_array (request_text verb path version hs body)) # others) cs = Some (Inr cs2)"
    and "\<forall>l \<in> set others. label_client l \<noteq> a" "server_wf (address cs2)"
    and "request_wf verb2 path2 version2 hs2 body2"
    and "json_request (json_library env) body2 ip2 port2 meth2 outname2 paths2" "ip2 \<noteq> local_addr env"
    and "\<forall>p \<in> set paths. NUL \<notin> set p" "length (nonlocal_content paths) < BUF_MAX"
    and "answer (post_file_server env (ip2 @ '':'' @ port2 @ ''/'' @ meth2) (nonlocal_content paths)) = None"
  shows "(\<exists>cs' o'. client_run env [Parses a (recv_array (request_text verb path version hs body)), Serves a] cs = Some (Inr cs')
        \<and> served cs' a = Some o' \<and> ret_code o' = RIGHT
        \<and> local_result o' = Some \<lparr>code = RIGHT, produced = Some (out_path outname, \<lparr>written = parity fs, room = r - n\<rparr>), left_open = 0\<rparr>)
    \<and> (\<exists>cs' o'. client_run env (Parses a (recv_array (request_text verb path version hs body)) # others
              @ [Parses b (recv_array (request_text verb2 path2 version2 hs2 body2)), Serves a]) cs = Some (Inr cs')
        \<and> served cs' a = Some o' \<and> ret_code o' = ERROR_SEND_FILE_NAME_CLIENT \<and> local_result o' = None
        \<and> sent o' = answer_text env ERROR_SEND_FILE_NAME_CLIENT version (last_content_type '''' hs))"
proof
  let ?A = "recv_array (request_text verb path version hs body)" and ?B = "recv_array (request_text verb2 path2 version2 hs2 body2)"
  obtain h q where p: "parse_http env (address cs) ?A = Some (Inr (h, RIGHT, q))"
      "holds (h_header h) 256 version" "holds (h_content_type h) 256 (last_content_type '''' hs)"
      "holds (data_server_ip (q_server q)) 32 (local_addr env)" "holds (q_output q) 1024 outname" "q_files q = paths"
    using http_request_parsed [OF assms(1,2,5)] by blast
  have ans: "answer_client env ret h = Some (Inr (answer_text env ret version (last_content_type '''' hs)))"
    if "\<bar>ret\<bar> < 10 ^ 3" for ret
    by (rule request_answer [OF assms(1,3) that p(2,3)])
  have "\<exists>o'. handle_http env (address cs) ?A = Some (Inr o') \<and> ret_code o' = RIGHT
      \<and> local_result o' = Some \<lparr>code = RIGHT, produced = Some (out_path outname, \<lparr>written = parity fs, room = r - n\<rparr>), left_open = 0\<rparr>"
    using open_file_right [OF assms(6-10)] p ans [of RIGHT]
    by (simp add: handle_http_def serve_http_def local_request_def holds_read RIGHT_def)
  then show "\<exists>cs' o'. client_run env [Parses a ?A, Serves a] cs = Some (Inr cs') \<and> served cs' a = Some o' \<and> ret_code o' = RIGHT
      \<and> local_result o' = Some \<lparr>code = RIGHT, produced = Some (out_path outname, \<lparr>written = parity fs, room = r - n\<rparr>), left_open = 0\<rparr>"
    using client_alone by blast
  obtain h2 q2 where p2: "parse_http env (address cs2) ?B = Some (Inr (h2, RIGHT, q2))"
      "holds (data_server_ip (q_server q2)) 32 ip2" "holds (data_server_port (q_server q2)) 16 port2"
      "holds (data_server_method (q_server q2)) 128 meth2"
    using http_request_parsed [OF assms(14,13,15)] by blast
  have "nonlocal_request env (q_server q2) RIGHT q = Some (Inr (ERROR_SEND_FILE_NAME_CLIENT, None))"
    using send_file_name_result [OF p2(2-4) assms(17,18), of "post_file_server env"] assms(19) p(6)
    by (simp add: nonlocal_request_def codes)
  then obtain o' where o: "serve_http env (q_server q2) (h, RIGHT, q) = Some (Inr o')" "ret_code o' = ERROR_SEND_FILE_NAME_CLIENT"
      "local_result o' = None" "sent o' = answer_text env ERROR_SEND_FILE_NAME_CLIENT version (last_content_type '''' hs)"
    using ans [of ERROR_SEND_FILE_NAME_CLIENT] p2(2) assms(16) by (simp add: serve_http_def holds_read codes)
  let ?cs1 = "cs\<lparr>address := q_server q, parsed := (parsed cs)(a \<mapsto> (h, RIGHT, q))\<rparr>"
  have "client_run env others ?cs1 = Some (Inr cs2)" using assms(11) p(1) by (simp add: client_exec_def)
  from client_run_other [OF this assms(12)] have wait: "parsed cs2 a = Some (h, RIGHT, q)" by simp
  have "client_run env ((Parses a ?A # others) @ [Parses b ?B, Serves a]) cs = client_run env [Parses b ?B, Serves a] cs2"
    by (rule client_run_append [OF assms(11)])
  moreover have "\<exists>cs'. client_run env [Parses b ?B, Serves a] cs2 = Some (Inr cs') \<and> served cs' a = Some o'"
    using p2(1) wait o(1) assms(4) by (simp add: client_exec_def)
  ultimately show "\<exists>cs' o'. client_run env (Parses a ?A # others @ [Parses b ?B, Serves a]) cs = Some (Inr cs')
      \<and> served cs' a = Some o' \<and> ret_code o' = ERROR_SEND_FILE_NAME_CLIENT \<and> local_result o' = None
      \<and> sent o' = answer_text env ERROR_SEND_FILE_NAME_CLIENT version (last_content_type '''' hs)"
    using o(2-4) by auto
qed

text \<open>A request that fills the buffer leaves no room for the terminating NUL.\<close>

theorem full_buffer_overread:
  "length bytes = BUF_MAX \<Longrightarrow> NUL \<notin> set bytes \<Longrightarrow> handle_http env server (recv_array bytes) = Some (Inl OutOfBounds)"
  by (simp add: handle_http_def parse_http_def get_input_http_info_def recv_array_def read_cstr_def zbuf_def)

text \<open>When the thread of a client cannot be created, its socket stays open and a thread that does not exist is
  detached.\<close>

theorem on_accept_without_thread:
  assumes "0 \<le> c" "length ip < 64" "NUL \<notin> set ip" "err \<noteq> 0"
  shows "\<exists>acts. on_accept c ip err = Inr (acts @ [DetachThread False]) \<and> (\<forall>x. StartThread x \<notin> set acts)"
proof -
  obtain b where "strcpy (zbuf 64) ip = Inr b" "holds b 64 ip" using strcpy_holds [of "zbuf 64" 64 ip] assms by auto
  then show ?thesis using assms by (simp add: on_accept_def holds_read)
qed

text \<open>\<open>main\<close> listens and dispatches exactly if the three calls succeed; the option SO_LINGER is always passed
  with the size of an \<open>int\<close>, which is half of a \<open>struct linger\<close>.\<close>

theorem main_verdict:
  "\<exists>acts f'. main os argv0 f = Inr
    (if socket_ret os = -1 then - CLIENTSOCKETFAILED
     else if bind_ret os = -1 \<or> listen_ret os = -1 then - CONNECTSERVERFAILED else RIGHT, acts, f')
    \<and> (Dispatch (socket_ret os) \<in> set acts \<longleftrightarrow> socket_ret os \<noteq> -1 \<and> bind_ret os \<noteq> -1 \<and> listen_ret os \<noteq> -1)
    \<and> (\<forall>s v n. SetSockOpt s SO_LINGER v n \<in> set acts \<longrightarrow> n = 4)"
proof -
  have "\<exists>f'. log_info_init argv0 ''123'' f = Inr f'"
    by (simp add: log_info_init_def set_destination_def strcpy_def read_cstr_def zbuf_def Let_def)
  then show ?thesis by (auto simp: main_def socket_options_def signal_table_def Let_def)
qed

subsection \<open>The properties at work\<close>

definition request_json :: "string \<Rightarrow> json" where
  "request_json ip = JObj [(''data_server_ip'', JStr ip), (''data_server_port'', JStr ''99''),
     (''data_server_method'', JStr ''size''), (''output_file_name'', JStr ''o''),
     (''file_name_total'', JArr [JObj [(''file_path'', JStr ''a'')], JObj [(''file_path'', JStr ''b'')]])]"

definition demo_parse :: "string \<Rightarrow> json option" where
  "demo_parse s = (if s = ''L'' then Some (request_json ''10.0.0.1'') else if s = ''R'' then Some (request_json ''10.0.0.2'')
     else if s = ''S'' then Some (JObj [(''file_total_size'', JStr ''5'')]) else None)"

definition demo_env :: "json server_env" where
  "demo_env = \<lparr>json_library = json_lib demo_parse, disk = demo_os,
     post_file_server = (\<lambda>_ _ _. \<lparr>resp_code = 200, resp_body = ''S''\<rparr>),
     group_os = \<lparr>fopen_out = (\<lambda>_. None), malloc_arg = (\<lambda>_. True), pthread_create_ret = (\<lambda>_. 0)\<rparr>,
     judge_threads = (\<lambda>_ _. None), last_errno = 2, errno_text = ''No such file or directory'', time_text = ''Mon'' @ [LF],
     socket_write = (\<lambda>i n. (max 1 n, 0)), local_addr = ''10.0.0.1''\<rparr>"

lemma demo_env_answers: "answers demo_env"
proof -
  have "\<exists>day. ''Mon'' @ [LF] = day @ [LF] \<and> clean day \<and> length day < 200"
    by (rule exI [of _ "''Mon''"]) (simp add: clean_def NUL_def CR_def)
  then show ?thesis by (simp add: answers_def demo_env_def clean_def NUL_def CR_def write_ok_def less_max_iff_disj)
qed

lemma demo_request_wf: "c \<noteq> NUL \<Longrightarrow> c \<noteq> CR \<Longrightarrow> request_wf ''POST'' ''xor'' ''HTTP/1.1'' [] [c]"
  by (simp add: request_wf_def request_text_def BUF_MAX_def CRLF_def) (simp add: NUL_def CR_def)

lemma demo_letters: "CHR ''L'' \<noteq> NUL" "CHR ''L'' \<noteq> CR" "CHR ''R'' \<noteq> NUL" "CHR ''R'' \<noteq> CR" "CHR ''x'' \<noteq> NUL" "CHR ''x'' \<noteq> CR"
  by (simp_all add: NUL_def CR_def)

lemma demo_json:
  assumes "demo_parse s = Some (request_json ip)" "NUL \<notin> set ip" "length ip < 32"
  shows "json_request (json_library demo_env) s ip ''99'' ''size'' ''o'' [''a'', ''b'']"
proof -
  let ?c = "json_library demo_env"
  let ?a = "JArr [JObj [(''file_path'', JStr ''a'')], JObj [(''file_path'', JStr ''b'')]]"
  have n: "NUL \<notin> set ''99''" "NUL \<notin> set ''size''" "NUL \<notin> set ''o''" by (simp_all add: NUL_def)
  have "Parse ?c s = Some (request_json ip)" using assms(1) by (simp add: demo_env_def json_lib_def)
  moreover have "GetObjectItem ?c (request_json ip) ''data_server_ip'' = Some (JStr ip)"
      "GetObjectItem ?c (request_json ip) ''data_server_port'' = Some (JStr ''99'')"
      "GetObjectItem ?c (request_json ip) ''data_server_method'' = Some (JStr ''size'')"
      "GetObjectItem ?c (request_json ip) ''output_file_name'' = Some (JStr ''o'')"
      "GetObjectItem ?c (request_json ip) ''file_name_total'' = Some ?a"
    by (simp_all add: demo_env_def json_lib_def request_json_def)
  moreover have "valuestring ?c (JStr t) = Some t" for t by (simp add: demo_env_def json_lib_def)
  moreover have "GetArraySize ?c ?a = length [''a'', ''b'']" by (simp add: demo_env_def json_lib_def)
  moreover have "\<forall>i < length [''a'', ''b'']. file_path_at ?c ?a i = Some ([''a'', ''b''] ! i)"
    by (auto simp: less_Suc_eq file_path_at_def item_of_def json_lib_def demo_env_def)
  moreover have "length ''99'' < 16" "length ''size'' < 128" "length ''o'' < 1024" by simp_all
  ultimately show ?thesis using assms(2,3) n unfolding json_request_def by blast
qed

lemma demo_local: "json_request (json_library demo_env) ''L'' ''10.0.0.1'' ''99'' ''size'' ''o'' [''a'', ''b'']"
  by (rule demo_json) (simp_all add: demo_parse_def NUL_def)

lemma demo_remote: "json_request (json_library demo_env) ''R'' ''10.0.0.2'' ''99'' ''size'' ''o'' [''a'', ''b'']"
  by (rule demo_json) (simp_all add: demo_parse_def NUL_def)

theorem local_request_answered_witness:
  "\<exists>o'. handle_http demo_env no_data_server (recv_array (request_text ''POST'' ''xor'' ''HTTP/1.1'' [] ''L'')) = Some (Inr o')
    \<and> local_result o' = Some \<lparr>code = RIGHT, produced = Some (''/home/file/o'', \<lparr>written = [7, 5, 11, 13, 250], room = 95\<rparr>), left_open = 0\<rparr>"
proof -
  have "json_request (json_library demo_env) ''L'' (local_addr demo_env) ''99'' ''size'' ''o'' [''a'', ''b'']"
    using demo_local by (simp add: demo_env_def)
  moreover have "group_files (disk demo_env) [''a'', ''b''] [[1, 2, 3, 4, 5], [6, 7, 8, 9, 255]] 5"
    by (simp add: group_files_def demo_env_def demo_os_def MAX_FILE_NUM_def)
  moreover have "no_ff_tail (hd [[1, 2, 3, 4, 5], [6, 7, 8, 9, 255]])" by (simp add: no_ff_tail_def)
  moreover have "fopen_w (disk demo_env) (out_path ''o'') = Some 100" by (simp add: demo_env_def demo_os_def)
  moreover have "parity [[1, 2, 3, 4, 5], [6, 7, 8, 9, 255]] = [7, 5, 11, 13, 250]" by (simp add: parity_def upt_conv_Cons)
  ultimately show ?thesis
    using local_request_answered [OF demo_request_wf [OF demo_letters(1,2)] no_data_server_wf demo_env_answers,
        of "''99''" "''size''" "''o''" "[''a'', ''b'']" "[[1, 2, 3, 4, 5], [6, 7, 8, 9, 255]]" 5 100]
    by (auto simp: out_path_def)
qed

lemma demo_size: "get_json_nonlocal_file_attribute_info (json_library demo_env) ''S'' 0 = Inr (RIGHT, 5)"
proof -
  have "atoi ''5'' = 5" by (simp add: atoi_def strtol_def to_int32_def is_space_def is_digit_def LONG_MAX_def LONG_MIN_def)
  then show ?thesis
    by (simp add: demo_env_def demo_parse_def json_lib_def get_json_nonlocal_file_attribute_info_def string_of_def)
qed

theorem nonlocal_request_answered_witness:
  "\<exists>o'. handle_http demo_env no_data_server (recv_array (request_text ''POST'' ''xor'' ''HTTP/1.1'' [] ''R'')) = Some (Inr o')
    \<and> ret_code o' = ERROR_CREAT_TRANSMISSION_DATA_CONNECTION
    \<and> sent o' = answer_text demo_env ERROR_CREAT_TRANSMISSION_DATA_CONNECTION ''HTTP/1.1'' ''''"
proof -
  have a: "answer (post_file_server demo_env (''10.0.0.2'' @ '':'' @ ''99'' @ ''/'' @ ''size'') (nonlocal_content [''a'', ''b'']))
      = Some \<lparr>resp_code = 200, resp_body = ''S''\<rparr>"
    by (simp add: demo_env_def answer_def)
  have names: "\<forall>p \<in> set [''a'', ''b'']. NUL \<notin> set p \<and> length p < 1024" by (simp add: NUL_def)
  obtain g where g: "group_init 5 [''a'', ''b''] = Inr g" using group_init_total [OF names] by auto
  have "NUL \<notin> set (''/home/file/'' @ ''o'')" by (simp add: NUL_def)
  then have c: "create_client_connect_data_server (group_os demo_env) (judge_threads demo_env) 5 [''a'', ''b''] ''o''
      = Some (Inr (ERROR_CREAT_TRANSMISSION_DATA_CONNECTION, [], g))"
    using g by (simp add: create_client_connect_data_server_def demo_env_def snprintf_def strcpy_def read_cstr_def cstr_append_NUL)
  have n: "\<forall>f \<in> set [''a'', ''b'']. NUL \<notin> set f" "length (nonlocal_content [''a'', ''b'']) < BUF_MAX" "''10.0.0.2'' \<noteq> local_addr demo_env"
      "NUL \<notin> set ''S''" "length ''S'' < BUF_MAX" "\<bar>ERROR_CREAT_TRANSMISSION_DATA_CONNECTION\<bar> < 10 ^ 3"
    by (simp_all add: nonlocal_content_def name_object_def QUOTE_def BUF_MAX_def demo_env_def codes) (simp_all add: NUL_def)
  show ?thesis
    using nonlocal_request_answered [OF demo_request_wf [OF demo_letters(3,4)] no_data_server_wf demo_env_answers demo_remote n(3,1,2) a _ _ _ c n(6)]
      demo_size n(4,5) by auto
qed

theorem unparsed_request_answered_witness:
  "\<exists>o'. handle_http demo_env no_data_server (recv_array (request_text ''POST'' ''xor'' ''HTTP/1.1'' [] ''x'')) = Some (Inr o')
    \<and> sent o' = answer_text demo_env ERROR_CJSON_PARSE ''HTTP/1.1'' ''''"
  using unparsed_request_answered [OF demo_request_wf [OF demo_letters(5,6)] no_data_server_wf demo_env_answers]
  by (simp add: demo_env_def json_lib_def demo_parse_def)

definition demo_client :: client_os where
  "demo_client = \<lparr>setfl_ret = 0, calloc_ok = True, event_new = Some 3, base_new = 4\<rparr>"

theorem client_released_once_witness:
  "\<exists>sv. process_in_new_thread_when_accepted demo_client demo_env no_data_server 8 [ReadBytes ''hello'', ReadBytes '''', ReadFailed]
      = Some (Inr (sv, [EventDel 3, LoopExit 4, FreeEvent 3, FreeClient, CloseFd 8], True))"
proof -
  obtain sv acts ended where run: "process_in_new_thread_when_accepted demo_client demo_env no_data_server 8
      [ReadBytes ''hello'', ReadBytes '''', ReadFailed] = Some (Inr (sv, acts, ended))" "length acts \<le> 5"
    by (simp add: process_in_new_thread_when_accepted_def demo_client_def setnonblocking_def to_int32_def Let_def
        buffered_on_read_def read_ret_def is_http_def new_client_def drop_client_def)
  then show ?thesis
    using client_released_once [OF _ _ _ _ run(1)] by (fastforce simp: demo_client_def read_ret_def)
qed

text \<open>The second client asks for a file server that answers with code 500.\<close>

definition busy_env :: "json server_env" where
  "busy_env = demo_env\<lparr>post_file_server := (\<lambda>_ _ _. \<lparr>resp_code = 500, resp_body = ''''\<rparr>)\<rparr>"

theorem requests_share_address_witness:
  "(\<exists>cs' o'. client_run busy_env [Parses 0 (recv_array (request_text ''POST'' ''xor'' ''HTTP/1.1'' [] ''L'')), Serves 0] no_clients = Some (Inr cs')
      \<and> served cs' 0 = Some o' \<and> ret_code o' = RIGHT)
    \<and> (\<exists>cs' o'. client_run busy_env [Parses 0 (recv_array (request_text ''POST'' ''xor'' ''HTTP/1.1'' [] ''L'')),
          Parses 1 (recv_array (request_text ''POST'' ''xor'' ''HTTP/1.1'' [] ''R'')), Serves 0] no_clients = Some (Inr cs')
      \<and> served cs' 0 = Some o' \<and> ret_code o' = ERROR_SEND_FILE_NAME_CLIENT \<and> local_result o' = None)"
proof -
  let ?L = "recv_array (request_text ''POST'' ''xor'' ''HTTP/1.1'' [] ''L'')"
  have lib: "json_library busy_env = json_library demo_env" "local_addr busy_env = ''10.0.0.1''" "disk busy_env = demo_os"
    by (simp_all add: busy_env_def demo_env_def)
  have ans: "answers busy_env" using demo_env_answers by (simp add: answers_def busy_env_def)
  have js: "json_request (json_library busy_env) ''L'' (local_addr busy_env) ''99'' ''size'' ''o'' [''a'', ''b'']"
      "json_request (json_library busy_env) ''R'' ''10.0.0.2'' ''99'' ''size'' ''o'' [''a'', ''b'']"
    unfolding lib(1,2) by (rule demo_local, rule demo_remote)
  have wf: "server_wf (address no_clients)" using no_data_server_wf by (simp add: no_clients_def)
  obtain h q where p: "parse_http busy_env no_data_server ?L = Some (Inr (h, RIGHT, q))"
      "holds (data_server_ip (q_server q)) 32 (local_addr busy_env)" "holds (data_server_port (q_server q)) 16 ''99''"
      "holds (data_server_method (q_server q)) 128 ''size''"
    using http_request_parsed [OF demo_request_wf [OF demo_letters(1,2)] no_data_server_wf js(1)] by blast
  let ?cs = "no_clients\<lparr>address := q_server q, parsed := (parsed no_clients)(0 \<mapsto> (h, RIGHT, q))\<rparr>"
  have one: "client_run busy_env [Parses 0 ?L] no_clients = Some (Inr ?cs)"
    using p(1) by (simp add: client_exec_def) (simp add: no_clients_def)
  have wf2: "server_wf (address ?cs)" using p(2-4) by (auto simp: server_wf_def)
  have g: "group_files (disk busy_env) [''a'', ''b''] [[1, 2, 3, 4, 5], [6, 7, 8, 9, 255]] 5"
    by (simp add: lib(3) group_files_def demo_os_def MAX_FILE_NUM_def)
  have n: "same_length 5 [[1, 2, 3, 4, 5], [6, 7, 8, 9, 255::byte]]" "no_ff_tail (hd [[1, 2, 3, 4, 5], [6, 7, 8, 9, 255]])"
      "fopen_w (disk busy_env) (out_path ''o'') = Some 100" "(5::nat) \<le> 100" "(0::nat) \<noteq> 1"
    by (simp_all add: no_ff_tail_def lib(3) demo_os_def)
  have t: "\<forall>f \<in> set [''a'', ''b'']. NUL \<notin> set f" "length (nonlocal_content [''a'', ''b'']) < BUF_MAX" "''10.0.0.2'' \<noteq> local_addr busy_env"
    by (simp_all add: nonlocal_content_def name_object_def QUOTE_def BUF_MAX_def NUL_def lib(2))
  have w: "answer (post_file_server busy_env (''10.0.0.2'' @ '':'' @ ''99'' @ ''/'' @ ''size'') (nonlocal_content [''a'', ''b''])) = None"
    by (simp add: busy_env_def answer_def)
  have "\<forall>l \<in> set []. label_client l \<noteq> 0" by simp
  from requests_share_address [OF demo_request_wf [OF demo_letters(1,2)] wf ans n(5) js(1) g n(1-4) one this wf2
      demo_request_wf [OF demo_letters(3,4)] js(2) t(3,1,2) w]
  show ?thesis by (simp only: append_Nil) blast
qed

end
