(* ===== verification/PlogUtil.thy ===== *)
theory PlogUtil
  imports CString
begin

text \<open>
  The logging library \<open>plog\<close> that the repository carries in source form, \<open>src/include/plog\<close>: the severities
  (\<open>Severity.h\<close>) and the helpers of \<open>Util.h\<close>, in the build for Linux: names of functions and files, the log
  file, the mutex and the singleton.

  A file system maps names to contents; an open file is the name it was opened under and the offset of its
  descriptor. \<open>size_t\<close> is a natural number below \<open>2 ^ 64\<close>, its greatest value stands for -1.
\<close>

subsection \<open>\<open>Severity.h\<close>\<close>

datatype Severity = none | fatal | error | warning | info | debug | verbose

fun severity_code :: "Severity \<Rightarrow> nat" where
  "severity_code none = 0"
| "severity_code fatal = 1"
| "severity_code error = 2"
| "severity_code warning = 3"
| "severity_code info = 4"
| "severity_code debug = 5"
| "severity_code verbose = 6"

lemma severity_code_inj: "severity_code s = severity_code t \<Longrightarrow> s = t"
  by (cases s; cases t) simp_all

text \<open>The enumeration is compared as its numbers.\<close>

instantiation Severity :: linorder
begin

definition less_eq_Severity :: "Severity \<Rightarrow> Severity \<Rightarrow> bool" where
  "s \<le> t \<longleftrightarrow> severity_code s \<le> severity_code t"

definition less_Severity :: "Severity \<Rightarrow> Severity \<Rightarrow> bool" where
  "s < t \<longleftrightarrow> severity_code s < severity_code t"

instance
  by standard (auto simp: less_eq_Severity_def less_Severity_def intro: severity_code_inj)

end

fun severityToString :: "Severity \<Rightarrow> string" where
  "severityToString fatal = ''FATAL''"
| "severityToString error = ''ERROR''"
| "severityToString warning = ''WARN''"
| "severityToString info = ''INFO''"
| "severityToString debug = ''DEBUG''"
| "severityToString verbose = ''VERB''"
| "severityToString none = ''NONE''"

definition toupper :: "char \<Rightarrow> char" where
  "toupper c = (let n = of_char c :: nat in if 97 \<le> n \<and> n \<le> 122 then char_of (n - 32) else c)"

text \<open>\<open>str[0]\<close> of a C string, which is NUL where the string is empty.\<close>

definition severityFromString :: "string \<Rightarrow> Severity" where
  "severityFromString str =
     (let c = toupper (case str of [] \<Rightarrow> NUL | x # _ \<Rightarrow> x)
      in if c = CHR ''F'' then fatal
         else if c = CHR ''E'' then error
         else if c = CHR ''W'' then warning
         else if c = CHR ''I'' then info
         else if c = CHR ''D'' then debug
         else if c = CHR ''V'' then verbose
         else none)"

subsection \<open>Names\<close>

text \<open>\<open>gettimeofday\<close> as seconds and microseconds.\<close>

record Time =
  time :: int
  millitm :: nat

definition ftime :: "int \<times> nat \<Rightarrow> Time" where
  "ftime tv = \<lparr>time = fst tv, millitm = (snd tv div 1000) mod 2 ^ 16\<rparr>"

text \<open>The name of a function in \<open>__PRETTY_FUNCTION__\<close>: from behind the last blank before the first parenthesis
  up to that parenthesis.\<close>

definition processFuncName :: "string \<Rightarrow> string" where
  "processFuncName func =
     (if CHR ''('' \<in> set func
      then rev (takeWhile (\<lambda>c. c \<noteq> CHR '' '') (rev (takeWhile (\<lambda>c. c \<noteq> CHR ''('') func)))
      else func)"

definition findExtensionDot :: "string \<Rightarrow> string option" where
  "findExtensionDot fileName = strrchr fileName CHR ''.''"

definition splitFileName :: "string \<Rightarrow> string \<times> string" where
  "splitFileName fileName =
     (case findExtensionDot fileName of
        Some dot \<Rightarrow> (take (length fileName - length dot) fileName, tl dot)
      | None \<Rightarrow> (fileName, ''''))"

subsection \<open>\<open>File\<close>\<close>

definition SIZE_MAX :: nat where "SIZE_MAX = 2 ^ 64 - 1"

type_synonym fsys = "string \<Rightarrow> string option"

text \<open>\<open>open_ok\<close>: \<open>open\<close> succeeds; \<open>write_ret\<close>: the result of \<open>write\<close> for the number of bytes it is given.\<close>

record file_os =
  open_ok :: "string \<Rightarrow> bool"
  write_ret :: "nat \<Rightarrow> int"

text \<open>\<open>None\<close>: \<open>m_file\<close> is -1.\<close>

record File =
  m_file :: "string option"
  offset :: nat

definition no_file :: File where
  "no_file = \<lparr>m_file = None, offset = 0\<rparr>"

definition file_seek_end :: "File \<times> fsys \<Rightarrow> nat \<times> File \<times> fsys" where
  "file_seek_end st =
     (case m_file (fst st) of
        None \<Rightarrow> (SIZE_MAX, st)
      | Some name \<Rightarrow>
          let n = (case snd st name of None \<Rightarrow> 0 | Some c \<Rightarrow> length c)
          in (n, (fst st)\<lparr>offset := n\<rparr>, snd st))"

text \<open>Opening creates the file; a file that cannot be opened leaves -1. The file descriptor held before is lost.\<close>

definition file_open :: "file_os \<Rightarrow> string \<Rightarrow> File \<times> fsys \<Rightarrow> nat \<times> File \<times> fsys" where
  "file_open os name st =
     file_seek_end
       (if open_ok os name
        then (\<lparr>m_file = Some name, offset = 0\<rparr>, if snd st name = None then (snd st)(name \<mapsto> '''') else snd st)
        else (no_file, snd st))"

text \<open>The bytes at the offset are overwritten. The result of \<open>write\<close> is cast to \<open>size_t\<close>.\<close>

definition write_at :: "nat \<Rightarrow> string \<Rightarrow> string \<Rightarrow> string" where
  "write_at off buf c = take off (c @ zbuf (off - length c)) @ buf @ drop (off + length buf) c"

definition file_write :: "file_os \<Rightarrow> string \<Rightarrow> File \<times> fsys \<Rightarrow> nat \<times> File \<times> fsys" where
  "file_write os buf st =
     (case m_file (fst st) of
        None \<Rightarrow> (SIZE_MAX, st)
      | Some name \<Rightarrow>
          let r = write_ret os (length buf)
          in if r < 0 then (SIZE_MAX, st)
             else (nat r, (fst st)\<lparr>offset := offset (fst st) + nat r\<rparr>,
                   (snd st)(name := map_option (write_at (offset (fst st)) (take (nat r) buf)) (snd st name))))"

definition file_close :: "File \<times> fsys \<Rightarrow> File \<times> fsys" where
  "file_close st = ((fst st)\<lparr>m_file := None\<rparr>, snd st)"

definition file_unlink :: "string \<Rightarrow> fsys \<Rightarrow> fsys" where
  "file_unlink name fs = fs(name := None)"

definition file_rename :: "string \<Rightarrow> string \<Rightarrow> fsys \<Rightarrow> fsys" where
  "file_rename old new fs = (case fs old of None \<Rightarrow> fs | Some c \<Rightarrow> fs(old := None, new \<mapsto> c))"

subsection \<open>\<open>Mutex\<close>, \<open>MutexLock\<close>, \<open>Singleton\<close>\<close>

text \<open>The thread that holds the mutex. \<open>None\<close> of the option: the caller waits.\<close>

type_synonym mutex = "nat option"

definition mutex_init :: mutex where "mutex_init = None"

definition mutex_lock :: "nat \<Rightarrow> mutex \<Rightarrow> mutex option" where
  "mutex_lock t m = (case m of None \<Rightarrow> Some (Some t) | Some _ \<Rightarrow> None)"

definition mutex_unlock :: "mutex \<Rightarrow> mutex" where
  "mutex_unlock m = None"

text \<open>A block with a \<open>MutexLock\<close> at its start.\<close>

definition with_lock :: "nat \<Rightarrow> ('s \<Rightarrow> 's) \<Rightarrow> mutex \<times> 's \<Rightarrow> (mutex \<times> 's) option" where
  "with_lock t f st = (case mutex_lock t (fst st) of None \<Rightarrow> None | Some m \<Rightarrow> Some (mutex_unlock m, f (snd st)))"

text \<open>\<open>m_instance\<close>; the assertions as guards.\<close>

definition singleton_new :: "'a \<Rightarrow> 'a option \<Rightarrow> fault + 'a option" where
  "singleton_new this i = (if i = None then Inr (Some this) else Inl Aborted)"

definition singleton_delete :: "'a option \<Rightarrow> fault + 'a option" where
  "singleton_delete i = (if i \<noteq> None then Inr None else Inl Aborted)"

definition getInstance :: "'a option \<Rightarrow> 'a option" where
  "getInstance i = i"

end
