(* ===== verification/PlogFormat.thy ===== *)
theory PlogFormat
  imports PlogUtil
begin

text \<open>
  Log records and their text: \<open>Record.h\<close>, the formatters and the converters of \<open>src/include/plog\<close>, in the
  build for Linux. The calendar (\<open>localtime\<close>, \<open>gmtime\<close>), the thread id and the way a pointer is printed are
  parameters.
\<close>

subsection \<open>Records\<close>

record Record =
  m_time :: Time
  m_severity :: Severity
  m_tid :: nat
  m_object :: nat
  m_line :: nat
  m_message :: string
  m_func :: string
  m_file_name :: string
  m_instanceId :: int

definition new_record :: "Severity \<Rightarrow> string \<Rightarrow> nat \<Rightarrow> string \<Rightarrow> nat \<Rightarrow> int \<Rightarrow> nat \<Rightarrow> int \<times> nat \<Rightarrow> Record" where
  "new_record severity func line file_name object instanceId tid tv =
     \<lparr>m_time = ftime tv, m_severity = severity, m_tid = tid, m_object = object, m_line = line, m_message = '''',
      m_func = func, m_file_name = file_name, m_instanceId = instanceId\<rparr>"

text \<open>What is streamed into a record: a \<open>const char *\<close> (\<open>None\<close> for NULL), a \<open>std::string\<close>, a \<open>char\<close>, or a value
  the standard library prints.\<close>

datatype streamed = Pointer "string option" | StdString string | Char char | Printed string

definition stream_chars :: "string option \<Rightarrow> string" where
  "stream_chars data = (case data of None \<Rightarrow> ''(null)'' | Some s \<Rightarrow> s)"

definition streamed_text :: "streamed \<Rightarrow> string" where
  "streamed_text x =
     (case x of
        Pointer data \<Rightarrow> stream_chars data
      | StdString data \<Rightarrow> stream_chars (Some (cstr (data @ [NUL])))
      | Char data \<Rightarrow> stream_chars (Some (cstr [data, NUL]))
      | Printed s \<Rightarrow> s)"

definition stream :: "Record \<Rightarrow> streamed \<Rightarrow> Record" where
  "stream r x = r\<lparr>m_message := m_message r @ streamed_text x\<rparr>"

text \<open>\<open>vasprintf\<close> gives the formatted text, or \<open>None\<close> where it fails.\<close>

definition record_printf :: "Record \<Rightarrow> string option \<Rightarrow> Record" where
  "record_printf r str = stream r (Pointer str)"

definition getMessage :: "Record \<Rightarrow> string" where
  "getMessage r = cstr (m_message r @ [NUL])"

definition getFunc :: "Record \<Rightarrow> string" where
  "getFunc r = processFuncName (m_func r)"

subsection \<open>Formatters\<close>

text \<open>\<open>std::setw (n)\<close> with a fill character, to the left and, behind \<open>std::left\<close>, to the right.\<close>

definition setw :: "char \<Rightarrow> nat \<Rightarrow> string \<Rightarrow> string" where
  "setw fill n s = replicate (n - length s) fill @ s"

definition setw_left :: "char \<Rightarrow> nat \<Rightarrow> string \<Rightarrow> string" where
  "setw_left fill n s = s @ replicate (n - length s) fill"

record tm =
  tm_year :: int
  tm_mon :: int
  tm_mday :: int
  tm_hour :: int
  tm_min :: int
  tm_sec :: int

record clock =
  localtime :: "int \<Rightarrow> tm"
  gmtime :: "int \<Rightarrow> tm"
  pointer_text :: "nat \<Rightarrow> string"

definition calendar :: "clock \<Rightarrow> bool \<Rightarrow> Record \<Rightarrow> tm" where
  "calendar c useUtcTime r = (if useUtcTime then gmtime c else localtime c) (time (m_time r))"

definition date_text :: "char \<Rightarrow> tm \<Rightarrow> string" where
  "date_text sep t = fmt_d (tm_year t + 1900) @ [sep] @ setw CHR ''0'' 2 (fmt_d (tm_mon t + 1)) @ [sep]
     @ setw CHR ''0'' 2 (fmt_d (tm_mday t))"

definition time_of_day_text :: "tm \<Rightarrow> nat \<Rightarrow> string" where
  "time_of_day_text t ms = setw CHR ''0'' 2 (fmt_d (tm_hour t)) @ '':'' @ setw CHR ''0'' 2 (fmt_d (tm_min t)) @ '':''
     @ setw CHR ''0'' 2 (fmt_d (tm_sec t)) @ ''.'' @ setw CHR ''0'' 3 (dec ms)"

definition txt_header :: string where "txt_header = ''''"

definition txt_format :: "clock \<Rightarrow> bool \<Rightarrow> Record \<Rightarrow> string" where
  "txt_format c useUtcTime r =
     (let t = calendar c useUtcTime r
      in date_text CHR ''-'' t @ '' '' @ time_of_day_text t (millitm (m_time r)) @ '' ''
         @ setw_left CHR '' '' 5 (severityToString (m_severity r)) @ '' ''
         @ ''['' @ dec (m_tid r) @ ''] '' @ ''['' @ getFunc r @ ''@'' @ dec (m_line r) @ ''] '' @ getMessage r @ [LF])"

definition message_only_format :: "Record \<Rightarrow> string" where
  "message_only_format r = getMessage r @ [LF]"

definition func_message_format :: "Record \<Rightarrow> string" where
  "func_message_format r = getFunc r @ ''@'' @ dec (m_line r) @ '': '' @ getMessage r @ [LF]"

definition kMaxMessageSize :: nat where "kMaxMessageSize = 32000"

definition csv_header :: string where
  "csv_header = ''Date;Time;Severity;TID;This;Function;Message'' @ [LF]"

definition QUOT :: char where "QUOT = CHR 0x22"

text \<open>\<open>while (!split.eof ()) getline (split, token, '"')\<close>: the tokens between the quotes; the text behind the last
  quote is a token too, also where it is empty.\<close>

fun csv_tokens :: "string \<Rightarrow> string \<Rightarrow> string list" where
  "csv_tokens acc [] = [acc]"
| "csv_tokens acc (c # cs) = (if c = QUOT then acc # csv_tokens '''' cs else csv_tokens (acc @ [c]) cs)"

definition cut_message :: "string \<Rightarrow> string" where
  "cut_message m = (if kMaxMessageSize < length m then take kMaxMessageSize m @ ''...'' else m)"

definition csv_message :: "string \<Rightarrow> string" where
  "csv_message m = concat (map (\<lambda>token. [QUOT] @ token @ [QUOT]) (csv_tokens '''' m))"

definition csv_format :: "clock \<Rightarrow> bool \<Rightarrow> Record \<Rightarrow> string" where
  "csv_format c useUtcTime r =
     (let t = calendar c useUtcTime r
      in date_text CHR ''/'' t @ '';'' @ time_of_day_text t (millitm (m_time r)) @ '';''
         @ severityToString (m_severity r) @ '';'' @ dec (m_tid r) @ '';'' @ pointer_text c (m_object r) @ '';''
         @ getFunc r @ ''@'' @ dec (m_line r) @ '';'' @ csv_message (cut_message (getMessage r)) @ [LF])"

subsection \<open>Converters\<close>

definition kBOM :: string where "kBOM = map char_of [0xEF, 0xBB, 0xBF :: nat]"

definition utf8_convert :: "string \<Rightarrow> string" where "utf8_convert str = str"
definition utf8_header :: "string \<Rightarrow> string" where "utf8_header str = kBOM @ utf8_convert str"

text \<open>\<open>NativeEOLConverter\<close> inherits both on Linux; on Windows it puts a carriage return before every line feed.\<close>

definition native_convert :: "string \<Rightarrow> string" where "native_convert str = utf8_convert str"
definition native_header :: "string \<Rightarrow> string" where "native_header str = utf8_header str"

fun fixLineEndings :: "string \<Rightarrow> string" where
  "fixLineEndings [] = []"
| "fixLineEndings (ch # cs) = (if ch = LF then [CR, ch] else [ch]) @ fixLineEndings cs"

end
