(* ===== verification/PlogRolling.thy ===== *)
theory PlogRolling
  imports PlogFormat
begin

text \<open>
  The appenders and the logger of \<open>src/include/plog\<close>: the rolling log file, the console, the delivery of a record
  to the appenders, the macros of \<open>Log.h\<close> and the initializers.
\<close>

subsection \<open>\<open>RollingFileAppender\<close>\<close>

record rolling =
  r_file :: File
  m_fileSize :: nat
  m_maxFileSize :: nat
  m_maxFiles :: int
  m_fileExt :: string
  m_fileNameNoExt :: string
  m_firstWrite :: bool

definition buildFileName :: "rolling \<Rightarrow> int \<Rightarrow> string" where
  "buildFileName a fileNumber =
     m_fileNameNoExt a @ (if fileNumber > 0 then ''.'' @ fmt_d fileNumber else '''')
       @ (if m_fileExt a \<noteq> '''' then ''.'' @ m_fileExt a else '''')"

definition setFileName :: "string \<Rightarrow> rolling \<times> fsys \<Rightarrow> rolling \<times> fsys" where
  "setFileName fileName st =
     (let n = splitFileName fileName; c = file_close (r_file (fst st), snd st)
      in ((fst st)\<lparr>m_fileNameNoExt := fst n, m_fileExt := snd n, r_file := fst c, m_firstWrite := True\<rparr>, snd c))"

definition new_rolling :: "string \<Rightarrow> nat \<Rightarrow> int \<Rightarrow> fsys \<Rightarrow> rolling \<times> fsys" where
  "new_rolling fileName maxFileSize maxFiles fs =
     setFileName fileName
       (\<lparr>r_file = no_file, m_fileSize = 0, m_maxFileSize = max maxFileSize 1000, m_maxFiles = maxFiles,
         m_fileExt = '''', m_fileNameNoExt = '''', m_firstWrite = True\<rparr>, fs)"

text \<open>\<open>m_file.write\<close> with the count of the bytes kept in \<open>m_fileSize\<close>, which wraps around.\<close>

definition write_counted :: "file_os \<Rightarrow> string \<Rightarrow> rolling \<times> fsys \<Rightarrow> rolling \<times> fsys" where
  "write_counted os buf st =
     (let w = file_write os buf (r_file (fst st), snd st)
      in ((fst st)\<lparr>r_file := fst (snd w),
            m_fileSize := (if fst w \<noteq> SIZE_MAX then (m_fileSize (fst st) + fst w) mod 2 ^ 64 else m_fileSize (fst st))\<rparr>,
          snd (snd w)))"

definition openLogFile :: "file_os \<Rightarrow> string \<Rightarrow> rolling \<times> fsys \<Rightarrow> rolling \<times> fsys" where
  "openLogFile os header st =
     (let w = file_open os (buildFileName (fst st) 0) (r_file (fst st), snd st);
          st = ((fst st)\<lparr>r_file := fst (snd w), m_fileSize := fst w\<rparr>, snd (snd w))
      in if m_fileSize (fst st) = 0 then write_counted os header st else st)"

text \<open>The loop that renames, for \<open>fileNumber\<close> from \<open>k - 1\<close> down to 0.\<close>

fun rename_all :: "rolling \<Rightarrow> nat \<Rightarrow> fsys \<Rightarrow> fsys" where
  "rename_all a 0 fs = fs"
| "rename_all a (Suc k) fs = rename_all a k (file_rename (buildFileName a (int k)) (buildFileName a (int k + 1)) fs)"

definition rollLogFiles :: "file_os \<Rightarrow> string \<Rightarrow> rolling \<times> fsys \<Rightarrow> rolling \<times> fsys" where
  "rollLogFiles os header st =
     (let c = file_close (r_file (fst st), snd st); a = (fst st)\<lparr>r_file := fst c\<rparr>;
          fs = file_unlink (buildFileName a (m_maxFiles a - 1)) (snd c);
          fs = rename_all a (nat (m_maxFiles a - 1)) fs;
          st = openLogFile os header (a, fs)
      in ((fst st)\<lparr>m_firstWrite := False\<rparr>, snd st))"

text \<open>\<open>header\<close> and \<open>text_out\<close> are what the converter makes of the header and the record.\<close>

definition rolling_write :: "file_os \<Rightarrow> string \<Rightarrow> string \<Rightarrow> rolling \<times> fsys \<Rightarrow> rolling \<times> fsys" where
  "rolling_write os header text_out st =
     write_counted os text_out
       (if m_firstWrite (fst st)
        then (let st = openLogFile os header st in ((fst st)\<lparr>m_firstWrite := False\<rparr>, snd st))
        else if 0 < m_maxFiles (fst st) \<and> m_maxFileSize (fst st) < m_fileSize (fst st) \<and> SIZE_MAX \<noteq> m_fileSize (fst st)
        then rollLogFiles os header st
        else st)"

fun rolling_writes :: "file_os \<Rightarrow> string \<Rightarrow> string list \<Rightarrow> rolling \<times> fsys \<Rightarrow> rolling \<times> fsys" where
  "rolling_writes os header [] st = st"
| "rolling_writes os header (t # ts) st = rolling_writes os header ts (rolling_write os header t st)"

text \<open>With \<open>NativeEOLConverter<UTF8Converter>\<close> and each formatter.\<close>

datatype formatter = TxtFormatter | TxtFormatterUtcTime | CsvFormatter | CsvFormatterUtcTime | FuncMessageFormatter | MessageOnlyFormatter

fun format :: "clock \<Rightarrow> formatter \<Rightarrow> Record \<Rightarrow> string" where
  "format c TxtFormatter r = txt_format c False r"
| "format c TxtFormatterUtcTime r = txt_format c True r"
| "format c CsvFormatter r = csv_format c False r"
| "format c CsvFormatterUtcTime r = csv_format c True r"
| "format c FuncMessageFormatter r = func_message_format r"
| "format c MessageOnlyFormatter r = message_only_format r"

fun format_header :: "formatter \<Rightarrow> string" where
  "format_header TxtFormatter = txt_header"
| "format_header TxtFormatterUtcTime = txt_header"
| "format_header CsvFormatter = csv_header"
| "format_header CsvFormatterUtcTime = csv_header"
| "format_header FuncMessageFormatter = ''''"
| "format_header MessageOnlyFormatter = ''''"

definition rolling_append :: "file_os \<Rightarrow> clock \<Rightarrow> formatter \<Rightarrow> Record \<Rightarrow> rolling \<times> fsys \<Rightarrow> rolling \<times> fsys" where
  "rolling_append os c f r = rolling_write os (native_header (format_header f)) (native_convert (format c f r))"

subsection \<open>The consoles\<close>

datatype OutputStream = streamStdOut | streamStdErr

record console =
  m_isatty :: bool
  m_outputStream :: OutputStream

definition new_console :: "(OutputStream \<Rightarrow> bool) \<Rightarrow> OutputStream \<Rightarrow> console" where
  "new_console isatty outStream = \<lparr>m_isatty = isatty outStream, m_outputStream = outStream\<rparr>"

text \<open>The two streams of the process.\<close>

type_synonym streams = "OutputStream \<Rightarrow> string"

definition writestr :: "console \<Rightarrow> string \<Rightarrow> streams \<Rightarrow> streams" where
  "writestr a str out = out(m_outputStream a := out (m_outputStream a) @ str)"

definition console_write :: "clock \<Rightarrow> formatter \<Rightarrow> console \<Rightarrow> Record \<Rightarrow> streams \<Rightarrow> streams" where
  "console_write c f a r = writestr a (format c f r)"

definition ESC :: char where "ESC = CHR 0x1B"

definition setColor :: "console \<Rightarrow> Severity \<Rightarrow> streams \<Rightarrow> streams" where
  "setColor a severity out =
     (if m_isatty a
      then (case severity of
          fatal \<Rightarrow> writestr a (ESC # ''[97m'' @ ESC # ''[41m'') out
        | error \<Rightarrow> writestr a (ESC # ''[91m'') out
        | warning \<Rightarrow> writestr a (ESC # ''[93m'') out
        | debug \<Rightarrow> writestr a (ESC # ''[96m'') out
        | verbose \<Rightarrow> writestr a (ESC # ''[96m'') out
        | _ \<Rightarrow> out)
      else out)"

definition resetColor :: "console \<Rightarrow> streams \<Rightarrow> streams" where
  "resetColor a out = (if m_isatty a then writestr a (ESC # ''[0m'' @ ESC # ''[0K'') out else out)"

definition color_console_write :: "clock \<Rightarrow> formatter \<Rightarrow> console \<Rightarrow> Record \<Rightarrow> streams \<Rightarrow> streams" where
  "color_console_write c f a r out = resetColor a (writestr a (format c f r) (setColor a (m_severity r) out))"

subsection \<open>\<open>Logger\<close>\<close>

text \<open>An appender is the change a record makes to the surroundings.\<close>

record 'w logger =
  m_maxSeverity :: Severity
  m_appenders :: "(Record \<Rightarrow> 'w \<Rightarrow> 'w) list"

definition new_logger :: "Severity \<Rightarrow> 'w logger" where
  "new_logger maxSeverity = \<lparr>m_maxSeverity = maxSeverity, m_appenders = []\<rparr>"

definition addAppender :: "(Record \<Rightarrow> 'w \<Rightarrow> 'w) \<Rightarrow> 'w logger \<Rightarrow> 'w logger" where
  "addAppender appender l = l\<lparr>m_appenders := m_appenders l @ [appender]\<rparr>"

definition setMaxSeverity :: "Severity \<Rightarrow> 'w logger \<Rightarrow> 'w logger" where
  "setMaxSeverity severity l = l\<lparr>m_maxSeverity := severity\<rparr>"

definition checkSeverity :: "'w logger \<Rightarrow> Severity \<Rightarrow> bool" where
  "checkSeverity l severity \<longleftrightarrow> severity \<le> m_maxSeverity l"

definition logger_add :: "'w logger \<Rightarrow> Record \<Rightarrow> 'w \<Rightarrow> 'w" where
  "logger_add l r w = fold (\<lambda>appender. appender r) (m_appenders l) w"

definition logger_write :: "'w logger \<Rightarrow> Record \<Rightarrow> 'w \<Rightarrow> 'w" where
  "logger_write l r w = (if checkSeverity l (m_severity r) then logger_add l r w else w)"

text \<open>\<open>init (severity, appender)\<close>: the logger is static, only the first call sets its severity.\<close>

definition init :: "Severity \<Rightarrow> (Record \<Rightarrow> 'w \<Rightarrow> 'w) option \<Rightarrow> 'w logger option \<Rightarrow> 'w logger" where
  "init maxSeverity appender static_logger =
     (let logger = (case static_logger of None \<Rightarrow> new_logger maxSeverity | Some l \<Rightarrow> l)
      in case appender of None \<Rightarrow> logger | Some a \<Rightarrow> addAppender a logger)"

definition isCsv :: "string \<Rightarrow> bool" where
  "isCsv fileName = (case findExtensionDot fileName of None \<Rightarrow> False | Some dot \<Rightarrow> dot = ''.csv'')"

definition init_formatter :: "string \<Rightarrow> formatter" where
  "init_formatter fileName = (if isCsv fileName then CsvFormatter else TxtFormatter)"

subsection \<open>The macros of \<open>Log.h\<close>\<close>

text \<open>\<open>PLOG_ (instanceId, severity) << x1 << x2 ...\<close>: the record is only made, and its values only streamed, where the
  logger exists and its severity allows it.\<close>

definition PLOG :: "'w logger option \<Rightarrow> Severity \<Rightarrow> (Severity \<Rightarrow> Record) \<Rightarrow> streamed list \<Rightarrow> 'w \<Rightarrow> 'w" where
  "PLOG get severity record_at xs w =
     (case get of
        None \<Rightarrow> w
      | Some l \<Rightarrow> if \<not> checkSeverity l severity then w else logger_add l (foldl stream (record_at severity) xs) w)"

definition PLOG_IF :: "'w logger option \<Rightarrow> Severity \<Rightarrow> bool \<Rightarrow> (Severity \<Rightarrow> Record) \<Rightarrow> streamed list \<Rightarrow> 'w \<Rightarrow> 'w" where
  "PLOG_IF get severity condition record_at xs w = (if \<not> condition then w else PLOG get severity record_at xs w)"

text \<open>The macros that fix the severity, by their names without the suffix \<open>_\<close> of those with an instance: long,
  short, with a condition, and the old names.\<close>

definition levels :: "(string \<times> char \<times> Severity) list" where
  "levels = [(''VERBOSE'', CHR ''V'', verbose), (''DEBUG'', CHR ''D'', debug), (''INFO'', CHR ''I'', info),
     (''WARNING'', CHR ''W'', warning), (''ERROR'', CHR ''E'', error), (''FATAL'', CHR ''F'', fatal), (''NONE'', CHR ''N'', none)]"

definition level_macros :: "string \<Rightarrow> (string \<times> bool \<times> Severity) list" where
  "level_macros prefix =
     concat (map (\<lambda>(name, letter, s). [(prefix @ ''_'' @ name, False, s), (prefix @ [letter], False, s),
       (prefix @ ''_'' @ name @ ''_IF'', True, s), (prefix @ [letter] @ ''_IF'', True, s)]) levels)"

definition new_macros :: "(string \<times> bool \<times> Severity) list" where "new_macros = level_macros ''PLOG''"
definition old_macros :: "(string \<times> bool \<times> Severity) list" where "old_macros = level_macros ''LOG''"

definition run_macro ::
    "string \<Rightarrow> bool \<Rightarrow> 'w logger option \<Rightarrow> (Severity \<Rightarrow> Record) \<Rightarrow> streamed list \<Rightarrow> 'w \<Rightarrow> 'w option" where
  "run_macro name condition get record_at xs w =
     (case map_of (new_macros @ old_macros) name of
        None \<Rightarrow> None
      | Some m \<Rightarrow> Some (if fst m then PLOG_IF get (snd m) condition record_at xs w else PLOG get (snd m) record_at xs w))"

end
