(* ===== verification/PlogLog.thy ===== *)
theory PlogLog
  imports PlogRolling
begin

text \<open>
  What the logging of \<open>src/include/plog\<close> promises: the rolling files hold the last records whole and in order, and
  stay within their limits; a record reaches the appenders of a logger exactly where its severity allows it; the
  message of a CSV line can be read back; the colours of the console are taken back.
\<close>

subsection \<open>Names of the log files\<close>

lemma dec_inj: "dec m = dec n \<Longrightarrow> m = n"
  by (metis digits_val_dec)

lemma fmt_d_inj: "0 \<le> i \<Longrightarrow> 0 \<le> j \<Longrightarrow> fmt_d i = fmt_d j \<Longrightarrow> i = j"
  using dec_inj [of "nat i" "nat j"] by (simp add: fmt_d_def)

lemma buildFileName_inj:
  assumes "0 \<le> i" "0 \<le> j" "buildFileName a i = buildFileName a j"
  shows "i = j"
proof (cases "i = 0 \<or> j = 0")
  case True
  have "fmt_d k \<noteq> ''''" if "0 \<le> k" for k using that by (simp add: fmt_d_def)
  then show ?thesis using arg_cong [OF assms(3), of length] True assms(1,2) by (auto simp: buildFileName_def split: if_splits)
next
  case False
  then have "fmt_d i = fmt_d j" using assms by (simp add: buildFileName_def)
  then show ?thesis using fmt_d_inj assms(1,2) by blast
qed

lemma buildFileName_eq_iff [simp]: "buildFileName a (int i) = buildFileName a (int j) \<longleftrightarrow> i = j"
  using buildFileName_inj [of "int i" "int j" a] by auto

lemma buildFileName_cong:
  "m_fileNameNoExt a = m_fileNameNoExt b \<Longrightarrow> m_fileExt a = m_fileExt b \<Longrightarrow> buildFileName a = buildFileName b"
  by (intro ext) (simp add: buildFileName_def)

subsection \<open>Rolling\<close>

lemma rename_all_files:
  assumes "fs (buildFileName a (int k)) = None"
  shows "rename_all a k fs (buildFileName a (int 0)) = (if k = 0 then fs (buildFileName a (int 0)) else None)"
    "rename_all a k fs (buildFileName a (int (Suc j))) = (if j < k then fs (buildFileName a (int j)) else fs (buildFileName a (int (Suc j))))"
proof -
  let ?n = "\<lambda>i. buildFileName a (int i)"
  have "rename_all a k fs (?n 0) = (if k = 0 then fs (?n 0) else None)
    \<and> (\<forall>j. rename_all a k fs (?n (Suc j)) = (if j < k then fs (?n j) else fs (?n (Suc j))))"
    using assms
  proof (induction k arbitrary: fs)
    case 0
    then show ?case by simp
  next
    case (Suc k)
    let ?fs = "file_rename (?n k) (buildFileName a (int k + 1)) fs"
    have nk: "buildFileName a (int k + 1) = ?n (Suc k)" by (simp add: add.commute)
    have r: "?fs (?n j) = (if j = k then None else if j = Suc k then fs (?n k) else fs (?n j))" for j
      using Suc.prems unfolding nk by (auto simp: file_rename_def simp del: of_nat_Suc split: option.splits)
    have "?fs (?n k) = None" using r by simp
    note ih = Suc.IH [of ?fs, OF this]
    have step: "rename_all a (Suc k) fs = rename_all a k ?fs" by simp
    have "rename_all a k ?fs (?n (Suc j)) = (if j < Suc k then fs (?n j) else fs (?n (Suc j)))" for j
      using ih r [of j] r [of "Suc j"] by (cases "j = k") (auto simp del: of_nat_Suc)
    moreover have "rename_all a k ?fs (?n 0) = None" using ih r [of 0] by auto
    ultimately show ?case unfolding step by (auto simp del: of_nat_Suc)
  qed
  then show "rename_all a k fs (?n 0) = (if k = 0 then fs (?n 0) else None)"
      "rename_all a k fs (?n (Suc j)) = (if j < k then fs (?n j) else fs (?n (Suc j)))"
    by blast+
qed

lemma rename_all_other:
  "\<forall>i \<le> k. f \<noteq> buildFileName a (int i) \<Longrightarrow> rename_all a k fs f = fs f"
proof (induction k arbitrary: fs)
  case (Suc k)
  have "f \<noteq> buildFileName a (int k + 1)" "f \<noteq> buildFileName a (int k)"
    using Suc.prems [rule_format, of "Suc k"] Suc.prems [rule_format, of k] by (simp_all add: add.commute)
  then show ?case using Suc by (auto simp: file_rename_def split: option.splits)
qed simp

definition os_ok :: "file_os \<Rightarrow> bool" where
  "os_ok os \<longleftrightarrow> (\<forall>f. open_ok os f) \<and> (\<forall>n. write_ret os n = int n)"

text \<open>The appender at the end of its file of the given content.\<close>

definition at_end :: "rolling \<times> fsys \<Rightarrow> string \<Rightarrow> bool" where
  "at_end st c \<longleftrightarrow> r_file (fst st) = \<lparr>m_file = Some (buildFileName (fst st) 0), offset = length c\<rparr>
     \<and> m_fileSize (fst st) = length c \<and> snd st (buildFileName (fst st) 0) = Some c"

definition same_names :: "rolling \<Rightarrow> rolling \<Rightarrow> bool" where
  "same_names a b \<longleftrightarrow> m_fileNameNoExt a = m_fileNameNoExt b \<and> m_fileExt a = m_fileExt b
     \<and> m_maxFiles a = m_maxFiles b \<and> m_maxFileSize a = m_maxFileSize b \<and> m_firstWrite a = m_firstWrite b"

lemma same_names_build: "same_names a b \<Longrightarrow> buildFileName a = buildFileName b"
  by (rule buildFileName_cong) (simp_all add: same_names_def)

lemma write_counted_end:
  assumes "os_ok os" "at_end st c" "length c + length t < SIZE_MAX"
  shows "at_end (write_counted os t st) (c @ t) \<and> same_names (fst (write_counted os t st)) (fst st)
    \<and> (\<forall>f. f \<noteq> buildFileName (fst st) 0 \<longrightarrow> snd (write_counted os t st) f = snd st f)"
proof -
  let ?w = "write_counted os t st"
  have n: "same_names (fst ?w) (fst st)" by (simp add: write_counted_def same_names_def Let_def)
  have lt: "length t \<noteq> SIZE_MAX" "(length c + length t) mod 2 ^ 64 = length c + length t"
    using assms(3) by (simp_all add: SIZE_MAX_def)
  have "write_at (length c) t c = c @ t" by (simp add: write_at_def)
  then have "at_end ?w (c @ t)"
    using assms(1,2) lt same_names_build [OF n]
    by (simp add: at_end_def) (simp add: write_counted_def file_write_def os_ok_def Let_def)
  moreover have "snd ?w f = snd st f" if "f \<noteq> buildFileName (fst st) 0" for f
    using that assms(1,2) by (simp add: write_counted_def file_write_def os_ok_def at_end_def Let_def)
  ultimately show ?thesis using n by blast
qed

lemma openLogFile_end:
  assumes "os_ok os" "snd st (buildFileName (fst st) 0) = None" "length h < SIZE_MAX"
  shows "at_end (openLogFile os h st) h \<and> same_names (fst (openLogFile os h st)) (fst st)
    \<and> (\<forall>f. f \<noteq> buildFileName (fst st) 0 \<longrightarrow> snd (openLogFile os h st) f = snd st f)"
proof -
  let ?n = "buildFileName (fst st) 0"
  let ?st = "((fst st)\<lparr>r_file := \<lparr>m_file = Some ?n, offset = 0\<rparr>, m_fileSize := 0\<rparr>, (snd st)(?n \<mapsto> ''''))"
  have o: "openLogFile os h st = write_counted os h ?st"
    using assms(1,2) by (simp add: openLogFile_def file_open_def file_seek_end_def os_ok_def Let_def)
  have s: "same_names (fst ?st) (fst st)" by (simp add: same_names_def)
  have b: "buildFileName (fst ?st) = buildFileName (fst st)" by (rule same_names_build [OF s])
  have "at_end ?st ''''" unfolding at_end_def b by simp
  from write_counted_end [OF assms(1) this, of h] show ?thesis
    using assms(3) s unfolding o b by (auto simp: same_names_def)
qed

lemma rollLogFiles_end:
  assumes "os_ok os" "length h < SIZE_MAX" "m_maxFiles (fst st) = int n" "0 < n"
  shows "at_end (rollLogFiles os h st) h \<and> same_names (fst (rollLogFiles os h st)) ((fst st)\<lparr>m_firstWrite := False\<rparr>)
    \<and> (\<forall>i. 0 < i \<and> i < n \<longrightarrow> snd (rollLogFiles os h st) (buildFileName (fst st) (int i)) = snd st (buildFileName (fst st) (int i - 1)))
    \<and> (\<forall>f. (\<forall>i < n. f \<noteq> buildFileName (fst st) (int i)) \<longrightarrow> snd (rollLogFiles os h st) f = snd st f)"
proof -
  let ?b = "buildFileName (fst st)" and ?a = "(fst st)\<lparr>r_file := fst (file_close (r_file (fst st), snd st))\<rparr>"
  let ?u = "file_unlink (?b (int (n - 1))) (snd st)"
  let ?fs = "rename_all ?a (n - 1) ?u"
  let ?o = "openLogFile os h (?a, ?fs)"
  have b: "buildFileName ?a = ?b" by (rule buildFileName_cong) simp_all
  have k: "nat (m_maxFiles ?a - 1) = n - 1" "m_maxFiles ?a - 1 = int (n - 1)" using assms(3,4) by simp_all
  have r: "rollLogFiles os h st = ((fst ?o)\<lparr>m_firstWrite := False\<rparr>, snd ?o)"
    unfolding rollLogFiles_def Let_def k b by (simp add: file_close_def)
  have u: "?u (?b (int (n - 1))) = None" by (simp add: file_unlink_def)
  have z: "(if n - 1 = 0 then ?u (?b (int 0)) else None) = None" using u by metis
  have fs: "?fs (?b (int 0)) = None" "j < n - 1 \<Longrightarrow> ?fs (?b (int (Suc j))) = ?u (?b (int j))" for j
    using rename_all_files(1) [of ?u ?a "n - 1", unfolded b, OF u] z
      rename_all_files(2) [of ?u ?a "n - 1" j, unfolded b, OF u]
    by presburger+
  have other: "?fs f = snd st f" if "\<forall>i < n. f \<noteq> ?b (int i)" for f
  proof -
    have "f \<noteq> ?b (int (n - 1))" "\<forall>i \<le> n - 1. f \<noteq> buildFileName ?a (int i)"
      using that [rule_format, of "n - 1"] that assms(4) unfolding b by auto
    then show ?thesis using rename_all_other [of "n - 1" f ?a ?u] by (simp add: file_unlink_def)
  qed
  have zero: "snd (?a, ?fs) (buildFileName (fst (?a, ?fs)) 0) = None" using fs(1) b by simp
  note op = openLogFile_end [OF assms(1) zero assms(2)]
  have nm: "same_names (fst ?o) ?a" using op by simp
  have bo: "buildFileName (fst ?o) = ?b" using same_names_build [OF nm] b by simp
  have "buildFileName ((fst ?o)\<lparr>m_firstWrite := False\<rparr>) = ?b" using bo buildFileName_cong [of "(fst ?o)\<lparr>m_firstWrite := False\<rparr>" "fst ?o"] by simp
  then have "at_end (rollLogFiles os h st) h" using op unfolding r at_end_def bo by simp
  moreover have "same_names (fst (rollLogFiles os h st)) ((fst st)\<lparr>m_firstWrite := False\<rparr>)"
    using nm unfolding r by (simp add: same_names_def)
  moreover have keep: "snd ?o f = ?fs f" if "f \<noteq> ?b 0" for f using op that b by simp
  have "snd (rollLogFiles os h st) (?b (int i)) = snd st (?b (int i - 1))" if i: "0 < i" "i < n" for i
  proof -
    obtain j where j: "i = Suc j" using i(1) by (cases i) simp_all
    have ne: "?b (int i) \<noteq> ?b 0" using i buildFileName_eq_iff [of "fst st" i 0] by simp
    have e: "int i - 1 = int j" and lt: "j < n - 1" using i j by auto
    have "?b (int j) \<noteq> ?b (int (n - 1))" using lt by (simp only: buildFileName_eq_iff)
    then have "snd ?o (?b (int i)) = snd st (?b (int j))"
      using fs(2) [OF lt] j keep [OF ne] by (simp add: file_unlink_def del: of_nat_Suc)
    then show ?thesis unfolding e r by simp
  qed
  moreover have "snd (rollLogFiles os h st) f = snd st f" if f: "\<forall>i < n. f \<noteq> ?b (int i)" for f
    using keep [of f] other [OF f] f [rule_format, of 0] assms(4) unfolding r by simp
  ultimately show ?thesis by blast
qed

subsection \<open>What the log files hold\<close>

text \<open>The records in the log files, newest file first: file \<open>i\<close> is the header and then the records \<open>css ! i\<close>; it was
  not longer than the limit before its last record, and the older ones are longer than the limit with it.\<close>

definition logged :: "string \<Rightarrow> nat \<Rightarrow> nat \<Rightarrow> rolling \<times> fsys \<Rightarrow> string list list \<Rightarrow> bool" where
  "logged h n L st css \<longleftrightarrow> css \<noteq> [] \<and> length css \<le> n \<and> at_end st (h @ concat (hd css)) \<and> \<not> m_firstWrite (fst st)
     \<and> m_maxFiles (fst st) = int n
     \<and> (\<forall>i < length css. snd st (buildFileName (fst st) (int i)) = Some (h @ concat (css ! i))
          \<and> length (h @ concat (css ! i)) \<le> max (m_maxFileSize (fst st)) (length h) + L
          \<and> (0 < i \<longrightarrow> m_maxFileSize (fst st) < length (h @ concat (css ! i))))
     \<and> (\<forall>i. length css \<le> i \<and> i < n \<longrightarrow> snd st (buildFileName (fst st) (int i)) = None)"

lemma logged_write:
  assumes "os_ok os" "logged h n L st (c # css)" "length (h @ concat c) \<le> max (m_maxFileSize (fst st)) (length h)"
    and "length t \<le> L" "length (h @ concat c) + length t < SIZE_MAX"
  shows "logged h n L (write_counted os t st) ((c @ [t]) # css) \<and> same_names (fst (write_counted os t st)) (fst st)"
proof -
  let ?w = "write_counted os t st"
  have e: "at_end st (h @ concat c)" using assms(2) by (simp add: logged_def)
  note w = write_counted_end [OF assms(1) e assms(5)]
  have b: "buildFileName (fst ?w) = buildFileName (fst st)" using same_names_build w by blast
  have f: "m_firstWrite (fst ?w) = m_firstWrite (fst st)" "m_maxFiles (fst ?w) = m_maxFiles (fst st)"
      "m_maxFileSize (fst ?w) = m_maxFileSize (fst st)"
    using w by (simp_all add: same_names_def)
  have old: "snd ?w (buildFileName (fst st) (int i)) = snd st (buildFileName (fst st) (int i))" if "0 < i" for i
    using w that buildFileName_eq_iff [of "fst st" i 0] by simp
  have "snd ?w (buildFileName (fst st) (int i)) = Some (h @ concat (((c @ [t]) # css) ! i))
      \<and> length (h @ concat (((c @ [t]) # css) ! i)) \<le> max (m_maxFileSize (fst st)) (length h) + L
      \<and> (0 < i \<longrightarrow> m_maxFileSize (fst st) < length (h @ concat (((c @ [t]) # css) ! i)))"
    if i: "i < length (c # css)" for i
  proof (cases i)
    case 0
    have "snd ?w (buildFileName (fst st) 0) = Some (h @ concat c @ t)" using w b by (simp add: at_end_def)
    then show ?thesis using 0 assms(3,4) by simp
  next
    case (Suc j)
    then show ?thesis using assms(2) i old [of i] by (auto simp: logged_def)
  qed
  moreover have "\<forall>i. length (c # css) \<le> i \<and> i < n \<longrightarrow> snd ?w (buildFileName (fst st) (int i)) = None"
    using assms(2) old unfolding logged_def by (metis gr_zeroI le_zero_eq length_0_conv list.distinct(1))
  ultimately show ?thesis
    using w assms(2) unfolding logged_def b f by simp
qed

lemma logged_roll:
  assumes "os_ok os" "logged h n L st css" "0 < n" "length h < SIZE_MAX" "m_maxFileSize (fst st) < length (h @ concat (hd css))"
  shows "logged h n L (rollLogFiles os h st) ([] # take (n - 1) css)
    \<and> same_names (fst (rollLogFiles os h st)) (fst st)"
proof -
  let ?w = "rollLogFiles os h st"
  have n: "m_maxFiles (fst st) = int n" "\<not> m_firstWrite (fst st)" using assms(2) by (simp_all add: logged_def)
  note w = rollLogFiles_end [OF assms(1,4) n(1) assms(3)]
  have same: "same_names (fst ?w) (fst st)" using w n by (simp add: same_names_def)
  have b: "buildFileName (fst ?w) = buildFileName (fst st)" by (rule same_names_build [OF same])
  have f: "m_firstWrite (fst ?w) = m_firstWrite (fst st)" "m_maxFiles (fst ?w) = m_maxFiles (fst st)"
      "m_maxFileSize (fst ?w) = m_maxFileSize (fst st)"
    using same by (simp_all add: same_names_def)
  have z: "snd ?w (buildFileName (fst st) 0) = Some h" using w b by (simp add: at_end_def)
  have sh: "snd ?w (buildFileName (fst st) (int (Suc j))) = snd st (buildFileName (fst st) (int j))" if "Suc j < n" for j
    using w that by (metis add_diff_cancel_right' of_nat_Suc zero_less_Suc add.commute)
  have "snd ?w (buildFileName (fst st) (int i)) = Some (h @ concat (([] # take (n - 1) css) ! i))
      \<and> length (h @ concat (([] # take (n - 1) css) ! i)) \<le> max (m_maxFileSize (fst st)) (length h) + L
      \<and> (0 < i \<longrightarrow> m_maxFileSize (fst st) < length (h @ concat (([] # take (n - 1) css) ! i)))"
    if i: "i < length ([] # take (n - 1) css)" for i
  proof (cases i)
    case 0
    then show ?thesis using z by simp
  next
    case (Suc j)
    have "m_maxFileSize (fst st) < length (h @ concat (css ! j))" if "j < length css"
      using assms(2,5) that by (cases j) (auto simp: logged_def hd_conv_nth)
    then show ?thesis using Suc assms(2) i sh [of j] by (auto simp: logged_def simp del: of_nat_Suc)
  qed
  moreover have "snd ?w (buildFileName (fst st) (int i)) = None" if i: "length ([] # take (n - 1) css) \<le> i" "i < n" for i
  proof -
    obtain j where j: "i = Suc j" "length css \<le> j" "Suc j < n" using i by (cases i) auto
    then show ?thesis using assms(2) sh [of j] by (auto simp: logged_def simp del: of_nat_Suc)
  qed
  ultimately show ?thesis
    using w assms(2,3) same unfolding logged_def b f by auto
qed

definition fits_limits :: "string \<Rightarrow> nat \<Rightarrow> rolling \<Rightarrow> bool" where
  "fits_limits h L a \<longleftrightarrow> max (m_maxFileSize a) (length h) + 2 * L < SIZE_MAX"

text \<open>What rolling keeps: no file is without a record, and records are given up only when there are \<open>n\<close> files.\<close>

definition more_files :: "nat \<Rightarrow> string list list \<Rightarrow> string list list \<Rightarrow> string list \<Rightarrow> bool" where
  "more_files n css css' d \<longleftrightarrow> [] \<notin> set css' \<and> length css \<le> length css' \<and> (d \<noteq> [] \<longrightarrow> n \<le> length css')"

lemma logged_step:
  assumes "os_ok os" "logged h n L st css" "0 < n" "fits_limits h L (fst st)" "length t \<le> L" "[] \<notin> set css"
  shows "\<exists>css' d. logged h n L (rolling_write os h t st) css' \<and> same_names (fst (rolling_write os h t st)) (fst st)
    \<and> concat (rev css) @ [t] = d @ concat (rev css') \<and> more_files n css css' d"
proof -
  obtain c cs where css: "css = c # cs" using assms(2) by (cases css) (auto simp: logged_def)
  have st: "m_fileSize (fst st) = length (h @ concat c)" "\<not> m_firstWrite (fst st)" "0 < m_maxFiles (fst st)"
    using assms(2,3) css by (auto simp: logged_def at_end_def)
  have len: "length (h @ concat c) \<le> max (m_maxFileSize (fst st)) (length h) + L" using assms(2) css by (auto simp: logged_def)
  then have lt: "length (h @ concat c) + length t < SIZE_MAX" using assms(4,5) by (simp add: fits_limits_def)
  show ?thesis
  proof (cases "m_maxFileSize (fst st) < m_fileSize (fst st)")
    case False
    then have w: "rolling_write os h t st = write_counted os t st" using st(2) by (simp add: rolling_write_def)
    have "length (h @ concat c) \<le> max (m_maxFileSize (fst st)) (length h)" using False st(1) by simp
    from logged_write [OF assms(1) _ this assms(5) lt] show ?thesis
      using assms(2) assms(6) unfolding w css by (intro exI [of _ "(c @ [t]) # cs"] exI [of _ "[]"]) (simp add: more_files_def)
  next
    case True
    let ?r = "rollLogFiles os h st"
    have h: "length h < SIZE_MAX" using assms(4) by (simp add: fits_limits_def)
    have w: "rolling_write os h t st = write_counted os t ?r" using st True lt by (simp add: rolling_write_def)
    have full: "m_maxFileSize (fst st) < length (h @ concat (hd css))" using True st(1) css by simp
    note r = logged_roll [OF assms(1,2,3) h full]
    then have lim: "fits_limits h L (fst ?r)" using assms(4) by (simp add: fits_limits_def same_names_def)
    have "logged h n L (write_counted os t ?r) (([] @ [t]) # take (n - 1) css) \<and> same_names (fst (write_counted os t ?r)) (fst ?r)"
      by (rule logged_write [OF assms(1)]) (use r assms(5) lim in \<open>simp_all add: fits_limits_def\<close>)
    moreover have "concat (rev css) @ [t] = concat (rev (drop (n - 1) css)) @ concat (rev (([] @ [t]) # take (n - 1) css))"
    proof -
      have "concat (rev css) = concat (rev (drop (n - 1) css)) @ concat (rev (take (n - 1) css))"
        using arg_cong [of "rev css" "rev (drop (n - 1) css) @ rev (take (n - 1) css)" concat] rev_append [of "take (n - 1) css" "drop (n - 1) css"]
        by (simp only: append_take_drop_id concat_append)
      then show ?thesis by simp
    qed
    moreover have "more_files n css (([] @ [t]) # take (n - 1) css) (concat (rev (drop (n - 1) css)))"
    proof -
      have "length css \<le> n" using assms(2) by (simp add: logged_def)
      moreover have "n - 1 < length css" if "concat (rev (drop (n - 1) css)) \<noteq> []" using that by (cases "n - 1 < length css") auto
      ultimately show ?thesis using assms(6) in_set_takeD [of "[]" "n - 1" css] unfolding more_files_def by auto
    qed
    ultimately show ?thesis using r unfolding w by (auto simp: same_names_def)
  qed
qed

lemma same_names_trans: "same_names a b \<Longrightarrow> same_names b c \<Longrightarrow> same_names a c"
  by (simp add: same_names_def)

lemma logged_steps:
  assumes "os_ok os" "logged h n L st css" "0 < n" "fits_limits h L (fst st)" "\<forall>t \<in> set ts. length t \<le> L" "[] \<notin> set css"
  shows "\<exists>css' d. logged h n L (rolling_writes os h ts st) css' \<and> same_names (fst (rolling_writes os h ts st)) (fst st)
    \<and> concat (rev css) @ ts = d @ concat (rev css') \<and> more_files n css css' d"
  using assms(2,4,5,6)
proof (induction ts arbitrary: st css)
  case Nil
  then show ?case by (intro exI [of _ css] exI [of _ "[]"]) (simp add: same_names_def more_files_def)
next
  case (Cons t ts)
  let ?w = "rolling_write os h t st"
  obtain css1 d1 where one: "logged h n L ?w css1" "same_names (fst ?w) (fst st)" "concat (rev css) @ [t] = d1 @ concat (rev css1)"
      "more_files n css css1 d1"
    using logged_step [OF assms(1) Cons.prems(1) assms(3) Cons.prems(2) _ Cons.prems(4), of t] Cons.prems(3) by (meson list.set_intros(1))
  have "fits_limits h L (fst ?w)" using Cons.prems(2) one(2) by (simp add: fits_limits_def same_names_def)
  then obtain css2 d2 where two: "logged h n L (rolling_writes os h ts ?w) css2" "same_names (fst (rolling_writes os h ts ?w)) (fst ?w)"
      "concat (rev css1) @ ts = d2 @ concat (rev css2)" "more_files n css1 css2 d2"
    using Cons.IH [OF one(1)] Cons.prems(3) one(4) by (auto simp: more_files_def)
  have "concat (rev css) @ t # ts = (d1 @ d2) @ concat (rev css2)"
    using arg_cong [OF one(3), of "\<lambda>x. x @ ts"] two(3) by simp
  moreover have "more_files n css css2 (d1 @ d2)" using one(4) two(4) by (auto simp: more_files_def)
  ultimately show ?case using two(1) same_names_trans [OF two(2) one(2)]
    by (intro exI [of _ css2] exI [of _ "d1 @ d2"]) simp
qed

lemma logged_first:
  assumes "os_ok os" "0 < n" "m_maxFiles (fst st) = int n" "m_firstWrite (fst st)" "length h < SIZE_MAX"
    and "\<forall>i < n. snd st (buildFileName (fst st) (int i)) = None"
  shows "logged h n L ((fst (openLogFile os h st))\<lparr>m_firstWrite := False\<rparr>, snd (openLogFile os h st)) [[]]
    \<and> same_names (fst (openLogFile os h st)) (fst st)"
proof -
  let ?o = "openLogFile os h st"
  have "snd st (buildFileName (fst st) 0) = None" using assms(6) [rule_format, of 0] assms(2) by simp
  note o = openLogFile_end [OF assms(1) this assms(5)]
  have s: "same_names (fst ?o) (fst st)" using o by simp
  have b: "buildFileName (fst ?o) = buildFileName (fst st)" by (rule same_names_build [OF s])
  have b2: "buildFileName ((fst ?o)\<lparr>m_firstWrite := False\<rparr>) = buildFileName (fst st)"
    using b buildFileName_cong [of "(fst ?o)\<lparr>m_firstWrite := False\<rparr>" "fst ?o"] by simp
  have z: "snd ?o (buildFileName (fst st) 0) = Some h" using o b by (simp add: at_end_def)
  have "snd ?o (buildFileName (fst st) (int i)) = None" if i: "0 < i" "i < n" for i
    using o assms(6) i buildFileName_eq_iff [of "fst st" i 0] by simp
  then show ?thesis
    using o s z assms(2,3) unfolding logged_def by (simp add: b2 at_end_def b same_names_def)
qed

lemma logged_all:
  assumes "os_ok os" "0 < n" "max (max maxFileSize 1000) (length h) + 2 * L < SIZE_MAX" "\<forall>t \<in> set ts. length t \<le> L" "ts \<noteq> []"
    and "st0 = new_rolling fileName maxFileSize (int n) fs" "\<forall>i < n. fs (buildFileName (fst st0) (int i)) = None"
  shows "\<exists>css d. logged h n L (rolling_writes os h ts st0) css \<and> ts = d @ concat (rev css)
    \<and> [] \<notin> set css \<and> (d \<noteq> [] \<longrightarrow> n \<le> length css)
    \<and> same_names ((fst (rolling_writes os h ts st0))\<lparr>m_firstWrite := True\<rparr>) (fst st0)"
proof -
  obtain t us where ts: "ts = t # us" using assms(5) by (cases ts) auto
  have f: "m_firstWrite (fst st0)" "m_maxFiles (fst st0) = int n" "m_maxFileSize (fst st0) = max maxFileSize 1000" "snd st0 = fs"
    unfolding assms(6) by (simp_all add: new_rolling_def setFileName_def Let_def file_close_def)
  have h: "length h < SIZE_MAX" "length h + length t < SIZE_MAX" using assms(3,4) ts by auto
  let ?o = "((fst (openLogFile os h st0))\<lparr>m_firstWrite := False\<rparr>, snd (openLogFile os h st0))"
  have e: "\<forall>i < n. snd st0 (buildFileName (fst st0) (int i)) = None" using assms(7) f(4) by simp
  note o = logged_first [OF assms(1,2) f(2,1) h(1) e, of L]
  then have oo: "logged h n L ?o [[]]" "same_names (fst (openLogFile os h st0)) (fst st0)" by simp_all
  let ?w = "write_counted os t ?o"
  have w: "rolling_write os h t st0 = ?w" using f(1) by (simp add: rolling_write_def Let_def)
  have one: "logged h n L ?w [[t]] \<and> same_names (fst ?w) (fst ?o)"
    using logged_write [OF assms(1) oo(1), of t] assms(4) ts h by simp
  have lim: "fits_limits h L (fst ?w)"
    using one oo(2) f(3) assms(3) by (simp add: fits_limits_def same_names_def)
  have "\<exists>css' d. logged h n L (rolling_writes os h us ?w) css' \<and> same_names (fst (rolling_writes os h us ?w)) (fst ?w)
      \<and> concat (rev [[t]]) @ us = d @ concat (rev css') \<and> more_files n [[t]] css' d"
    by (rule logged_steps [OF assms(1) conjunct1 [OF one] assms(2) lim]) (use assms(4) ts in simp_all)
  then obtain css d where "logged h n L (rolling_writes os h us ?w) css" "same_names (fst (rolling_writes os h us ?w)) (fst ?w)"
      "t # us = d @ concat (rev css)" "[] \<notin> set css" "d \<noteq> [] \<longrightarrow> n \<le> length css"
    by (auto simp: more_files_def)
  moreover have "rolling_writes os h ts st0 = rolling_writes os h us ?w" by (simp add: ts w)
  ultimately show ?thesis
    using one oo(2) f(1) ts by (intro exI [of _ css] exI [of _ d]) (simp add: same_names_def)
qed

text \<open>C39. The records of a program reach the rolling log files whole and in order: after any number of them, at least one,
  each file is the header and at least one whole record, the files from the oldest to the newest hold the last records
  without a gap, there are never more than \<open>m_maxFiles\<close> files, and records are given up only when there are that many;
  none is longer than the limit (at least 1000 bytes) and one record, and every file but the newest is longer than the
  limit. For files that are not there at the start and an operating system that writes what it is given.\<close>

theorem rolling_keeps_last:
  assumes "\<forall>f. open_ok os f" "\<forall>k. write_ret os k = int k" "0 < n" "ts \<noteq> []" "\<forall>t \<in> set ts. length t \<le> L"
    and "max (max maxFileSize 1000) (length h) + 2 * L < SIZE_MAX"
    and "\<forall>i < n. fs (buildFileName (fst (new_rolling fileName maxFileSize (int n) fs)) (int i)) = None"
  shows "\<exists>css d. ts = d @ concat (rev css) \<and> css \<noteq> [] \<and> [] \<notin> set css \<and> length css \<le> n \<and> (d \<noteq> [] \<longrightarrow> length css = n)
    \<and> (\<forall>i < n. snd (rolling_writes os h ts (new_rolling fileName maxFileSize (int n) fs))
          (buildFileName (fst (new_rolling fileName maxFileSize (int n) fs)) (int i))
        = (if i < length css then Some (h @ concat (css ! i)) else None))
    \<and> (\<forall>i < length css. length (h @ concat (css ! i)) \<le> max (max maxFileSize 1000) (length h) + L
        \<and> (0 < i \<longrightarrow> max maxFileSize 1000 < length (h @ concat (css ! i))))"
proof -
  define st where "st = new_rolling fileName maxFileSize (int n) fs"
  have os: "os_ok os" using assms(1,2) by (simp add: os_ok_def)
  obtain css d where c: "logged h n L (rolling_writes os h ts st) css" "ts = d @ concat (rev css)" "[] \<notin> set css"
        "d \<noteq> [] \<longrightarrow> n \<le> length css"
      and s: "same_names ((fst (rolling_writes os h ts st))\<lparr>m_firstWrite := True\<rparr>) (fst st)"
    using logged_all [OF os assms(3,6,5,4) st_def] assms(7) unfolding st_def by blast
  have b: "buildFileName (fst (rolling_writes os h ts st)) = buildFileName (fst st)"
    by (rule buildFileName_cong) (use s in \<open>simp_all add: same_names_def\<close>)
  have m: "m_maxFileSize (fst (rolling_writes os h ts st)) = max maxFileSize 1000"
    using s by (simp add: same_names_def st_def new_rolling_def setFileName_def Let_def)
  have "d \<noteq> [] \<longrightarrow> length css = n" using c(1,4) by (auto simp: logged_def)
  with c(1-3) show ?thesis
    unfolding logged_def b m st_def [symmetric] by (intro exI [of _ css] exI [of _ d]) (simp add: linorder_not_less)
qed

lemma three_in_two:
  assumes "[a, b, c] = d @ concat (rev css)" "css \<noteq> []" "[] \<notin> set css" "length css \<le> 2" "d \<noteq> [] \<longrightarrow> length css = 2"
    and "\<forall>i < length css. length (concat (css ! i)) \<le> 1600 \<and> (0 < i \<longrightarrow> 1000 < length (concat (css ! i)))"
    and "length a = 600" "length b = 600" "length c = 600"
  shows "css ! 0 = [c]"
proof -
  obtain x cs where css: "css = x # cs" using assms(2) by (cases css) auto
  show ?thesis
  proof (cases cs)
    case Nil
    then have "x = [a, b, c]" using assms(1,5) css by (cases d) auto
    then show ?thesis using assms(6) [rule_format, of 0] css assms(7-9) by simp
  next
    case (Cons y ys)
    then have y: "cs = [y]" using assms(4) css by simp
    then have e: "[a, b, c] = d @ y @ x" "x \<noteq> []" "y \<noteq> []" using assms(1,3) css by auto
    have "1000 < length (concat y)" using assms(6) [rule_format, of 1] css y by simp
    then have "y \<noteq> [a]" using assms(7) by auto
    with e show ?thesis using css by (auto simp: Cons_eq_append_conv append_eq_Cons_conv)
  qed
qed

text \<open>Three records of 600 bytes in two files, of which each takes two.\<close>

theorem rolling_keeps_last_witness:
  "snd (rolling_writes \<lparr>open_ok = (\<lambda>f. True), write_ret = int\<rparr> '''' [replicate 600 CHR ''a'', replicate 600 CHR ''b'', replicate 600 CHR ''c'']
      (new_rolling ''a.log'' 0 (int 2) (\<lambda>f. None))) (buildFileName (fst (new_rolling ''a.log'' 0 (int 2) (\<lambda>f. None))) (int 0))
    = Some (replicate 600 CHR ''c'')"
proof -
  let ?ts = "[replicate 600 CHR ''a'', replicate 600 CHR ''b'', replicate 600 CHR ''c'']"
  let ?st = "new_rolling ''a.log'' 0 (int 2) (\<lambda>f. None)"
  let ?w = "rolling_writes \<lparr>open_ok = (\<lambda>f. True), write_ret = int\<rparr> '''' ?ts ?st"
  have "\<exists>css d. ?ts = d @ concat (rev css) \<and> css \<noteq> [] \<and> [] \<notin> set css \<and> length css \<le> 2 \<and> (d \<noteq> [] \<longrightarrow> length css = 2)
    \<and> (\<forall>i < 2. snd ?w (buildFileName (fst ?st) (int i)) = (if i < length css then Some ('''' @ concat (css ! i)) else None))
    \<and> (\<forall>i < length css. length ('''' @ concat (css ! i)) \<le> max (max 0 1000) (length (''''::string)) + 600
        \<and> (0 < i \<longrightarrow> max 0 1000 < length ('''' @ concat (css ! i))))"
    by (rule rolling_keeps_last) (simp_all add: SIZE_MAX_def)
  then obtain css d where c: "?ts = d @ concat (rev css)" "css \<noteq> []" "[] \<notin> set css" "length css \<le> 2" "d \<noteq> [] \<longrightarrow> length css = 2"
      "\<forall>i < 2. snd ?w (buildFileName (fst ?st) (int i)) = (if i < length css then Some ('''' @ concat (css ! i)) else None)"
      "\<forall>i < length css. length ('''' @ concat (css ! i)) \<le> max (max 0 1000) (length (''''::string)) + 600
        \<and> (0 < i \<longrightarrow> max 0 1000 < length ('''' @ concat (css ! i)))"
    by (elim exE conjE)
  have "css ! 0 = [replicate 600 CHR ''c'']" by (rule three_in_two [OF c(1-5)]) (use c(7) in simp_all)
  then show ?thesis using c(6) [rule_format, of 0] c(2) by (simp del: rolling_writes.simps)
qed

subsection \<open>Severities and names\<close>

text \<open>The name of a severity is read back, from its first letter, in capital or small letters.\<close>

theorem severity_roundtrip:
  "severityFromString (severityToString s) = s \<and> severityFromString (map (\<lambda>c. char_of (of_char c + 32 :: nat)) (severityToString s)) = s"
  by (cases s) (simp_all add: severityFromString_def toupper_def char_of_eq_iff Let_def)

lemma takeWhile_append_stop: "\<forall>x \<in> set xs. P x \<Longrightarrow> \<not> P y \<Longrightarrow> takeWhile P (xs @ y # ys) = xs"
  by (induction xs) simp_all

lemma processFuncName_plain:
  assumes "CHR ''('' \<notin> set ret" "CHR ''('' \<notin> set name" "CHR '' '' \<notin> set name"
  shows "processFuncName (ret @ '' '' @ name @ ''('' @ rest) = name"
proof -
  have "takeWhile (\<lambda>c. c \<noteq> CHR ''('') ((ret @ '' '' @ name) @ CHR ''('' # rest) = ret @ '' '' @ name"
    by (rule takeWhile_append_stop) (use assms in auto)
  moreover have "takeWhile (\<lambda>c. c \<noteq> CHR '' '') (rev name @ CHR '' '' # rev ret) = rev name"
    by (rule takeWhile_append_stop) (use assms in auto)
  ultimately show ?thesis by (simp add: processFuncName_def)
qed

subsection \<open>The message of a CSV line\<close>

fun double_quotes :: "string \<Rightarrow> string" where
  "double_quotes [] = []"
| "double_quotes (c # cs) = (if c = QUOT then [QUOT, QUOT] else [c]) @ double_quotes cs"

fun undouble_quotes :: "string \<Rightarrow> string" where
  "undouble_quotes (c # d # cs) = (if c = QUOT \<and> d = QUOT then QUOT # undouble_quotes cs else c # undouble_quotes (d # cs))"
| "undouble_quotes cs = cs"

lemma csv_tokens_nonempty [simp]: "csv_tokens acc m \<noteq> []"
  by (induction m arbitrary: acc) simp_all

lemma csv_tokens_quoted:
  "concat (map (\<lambda>token. [QUOT] @ token @ [QUOT]) (csv_tokens acc m)) = QUOT # acc @ double_quotes m @ [QUOT]"
  by (induction m arbitrary: acc) simp_all

lemma undouble_double: "undouble_quotes (double_quotes m) = m"
proof (induction m)
  case (Cons c m)
  show ?case
  proof (cases "c = QUOT \<or> double_quotes m = []")
    case False
    then obtain d ds where "double_quotes m = d # ds" by (cases "double_quotes m") auto
    then show ?thesis using Cons False by simp
  qed (use Cons in auto)
qed simp

text \<open>The message of a CSV line is quoted: between two quotes stands the message with every quote doubled, so that a
  reader that takes two quotes for one gets back every message of at most 32000 characters.\<close>

theorem csv_message_roundtrip:
  assumes "length m \<le> 32000"
  shows "\<exists>body. csv_message (cut_message m) = [QUOT] @ body @ [QUOT] \<and> undouble_quotes body = m"
  using assms csv_tokens_quoted [of "''''" m] undouble_double [of m]
  by (intro exI [of _ "double_quotes m"]) (simp add: csv_message_def cut_message_def kMaxMessageSize_def)

theorem csv_message_roundtrip_witness:
  "\<exists>body. csv_message (cut_message [CHR ''a'', QUOT, CHR '';'', QUOT]) = [QUOT] @ body @ [QUOT]
     \<and> undouble_quotes body = [CHR ''a'', QUOT, CHR '';'', QUOT]"
  by (rule csv_message_roundtrip) simp

subsection \<open>Delivery\<close>

lemma stream_all: "m_severity (foldl stream r xs) = m_severity r" 
    "foldl stream r xs = r\<lparr>m_message := m_message r @ concat (map streamed_text xs)\<rparr>"
  by (induction xs arbitrary: r) (simp_all add: stream_def)

text \<open>A record reaches every appender of the logger once, in the order they were added, with the text of all streamed
  values, exactly where there is a logger whose greatest severity is not below that of the record.\<close>

theorem plog_delivers:
  "PLOG get s record_at xs w =
    (case get of
       Some l \<Rightarrow> if severity_code s \<le> severity_code (m_maxSeverity l)
         then fold (\<lambda>a. a ((record_at s)\<lparr>m_message := m_message (record_at s) @ concat (map streamed_text xs)\<rparr>)) (m_appenders l) w
         else w
     | None \<Rightarrow> w)"
  by (simp add: PLOG_def logger_add_def checkSeverity_def less_eq_Severity_def stream_all split: option.splits)

text \<open>The interface \<open>IAppender\<close>, as its clients rely on it: an appender adds a text of the record to what is seen of it
  (\<open>seen\<close>), and keeps what was there.\<close>

locale appender =
  fixes append :: "Record \<Rightarrow> 'w \<Rightarrow> 'w"
    and seen :: "'w \<Rightarrow> string"
    and shown :: "Record \<Rightarrow> string"
  assumes append_seen: "seen (append r w) = seen w @ shown r"
begin

lemma write_seen:
  assumes "m_appenders l = [append]"
  shows "seen (logger_write l r w) = seen w @ (if checkSeverity l (m_severity r) then shown r else '''')"
  using assms by (simp add: logger_write_def logger_add_def append_seen)

lemma writes_seen:
  assumes "m_appenders l = [append]"
  shows "seen (fold (logger_write l) rs w) = seen w @ concat (map shown (filter (\<lambda>r. checkSeverity l (m_severity r)) rs))"
  by (induction rs arbitrary: w) (simp_all add: write_seen [OF assms])

end

definition color_of :: "console \<Rightarrow> Severity \<Rightarrow> string" where
  "color_of a s = setColor a s (\<lambda>_. '''') (m_outputStream a)"

lemma setColor_seen: "setColor a s out (m_outputStream a) = out (m_outputStream a) @ color_of a s"
  by (simp add: color_of_def setColor_def writestr_def split: Severity.split)

interpretation console_app: appender "console_write c f a" "\<lambda>out. out (m_outputStream a)" "format c f" for c f a
  by unfold_locales (simp add: console_write_def writestr_def)

interpretation color_app: appender "color_console_write c f a" "\<lambda>out. out (m_outputStream a)"
    "\<lambda>r. color_of a (m_severity r) @ format c f r @ (if m_isatty a then ESC # ''[0m'' @ ESC # ''[0K'' else '''')" for c f a
  by unfold_locales (simp add: color_console_write_def resetColor_def writestr_def setColor_seen)

text \<open>A logger with the colour console shows the records its severity allows, in order, each between its colour and
  the sequence that takes the colour back; where the stream is no terminal there are no colours.\<close>

theorem color_console_shows:
  assumes "m_appenders l = [color_console_write c f a]"
  shows "fold (logger_write l) rs out (m_outputStream a) = out (m_outputStream a)
    @ concat (map (\<lambda>r. color_of a (m_severity r) @ format c f r @ (if m_isatty a then ESC # ''[0m'' @ ESC # ''[0K'' else ''''))
        (filter (\<lambda>r. checkSeverity l (m_severity r)) rs))"
  by (rule color_app.writes_seen [OF assms])

theorem color_console_shows_witness:
  "fold (logger_write (init info (Some (color_console_write c f \<lparr>m_isatty = True, m_outputStream = streamStdErr\<rparr>)) None))
     [new_record debug ''f'' 1 '''' 0 0 7 (0, 0), new_record error ''f'' 2 '''' 0 0 7 (0, 0)] out streamStdErr
    = out streamStdErr @ ESC # ''[91m'' @ format c f (new_record error ''f'' 2 '''' 0 0 7 (0, 0)) @ ESC # ''[0m'' @ ESC # ''[0K''"
  using color_console_shows [of "init info (Some (color_console_write c f \<lparr>m_isatty = True, m_outputStream = streamStdErr\<rparr>)) None" c f
    "\<lparr>m_isatty = True, m_outputStream = streamStdErr\<rparr>"
    "[new_record debug ''f'' 1 '''' 0 0 7 (0, 0), new_record error ''f'' 2 '''' 0 0 7 (0, 0)]" out]
  by (simp add: init_def new_logger_def addAppender_def new_record_def checkSeverity_def less_eq_Severity_def color_of_def setColor_def writestr_def)

text \<open>A logger of the init functions: the first call fixes the severity, each further call only adds an appender.\<close>

theorem init_keeps_severity:
  "init s2 (Some a2) (Some (init s1 (Some a1) None)) = \<lparr>m_maxSeverity = s1, m_appenders = [a1, a2]\<rparr>"
  by (simp add: init_def new_logger_def addAppender_def)

text \<open>The old names of the macros stand for the same severities and conditions as the new ones.\<close>

theorem old_macros_alike:
  "map (\<lambda>(name, m). (drop (length ''LOG'') name, m)) old_macros = map (\<lambda>(name, m). (drop (length ''PLOG'') name, m)) new_macros"
  by (simp add: old_macros_def new_macros_def level_macros_def levels_def)

subsection \<open>Findings\<close>

lemma dec_one: "dec 1 = ''1''"
  by code_simp

text \<open>The dot of a directory is taken for the dot of the extension: the second file of the log \<open>log.d/server\<close> is
  \<open>log.1.d/server\<close>, in another directory.\<close>

theorem dot_of_directory:
  "buildFileName (fst (new_rolling ''log.d/server'' maxFileSize n fs)) 1 = ''log.1.d/server''"
  by (simp add: dec_one [simplified] new_rolling_def setFileName_def splitFileName_def findExtensionDot_def buildFileName_def Let_def fmt_d_def)

text \<open>\<open>rollLogFiles\<close>, which is public, does not look at \<open>m_maxFiles\<close>: called for a log that is not rolled
  (\<open>m_maxFiles\<close> not positive) it deletes the log.\<close>

theorem roll_unlimited_deletes:
  assumes "m_maxFiles (fst st) \<le> 0" "\<forall>f. open_ok os f" "\<forall>k. write_ret os k = int k" "length h < SIZE_MAX"
  shows "snd (rollLogFiles os h st) (buildFileName (fst st) 0) = Some h"
proof -
  have os: "os_ok os" using assms(2,3) by (simp add: os_ok_def)
  let ?a = "(fst st)\<lparr>r_file := (r_file (fst st))\<lparr>m_file := None\<rparr>\<rparr>"
  have b: "buildFileName ?a = buildFileName (fst st)" by (rule buildFileName_cong) simp_all
  have z: "nat (m_maxFiles (fst st) - 1) = 0" "buildFileName (fst st) (m_maxFiles (fst st) - 1) = buildFileName (fst st) 0"
    using assms(1) by (simp_all add: buildFileName_def)
  let ?o = "openLogFile os h (?a, file_unlink (buildFileName (fst st) 0) (snd st))"
  have o: "snd (rollLogFiles os h st) = snd ?o"
    unfolding rollLogFiles_def Let_def by (simp add: b z file_close_def)
  have "at_end ?o h \<and> same_names (fst ?o) ?a"
    using openLogFile_end [OF os, of "(?a, file_unlink (buildFileName (fst st) 0) (snd st))" h] assms(4) by (simp add: b file_unlink_def)
  then show ?thesis using o same_names_build [of "fst ?o" ?a] b by (simp add: at_end_def)
qed

theorem roll_unlimited_deletes_witness:
  "snd (rollLogFiles \<lparr>open_ok = (\<lambda>f. True), write_ret = int\<rparr> '''' (new_rolling ''a'' 0 0 (\<lambda>f. Some ''old'')))
     (buildFileName (fst (new_rolling ''a'' 0 0 (\<lambda>f. Some ''old''))) 0) = Some ''''"
  by (rule roll_unlimited_deletes) (simp_all add: SIZE_MAX_def new_rolling_def setFileName_def Let_def)

end
