(* ===== verification/Glog.thy ===== *)
theory Glog
  imports Prelude "HOL-Library.Signed_Division"
begin

text \<open>
  The logging macros of the server: \<open>src/include/glog/logging.h\<close>, \<open>log_severity.h\<close> and \<open>vlog_is_on.h\<close>. The
  classes behind the macros are in a library that is not part of the repository: what the destruction of a message
  object does to the surroundings is the parameter \<open>destroy\<close>. What the headers fix is modelled: which
  object a statement makes for a build, when it makes one, with which text and counter, and whether the statement is
  left.
\<close>

subsection \<open>\<open>log_severity.h\<close>\<close>

definition GLOG_INFO :: int where "GLOG_INFO = 0"
definition GLOG_WARNING :: int where "GLOG_WARNING = 1"
definition GLOG_ERROR :: int where "GLOG_ERROR = 2"
definition GLOG_FATAL :: int where "GLOG_FATAL = 3"
definition NUM_SEVERITIES :: int where "NUM_SEVERITIES = 4"

text \<open>The preprocessor symbols a build sets.\<close>

record build =
  NDEBUG :: bool
  DCHECK_ALWAYS_ON :: bool
  GOOGLE_STRIP_LOG :: int
  STRIP_LOG :: int

definition DFATAL_LEVEL :: "build \<Rightarrow> int" where
  "DFATAL_LEVEL b = (if NDEBUG b then GLOG_ERROR else GLOG_FATAL)"

definition DEBUG_MODE :: "build \<Rightarrow> bool" where
  "DEBUG_MODE b \<longleftrightarrow> \<not> NDEBUG b"

subsection \<open>Message objects\<close>

text \<open>The names a macro appends to: \<open>LOG (INFO)\<close> and so on.\<close>

datatype level = INFO | WARNING | ERROR | FATAL | DFATAL

datatype send_method = SendToLog | SendToSyslogAndLog | SendToSinkAndLog | SendToSink | WriteToStringAndLog | SaveOrSendToLog

text \<open>Severity, counter, and the way it is sent; the text of a failed check of two values.\<close>

datatype log_object =
    LogMessage int int send_method
  | ErrnoLogMessage int int send_method
  | LogMessageFatal "string option"
  | NullStream
  | NullStreamFatal

definition DCHECK_IS_ON :: "build \<Rightarrow> bool" where
  "DCHECK_IS_ON b \<longleftrightarrow> \<not> (NDEBUG b \<and> \<not> DCHECK_ALWAYS_ON b)"

fun COMPACT_GOOGLE_LOG :: "build \<Rightarrow> level \<Rightarrow> log_object" where
  "COMPACT_GOOGLE_LOG b INFO = (if GOOGLE_STRIP_LOG b = 0 then LogMessage GLOG_INFO 0 SendToLog else NullStream)"
| "COMPACT_GOOGLE_LOG b WARNING = (if GOOGLE_STRIP_LOG b \<le> 1 then LogMessage GLOG_WARNING 0 SendToLog else NullStream)"
| "COMPACT_GOOGLE_LOG b ERROR = (if GOOGLE_STRIP_LOG b \<le> 2 then LogMessage GLOG_ERROR 0 SendToLog else NullStream)"
| "COMPACT_GOOGLE_LOG b FATAL = (if GOOGLE_STRIP_LOG b \<le> 3 then LogMessageFatal None else NullStreamFatal)"
| "COMPACT_GOOGLE_LOG b DFATAL =
     (if \<not> DCHECK_IS_ON b then (if GOOGLE_STRIP_LOG b \<le> 2 then LogMessage GLOG_ERROR 0 SendToLog else NullStream)
      else if GOOGLE_STRIP_LOG b \<le> 3 then LogMessage GLOG_FATAL 0 SendToLog
      else NullStreamFatal)"

text \<open>\<open>send\<close>: by the type of the argument, a string or a vector of strings. There is none for \<open>DFATAL\<close>.\<close>

fun LOG_TO_STRING :: "build \<Rightarrow> send_method \<Rightarrow> level \<Rightarrow> log_object option" where
  "LOG_TO_STRING b send INFO = Some (if GOOGLE_STRIP_LOG b = 0 then LogMessage GLOG_INFO 0 send else NullStream)"
| "LOG_TO_STRING b send WARNING = Some (if GOOGLE_STRIP_LOG b \<le> 1 then LogMessage GLOG_WARNING 0 send else NullStream)"
| "LOG_TO_STRING b send ERROR = Some (if GOOGLE_STRIP_LOG b \<le> 2 then LogMessage GLOG_ERROR 0 send else NullStream)"
| "LOG_TO_STRING b send FATAL = Some (if GOOGLE_STRIP_LOG b \<le> 3 then LogMessage GLOG_FATAL 0 send else NullStreamFatal)"
| "LOG_TO_STRING b send DFATAL = None"

fun level_code :: "build \<Rightarrow> level \<Rightarrow> int" where
  "level_code b INFO = GLOG_INFO"
| "level_code b WARNING = GLOG_WARNING"
| "level_code b ERROR = GLOG_ERROR"
| "level_code b FATAL = GLOG_FATAL"
| "level_code b DFATAL = DFATAL_LEVEL b"

definition GOOGLE_LOG :: "build \<Rightarrow> level \<Rightarrow> int \<Rightarrow> log_object" where
  "GOOGLE_LOG b l counter = LogMessage (level_code b l) counter SendToLog"

definition SYSLOG :: "build \<Rightarrow> level \<Rightarrow> int \<Rightarrow> log_object" where
  "SYSLOG b l counter = LogMessage (level_code b l) counter SendToSyslogAndLog"

definition LOG_TO_SINK :: "build \<Rightarrow> level \<Rightarrow> bool \<Rightarrow> log_object" where
  "LOG_TO_SINK b l also_send_to_log = LogMessage (level_code b l) 0 (if also_send_to_log then SendToSinkAndLog else SendToSink)"

definition LOG_STRING :: "build \<Rightarrow> level \<Rightarrow> log_object option" where
  "LOG_STRING b l = LOG_TO_STRING b SaveOrSendToLog l"

definition LOG_AT_LEVEL :: "int \<Rightarrow> log_object" where
  "LOG_AT_LEVEL severity = LogMessage severity 0 SendToLog"

subsection \<open>Statements\<close>

text \<open>A statement is left, or the program ends in it.\<close>

datatype 'w run = Running 'w | Exited 'w

fun and_then :: "'w run \<Rightarrow> ('w \<Rightarrow> 'w run) \<Rightarrow> 'w run" where
  "and_then (Running w) f = f w"
| "and_then (Exited w) f = Exited w"

text \<open>The end of the full expression: a \<open>NullStream\<close> has taken nothing, the destructors of the fatal classes do
  not return.\<close>

record 'w glog_lib =
  destroy :: "log_object \<Rightarrow> string \<Rightarrow> 'w \<Rightarrow> 'w run"

fun run_world :: "'w run \<Rightarrow> 'w" where
  "run_world (Running w) = w"
| "run_world (Exited w) = w"

fun finish :: "'w glog_lib \<Rightarrow> log_object \<Rightarrow> string \<Rightarrow> 'w \<Rightarrow> 'w run" where
  "finish lib NullStream t w = Running w"
| "finish lib NullStreamFatal t w = Exited w"
| "finish lib (LogMessageFatal c) t w = Exited (run_world (destroy lib (LogMessageFatal c) t w))"
| "finish lib (LogMessage s n m) t w = destroy lib (LogMessage s n m) t w"
| "finish lib (ErrnoLogMessage s n m) t w = destroy lib (ErrnoLogMessage s n m) t w"

definition LOG :: "build \<Rightarrow> 'w glog_lib \<Rightarrow> level \<Rightarrow> string \<Rightarrow> 'w \<Rightarrow> 'w run" where
  "LOG b lib l t w = finish lib (COMPACT_GOOGLE_LOG b l) t w"

definition LOG_IF :: "build \<Rightarrow> 'w glog_lib \<Rightarrow> level \<Rightarrow> bool \<Rightarrow> string \<Rightarrow> 'w \<Rightarrow> 'w run" where
  "LOG_IF b lib l condition t w = (if \<not> condition then Running w else LOG b lib l t w)"

definition SYSLOG_IF :: "build \<Rightarrow> 'w glog_lib \<Rightarrow> level \<Rightarrow> bool \<Rightarrow> string \<Rightarrow> 'w \<Rightarrow> 'w run" where
  "SYSLOG_IF b lib l condition t w = (if \<not> condition then Running w else finish lib (SYSLOG b l 0) t w)"

text \<open>\<open>condition_text\<close> is the condition as it is written.\<close>

definition LOG_ASSERT :: "build \<Rightarrow> 'w glog_lib \<Rightarrow> string \<Rightarrow> bool \<Rightarrow> string \<Rightarrow> 'w \<Rightarrow> 'w run" where
  "LOG_ASSERT b lib condition_text condition t = LOG_IF b lib FATAL (\<not> condition) (''Assert failed: '' @ condition_text @ t)"

definition SYSLOG_ASSERT :: "build \<Rightarrow> 'w glog_lib \<Rightarrow> string \<Rightarrow> bool \<Rightarrow> string \<Rightarrow> 'w \<Rightarrow> 'w run" where
  "SYSLOG_ASSERT b lib condition_text condition t = SYSLOG_IF b lib FATAL (\<not> condition) (''Assert failed: '' @ condition_text @ t)"

definition CHECK :: "build \<Rightarrow> 'w glog_lib \<Rightarrow> string \<Rightarrow> bool \<Rightarrow> string \<Rightarrow> 'w \<Rightarrow> 'w run" where
  "CHECK b lib condition_text condition t = LOG_IF b lib FATAL (\<not> condition) (''Check failed: '' @ condition_text @ '' '' @ t)"

subsection \<open>Checks of two values\<close>

text \<open>\<open>show\<close> is how a value is streamed.\<close>

definition MakeCheckOpString :: "('a \<Rightarrow> string) \<Rightarrow> 'a \<Rightarrow> 'a \<Rightarrow> string \<Rightarrow> string" where
  "MakeCheckOpString show v1 v2 exprtext = exprtext @ '' ('' @ show v1 @ '' vs. '' @ show v2 @ '')''"

definition Check_Impl :: "('a \<Rightarrow> 'a \<Rightarrow> bool) \<Rightarrow> ('a \<Rightarrow> string) \<Rightarrow> 'a \<Rightarrow> 'a \<Rightarrow> string \<Rightarrow> string option" where
  "Check_Impl cmp show v1 v2 exprtext = (if cmp v1 v2 then None else Some (MakeCheckOpString show v1 v2 exprtext))"

text \<open>\<open>while (result = Impl (...)) log (...)\<close>: the body is not left, so it is run once at most.\<close>

definition CHECK_OP_LOG :: "'w glog_lib \<Rightarrow> (string \<Rightarrow> log_object) \<Rightarrow> string option \<Rightarrow> string \<Rightarrow> 'w \<Rightarrow> 'w run" where
  "CHECK_OP_LOG lib log result t w = (case result of None \<Rightarrow> Running w | Some s \<Rightarrow> finish lib (log s) t w)"

definition CHECK_OP ::
    "build \<Rightarrow> 'w glog_lib \<Rightarrow> string \<Rightarrow> ('a \<Rightarrow> 'a \<Rightarrow> bool) \<Rightarrow> ('a \<Rightarrow> string) \<Rightarrow> string \<Rightarrow> 'a \<Rightarrow> string \<Rightarrow> 'a \<Rightarrow> string \<Rightarrow> 'w \<Rightarrow> 'w run" where
  "CHECK_OP b lib op_text cmp show text1 v1 text2 v2 =
     CHECK_OP_LOG lib (if GOOGLE_STRIP_LOG b \<le> 3 then (\<lambda>s. LogMessageFatal (Some s)) else (\<lambda>s. NullStreamFatal))
       (Check_Impl cmp show v1 v2 (text1 @ '' '' @ op_text @ '' '' @ text2))"

definition CHECK_EQ where "CHECK_EQ b lib = CHECK_OP b lib ''=='' (=)"
definition CHECK_NE where "CHECK_NE b lib = CHECK_OP b lib ''!='' (\<noteq>)"
definition CHECK_LE where "CHECK_LE b lib = CHECK_OP b lib ''<='' (\<le>)"
definition CHECK_LT where "CHECK_LT b lib = CHECK_OP b lib ''<'' (<)"
definition CHECK_GE where "CHECK_GE b lib = CHECK_OP b lib ''>='' (\<ge>)"
definition CHECK_GT where "CHECK_GT b lib = CHECK_OP b lib ''>'' (>)"

text \<open>\<open>None\<close> is the null pointer; the value is handed on.\<close>

definition CheckNotNull :: "'w glog_lib \<Rightarrow> string \<Rightarrow> 'a option \<Rightarrow> 'w \<Rightarrow> ('w run \<times> 'a option)" where
  "CheckNotNull lib names t w = (if t = None then (finish lib (LogMessageFatal (Some names)) '''' w, t) else (Running w, t))"

definition CHECK_NOTNULL :: "'w glog_lib \<Rightarrow> string \<Rightarrow> 'a option \<Rightarrow> 'w \<Rightarrow> ('w run \<times> 'a option)" where
  "CHECK_NOTNULL lib val_text = CheckNotNull lib ([CHR 0x27] @ val_text @ [CHR 0x27] @ '' Must be non NULL'')"

text \<open>\<open>impl\<close> is the comparison of the library, \<open>Some\<close> the text of its failure.\<close>

definition CHECK_STROP ::
    "build \<Rightarrow> 'w glog_lib \<Rightarrow> (string \<Rightarrow> string \<Rightarrow> string \<Rightarrow> string option) \<Rightarrow> string \<Rightarrow> string \<Rightarrow> string \<Rightarrow> string \<Rightarrow> string \<Rightarrow> string \<Rightarrow> 'w \<Rightarrow> 'w run" where
  "CHECK_STROP b lib impl op_text text1 s1 text2 s2 t w =
     (case impl s1 s2 (text1 @ '' '' @ op_text @ '' '' @ text2) of
        None \<Rightarrow> Running w
      | Some r \<Rightarrow> finish lib (COMPACT_GOOGLE_LOG b FATAL) (r @ t) w)"

definition CHECK_INDEX :: "build \<Rightarrow> 'w glog_lib \<Rightarrow> string \<Rightarrow> string \<Rightarrow> nat \<Rightarrow> 'a list \<Rightarrow> string \<Rightarrow> 'w \<Rightarrow> 'w run" where
  "CHECK_INDEX b lib i_text a_text i a = CHECK b lib (i_text @ '' < (sizeof('' @ a_text @ '')/sizeof('' @ a_text @ ''[0]))'') (i < length a)"

definition CHECK_BOUND :: "build \<Rightarrow> 'w glog_lib \<Rightarrow> string \<Rightarrow> string \<Rightarrow> nat \<Rightarrow> 'a list \<Rightarrow> string \<Rightarrow> 'w \<Rightarrow> 'w run" where
  "CHECK_BOUND b lib i_text a_text i a = CHECK b lib (i_text @ '' <= (sizeof('' @ a_text @ '')/sizeof('' @ a_text @ ''[0]))'') (i \<le> length a)"

text \<open>With exact arithmetic.\<close>

definition CHECK_NEAR ::
    "build \<Rightarrow> 'w glog_lib \<Rightarrow> ('a \<Rightarrow> string) \<Rightarrow> string \<Rightarrow> 'a \<Rightarrow> string \<Rightarrow> 'a \<Rightarrow> string \<Rightarrow> 'a::linordered_ab_group_add \<Rightarrow> 'w \<Rightarrow> 'w run" where
  "CHECK_NEAR b lib show text1 v1 text2 v2 m_text margin w =
     and_then (CHECK_LE b lib show (''('' @ text1 @ '')'') v1 (''('' @ text2 @ '')+('' @ m_text @ '')'') (v2 + margin) '''' w)
       (CHECK_GE b lib show (''('' @ text1 @ '')'') v1 (''('' @ text2 @ '')-('' @ m_text @ '')'') (v2 - margin) '''')"

subsection \<open>With \<open>errno\<close>\<close>

definition GOOGLE_PLOG :: "build \<Rightarrow> level \<Rightarrow> int \<Rightarrow> log_object" where
  "GOOGLE_PLOG b l counter = ErrnoLogMessage (level_code b l) counter SendToLog"

definition GPLOG_IF :: "build \<Rightarrow> 'w glog_lib \<Rightarrow> level \<Rightarrow> bool \<Rightarrow> string \<Rightarrow> 'w \<Rightarrow> 'w run" where
  "GPLOG_IF b lib l condition t w = (if \<not> condition then Running w else finish lib (GOOGLE_PLOG b l 0) t w)"

definition PCHECK :: "build \<Rightarrow> 'w glog_lib \<Rightarrow> string \<Rightarrow> bool \<Rightarrow> string \<Rightarrow> 'w \<Rightarrow> 'w run" where
  "PCHECK b lib condition_text condition t = GPLOG_IF b lib FATAL (\<not> condition) (''Check failed: '' @ condition_text @ '' '' @ t)"

definition CHECK_ERR :: "build \<Rightarrow> 'w glog_lib \<Rightarrow> string \<Rightarrow> int \<Rightarrow> string \<Rightarrow> 'w \<Rightarrow> 'w run" where
  "CHECK_ERR b lib invocation_text invocation t = GPLOG_IF b lib FATAL (invocation = -1) (invocation_text @ t)"

subsection \<open>Statements that count\<close>

text \<open>The static counters are of type \<open>int\<close>; counting past the greatest value is undefined (\<open>None\<close>), and so is a
  remainder by 0.\<close>

definition INT_MAX :: int where "INT_MAX = 2 ^ 31 - 1"

definition incr :: "int \<Rightarrow> int option" where
  "incr i = (if i < INT_MAX then Some (i + 1) else None)"

text \<open>Each gives the counters behind the statement, and the counter of the message where there is one.\<close>

definition SOME_KIND_OF_LOG_EVERY_N :: "int \<Rightarrow> int \<times> int \<Rightarrow> ((int \<times> int) \<times> int option) option" where
  "SOME_KIND_OF_LOG_EVERY_N n st =
     (case incr (fst st) of
        None \<Rightarrow> None
      | Some occurrences \<Rightarrow>
          (case incr (snd st) of
             None \<Rightarrow> None
           | Some m \<Rightarrow>
               let mod_n = (if m > n then m - n else m)
               in if mod_n > INT_MAX then None
                  else Some ((occurrences, mod_n), if mod_n = 1 then Some occurrences else None)))"

definition SOME_KIND_OF_LOG_IF_EVERY_N :: "int \<Rightarrow> bool \<Rightarrow> int \<times> int \<Rightarrow> ((int \<times> int) \<times> int option) option" where
  "SOME_KIND_OF_LOG_IF_EVERY_N n condition st =
     (case incr (fst st) of
        None \<Rightarrow> None
      | Some occurrences \<Rightarrow>
          if \<not> condition then Some ((occurrences, snd st), None)
          else if n = 0 then None
          else (case incr (snd st) of
             None \<Rightarrow> None
           | Some m \<Rightarrow>
               let mod_n = m smod n
               in Some ((occurrences, mod_n), if mod_n = 1 smod n then Some occurrences else None)))"

definition SOME_KIND_OF_LOG_FIRST_N :: "int \<Rightarrow> int \<Rightarrow> (int \<times> int option) option" where
  "SOME_KIND_OF_LOG_FIRST_N n occurrences =
     (case (if occurrences \<le> n then incr occurrences else Some occurrences) of
        None \<Rightarrow> None
      | Some occurrences \<Rightarrow> Some (occurrences, if occurrences \<le> n then Some occurrences else None))"

text \<open>The message of a counting statement, if it has one; its text may use the counter (\<open>google::COUNTER\<close>).\<close>

definition emit :: "'w glog_lib \<Rightarrow> (int \<Rightarrow> log_object) \<Rightarrow> (int \<Rightarrow> string) \<Rightarrow> ('s \<times> int option) option \<Rightarrow> 'w \<Rightarrow> ('s \<times> 'w run) option" where
  "emit lib obj t r w =
     (case r of
        None \<Rightarrow> None
      | Some (st, c) \<Rightarrow> Some (st, case c of None \<Rightarrow> Running w | Some n \<Rightarrow> finish lib (obj n) (t n) w))"

definition LOG_EVERY_N where
  "LOG_EVERY_N b lib l n t st = emit lib (\<lambda>c. LogMessage (level_code b l) c SendToLog) t (SOME_KIND_OF_LOG_EVERY_N n st)"
definition SYSLOG_EVERY_N where
  "SYSLOG_EVERY_N b lib l n t st = emit lib (\<lambda>c. LogMessage (level_code b l) c SendToSyslogAndLog) t (SOME_KIND_OF_LOG_EVERY_N n st)"
definition PLOG_EVERY_N where
  "PLOG_EVERY_N b lib l n t st = emit lib (\<lambda>c. ErrnoLogMessage (level_code b l) c SendToLog) t (SOME_KIND_OF_LOG_EVERY_N n st)"
definition LOG_FIRST_N where
  "LOG_FIRST_N b lib l n t st = emit lib (\<lambda>c. LogMessage (level_code b l) c SendToLog) t (SOME_KIND_OF_LOG_FIRST_N n st)"
definition LOG_IF_EVERY_N where
  "LOG_IF_EVERY_N b lib l condition n t st =
     emit lib (\<lambda>c. LogMessage (level_code b l) c SendToLog) t (SOME_KIND_OF_LOG_IF_EVERY_N n condition st)"

subsection \<open>\<open>vlog_is_on.h\<close>\<close>

text \<open>The variable a statement looks at: none yet (it is \<open>kLogSiteUninitialized\<close>), or one of the library.\<close>

datatype site = Uninitialized | Variable nat

text \<open>\<open>InitVLOG3__\<close> of the library chooses the variable and answers itself.\<close>

record vlog_lib =
  kLogSiteUninitialized :: int
  variable :: "nat \<Rightarrow> int"
  InitVLOG3 :: "int \<Rightarrow> site \<times> bool"

definition VLOG_IS_ON :: "vlog_lib \<Rightarrow> int \<Rightarrow> site \<Rightarrow> site \<times> bool" where
  "VLOG_IS_ON v verboselevel vlocal =
     (case vlocal of
        Uninitialized \<Rightarrow> if kLogSiteUninitialized v \<ge> verboselevel then InitVLOG3 v verboselevel else (vlocal, False)
      | Variable x \<Rightarrow> (vlocal, variable v x \<ge> verboselevel))"

text \<open>\<open>VLOG\<close> and its variants: the site behind the statement and its run. \<open>condition && VLOG_IS_ON\<close> asks the second
  only where the first holds.\<close>

definition VLOG_IF :: "build \<Rightarrow> 'w glog_lib \<Rightarrow> vlog_lib \<Rightarrow> int \<Rightarrow> bool \<Rightarrow> string \<Rightarrow> site \<Rightarrow> 'w \<Rightarrow> site \<times> 'w run" where
  "VLOG_IF b lib v verboselevel condition t vlocal w =
     (let r = (if condition then VLOG_IS_ON v verboselevel vlocal else (vlocal, False))
      in (fst r, LOG_IF b lib INFO (snd r) t w))"

definition VLOG :: "build \<Rightarrow> 'w glog_lib \<Rightarrow> vlog_lib \<Rightarrow> int \<Rightarrow> string \<Rightarrow> site \<Rightarrow> 'w \<Rightarrow> site \<times> 'w run" where
  "VLOG b lib v verboselevel t vlocal w =
     (let r = VLOG_IS_ON v verboselevel vlocal in (fst r, LOG_IF b lib INFO (snd r) t w))"

definition VLOG_IF_EVERY_N where
  "VLOG_IF_EVERY_N b lib v verboselevel condition n t vlocal st w =
     (let r = (if condition then VLOG_IS_ON v verboselevel vlocal else (vlocal, False))
      in (fst r, LOG_IF_EVERY_N b lib INFO (snd r) n t st w))"

definition VLOG_EVERY_N where
  "VLOG_EVERY_N b lib v verboselevel n t vlocal st w = VLOG_IF_EVERY_N b lib v verboselevel True n t vlocal st w"

subsection \<open>Debug statements\<close>

text \<open>Where \<open>DCHECK_IS_ON\<close> is 0 the statement is compiled and never run.\<close>

definition DLOG where
  "DLOG b lib l t w = (if DCHECK_IS_ON b then LOG b lib l t w else Running w)"
definition DVLOG where
  "DVLOG b lib v verboselevel t vlocal w = (if DCHECK_IS_ON b then VLOG b lib v verboselevel t vlocal w else (vlocal, Running w))"
definition DLOG_IF where
  "DLOG_IF b lib l condition t w = (if DCHECK_IS_ON b then LOG_IF b lib l condition t w else Running w)"
definition DLOG_EVERY_N where
  "DLOG_EVERY_N b lib l n t st w = (if DCHECK_IS_ON b then LOG_EVERY_N b lib l n t st w else Some (st, Running w))"
definition DLOG_IF_EVERY_N where
  "DLOG_IF_EVERY_N b lib l condition n t st w =
     (if DCHECK_IS_ON b then LOG_IF_EVERY_N b lib l condition n t st w else Some (st, Running w))"
definition DLOG_ASSERT where
  "DLOG_ASSERT b lib condition_text condition t w =
     (if DCHECK_IS_ON b then LOG_ASSERT b lib condition_text condition t w else Running w)"
definition DCHECK where
  "DCHECK b lib condition_text condition t w = (if DCHECK_IS_ON b then CHECK b lib condition_text condition t w else Running w)"
definition DCHECK_EQ where
  "DCHECK_EQ b lib show t1 v1 t2 v2 t w = (if DCHECK_IS_ON b then CHECK_EQ b lib show t1 v1 t2 v2 t w else Running w)"
definition DCHECK_NE where
  "DCHECK_NE b lib show t1 v1 t2 v2 t w = (if DCHECK_IS_ON b then CHECK_NE b lib show t1 v1 t2 v2 t w else Running w)"
definition DCHECK_LE where
  "DCHECK_LE b lib show t1 v1 t2 v2 t w = (if DCHECK_IS_ON b then CHECK_LE b lib show t1 v1 t2 v2 t w else Running w)"
definition DCHECK_LT where
  "DCHECK_LT b lib show t1 v1 t2 v2 t w = (if DCHECK_IS_ON b then CHECK_LT b lib show t1 v1 t2 v2 t w else Running w)"
definition DCHECK_GE where
  "DCHECK_GE b lib show t1 v1 t2 v2 t w = (if DCHECK_IS_ON b then CHECK_GE b lib show t1 v1 t2 v2 t w else Running w)"
definition DCHECK_GT where
  "DCHECK_GT b lib show t1 v1 t2 v2 t w = (if DCHECK_IS_ON b then CHECK_GT b lib show t1 v1 t2 v2 t w else Running w)"
definition DCHECK_NOTNULL where
  "DCHECK_NOTNULL b lib val_text val w = (if DCHECK_IS_ON b then CHECK_NOTNULL lib val_text val w else (Running w, val))"

text \<open>\<open>DCHECK_STREQ\<close>, \<open>_STRNE\<close>, \<open>_STRCASEEQ\<close> and \<open>_STRCASENE\<close> by their comparison.\<close>

definition DCHECK_STROP where
  "DCHECK_STROP b lib impl op_text t1 s1 t2 s2 t w =
     (if DCHECK_IS_ON b then CHECK_STROP b lib impl op_text t1 s1 t2 s2 t w else Running w)"

end
