(* ===== verification/GlogText.thy ===== *)
theory GlogText
  imports Glog
begin

text \<open>
  The stream of a message (\<open>LogStreamBuf\<close>, \<open>NullStream\<close> in \<open>src/include/glog/logging.h\<close>), the containers that
  are streamed (\<open>stl_logging.h\<close>) and the low-level logging (\<open>raw_logging.h\<close>).
\<close>

subsection \<open>The buffer of a message\<close>

text \<open>A \<open>streambuf\<close>: the array, the place of the next character and the end of the put area, as offsets into the
  array.\<close>

record put_area =
  array :: string
  pptr :: nat
  epptr :: int

definition LogStreamBuf :: "string \<Rightarrow> int \<Rightarrow> put_area" where
  "LogStreamBuf buf len = \<lparr>array = buf, pptr = 0, epptr = len - 2\<rparr>"

text \<open>\<open>sputc\<close>: a character is stored where the put area has room, else it is given to \<open>overflow\<close>, which drops it
  and claims success. A store outside of the array is a fault.\<close>

definition sputc :: "char \<Rightarrow> put_area \<Rightarrow> fault + put_area" where
  "sputc ch a =
     (if int (pptr a) < epptr a
      then if pptr a < length (array a)
           then Inr (a\<lparr>array := (array a)[pptr a := ch], pptr := pptr a + 1\<rparr>)
           else Inl BufferOverflow
      else Inr a)"

fun sputs :: "string \<Rightarrow> put_area \<Rightarrow> fault + put_area" where
  "sputs [] a = Inr a"
| "sputs (c # cs) a = bindE (sputc c a) (sputs cs)"

definition pcount :: "put_area \<Rightarrow> nat" where "pcount a = pptr a"

record log_stream =
  streambuf :: put_area
  ctr :: int

definition LogStream :: "string \<Rightarrow> int \<Rightarrow> int \<Rightarrow> log_stream" where
  "LogStream buf len c = \<lparr>streambuf = LogStreamBuf buf len, ctr = c\<rparr>"

definition set_ctr :: "int \<Rightarrow> log_stream \<Rightarrow> log_stream" where
  "set_ctr c s = s\<lparr>ctr := c\<rparr>"

text \<open>\<open>message_buffer\<close> has two characters, the length handed on is 1.\<close>

definition new_NullStream :: "string \<Rightarrow> log_stream" where
  "new_NullStream message_buffer = LogStream message_buffer 1 0"

subsection \<open>Containers\<close>

text \<open>The loop of \<open>PrintSequence\<close> from the element with index \<open>i\<close>: what is streamed, and the elements left.\<close>

fun print_elements :: "('a \<Rightarrow> string) \<Rightarrow> nat \<Rightarrow> 'a list \<Rightarrow> string \<times> 'a list" where
  "print_elements show i [] = ('''', [])"
| "print_elements show i (x # xs) =
     (if i < 100
      then (let r = print_elements show (i + 1) xs in ((if i > 0 then '' '' else '''') @ show x @ fst r, snd r))
      else ('''', x # xs))"

definition PrintSequence :: "('a \<Rightarrow> string) \<Rightarrow> 'a list \<Rightarrow> string" where
  "PrintSequence show xs = (let r = print_elements show 0 xs in fst r @ (if snd r \<noteq> [] then '' ...'' else ''''))"

definition print_pair :: "('a \<Rightarrow> string) \<Rightarrow> ('b \<Rightarrow> string) \<Rightarrow> 'a \<times> 'b \<Rightarrow> string" where
  "print_pair show1 show2 p = ''('' @ show1 (fst p) @ '', '' @ show2 (snd p) @ '')''"

text \<open>Vectors, deques, lists and sets by their elements in order, maps by their pairs.\<close>

definition print_container :: "('a \<Rightarrow> string) \<Rightarrow> 'a list \<Rightarrow> string" where
  "print_container show seq = PrintSequence show seq"

definition print_map :: "('a \<Rightarrow> string) \<Rightarrow> ('b \<Rightarrow> string) \<Rightarrow> ('a \<times> 'b) list \<Rightarrow> string" where
  "print_map show1 show2 seq = PrintSequence (print_pair show1 show2) seq"

subsection \<open>\<open>raw_logging.h\<close>\<close>

text \<open>\<open>RawLog\<close> is the function of the library for a severity and the formatted text; \<open>RawLogStub\<close> does nothing.\<close>

definition RawLogStub :: "'w \<Rightarrow> 'w" where "RawLogStub w = w"

definition RAW_LOG_INFO :: "build \<Rightarrow> (int \<Rightarrow> string \<Rightarrow> 'w \<Rightarrow> 'w run) \<Rightarrow> string \<Rightarrow> 'w \<Rightarrow> 'w run" where
  "RAW_LOG_INFO b RawLog t w = (if STRIP_LOG b = 0 then RawLog GLOG_INFO t w else Running (RawLogStub w))"
definition RAW_LOG_WARNING :: "build \<Rightarrow> (int \<Rightarrow> string \<Rightarrow> 'w \<Rightarrow> 'w run) \<Rightarrow> string \<Rightarrow> 'w \<Rightarrow> 'w run" where
  "RAW_LOG_WARNING b RawLog t w = (if STRIP_LOG b \<le> 1 then RawLog GLOG_WARNING t w else Running (RawLogStub w))"
definition RAW_LOG_ERROR :: "build \<Rightarrow> (int \<Rightarrow> string \<Rightarrow> 'w \<Rightarrow> 'w run) \<Rightarrow> string \<Rightarrow> 'w \<Rightarrow> 'w run" where
  "RAW_LOG_ERROR b RawLog t w = (if STRIP_LOG b \<le> 2 then RawLog GLOG_ERROR t w else Running (RawLogStub w))"
definition RAW_LOG_FATAL :: "build \<Rightarrow> (int \<Rightarrow> string \<Rightarrow> 'w \<Rightarrow> 'w run) \<Rightarrow> string \<Rightarrow> 'w \<Rightarrow> 'w run" where
  "RAW_LOG_FATAL b RawLog t w = (if STRIP_LOG b \<le> 3 then RawLog GLOG_FATAL t w else Exited (RawLogStub w))"

definition RAW_LOG :: "build \<Rightarrow> (int \<Rightarrow> string \<Rightarrow> 'w \<Rightarrow> 'w run) \<Rightarrow> int \<Rightarrow> string \<Rightarrow> 'w \<Rightarrow> 'w run" where
  "RAW_LOG b RawLog severity t w =
     (if severity = 0 then RAW_LOG_INFO b RawLog t w
      else if severity = 1 then RAW_LOG_WARNING b RawLog t w
      else if severity = 2 then RAW_LOG_ERROR b RawLog t w
      else if severity = 3 then RAW_LOG_FATAL b RawLog t w
      else Running w)"

definition RAW_VLOG ::
    "build \<Rightarrow> (int \<Rightarrow> string \<Rightarrow> 'w \<Rightarrow> 'w run) \<Rightarrow> vlog_lib \<Rightarrow> int \<Rightarrow> string \<Rightarrow> site \<Rightarrow> 'w \<Rightarrow> site \<times> 'w run" where
  "RAW_VLOG b RawLog v verboselevel t vlocal w =
     (if STRIP_LOG b = 0
      then (let r = VLOG_IS_ON v verboselevel vlocal in (fst r, if snd r then RAW_LOG_INFO b RawLog t w else Running w))
      else (vlocal, Running (RawLogStub w)))"

definition RAW_CHECK :: "build \<Rightarrow> (int \<Rightarrow> string \<Rightarrow> 'w \<Rightarrow> 'w run) \<Rightarrow> string \<Rightarrow> bool \<Rightarrow> string \<Rightarrow> 'w \<Rightarrow> 'w run" where
  "RAW_CHECK b RawLog condition_text condition msg w =
     (if \<not> condition then RAW_LOG b RawLog GLOG_FATAL (''Check '' @ condition_text @ '' failed: '' @ msg) w else Running w)"

definition RAW_DLOG :: "build \<Rightarrow> (int \<Rightarrow> string \<Rightarrow> 'w \<Rightarrow> 'w run) \<Rightarrow> int \<Rightarrow> string \<Rightarrow> 'w \<Rightarrow> 'w run" where
  "RAW_DLOG b RawLog severity t w = (if \<not> NDEBUG b then RAW_LOG b RawLog severity t w else Running w)"

definition RAW_DCHECK :: "build \<Rightarrow> (int \<Rightarrow> string \<Rightarrow> 'w \<Rightarrow> 'w run) \<Rightarrow> string \<Rightarrow> bool \<Rightarrow> string \<Rightarrow> 'w \<Rightarrow> 'w run" where
  "RAW_DCHECK b RawLog condition_text condition msg w =
     (if \<not> NDEBUG b then RAW_CHECK b RawLog condition_text condition msg w else Running w)"

end
