(* ===== verification/GlogProps.thy ===== *)
theory GlogProps
  imports GlogText
begin

text \<open>
  What the logging macros of \<open>src/include/glog\<close> promise: the rates of the counting statements, the end of a program
  at a failed check in every build, the text that fits into a message, and the length of a printed container.
\<close>

subsection \<open>Rates\<close>

text \<open>A statement run once for each element of a list, with the counters of the messages it gives.\<close>

fun run_statement :: "('a \<Rightarrow> 's \<Rightarrow> ('s \<times> int option) option) \<Rightarrow> 'a list \<Rightarrow> 's \<Rightarrow> int option list option" where
  "run_statement f [] st = Some []"
| "run_statement f (x # xs) st =
     (case f x st of None \<Rightarrow> None | Some (st, c) \<Rightarrow> map_option ((#) c) (run_statement f xs st))"

definition every_n_counter :: "int \<Rightarrow> int \<Rightarrow> int" where
  "every_n_counter n j = (if j = 0 then 0 else (j - 1) mod n + 1)"

lemma every_n_counter_next:
  assumes "0 < n" "0 \<le> j"
  shows "every_n_counter n (j + 1) = (if every_n_counter n j + 1 > n then every_n_counter n j + 1 - n else every_n_counter n j + 1)"
    "every_n_counter n (j + 1) = 1 \<longleftrightarrow> n dvd j" "0 \<le> every_n_counter n j" "every_n_counter n j \<le> n"
proof -
  have b: "0 \<le> (j - 1) mod n" "(j - 1) mod n < n" using assms(1) by simp_all
  then show "0 \<le> every_n_counter n j" "every_n_counter n j \<le> n" using assms(1) b by (auto simp: every_n_counter_def)
  show "every_n_counter n (j + 1) = 1 \<longleftrightarrow> n dvd j" using assms(2) by (simp add: every_n_counter_def dvd_eq_mod_eq_0)
  have "j mod n = (if (j - 1) mod n + 1 = n then 0 else (j - 1) mod n + 1)"
  proof -
    have "j mod n = ((j - 1) mod n + 1) mod n" by (simp add: mod_simps)
    moreover have "((j - 1) mod n + 1) mod n = (j - 1) mod n + 1" if "(j - 1) mod n + 1 \<noteq> n"
      by (rule mod_pos_pos_trivial) (use b that in auto)
    ultimately show ?thesis by auto
  qed
  then show "every_n_counter n (j + 1) = (if every_n_counter n j + 1 > n then every_n_counter n j + 1 - n else every_n_counter n j + 1)"
    using assms b by (auto simp: every_n_counter_def)
qed

lemma every_n_step:
  assumes "0 < n" "n < INT_MAX" "0 \<le> j"
  shows "SOME_KIND_OF_LOG_EVERY_N n (j, every_n_counter n j)
    = (if j < INT_MAX then Some ((j + 1, every_n_counter n (j + 1)), if n dvd j then Some (j + 1) else None) else None)"
  using every_n_counter_next [OF assms(1,3)] assms(2) unfolding SOME_KIND_OF_LOG_EVERY_N_def
  by (auto simp: incr_def Let_def)

lemma every_n_runs:
  assumes "0 < n" "n < INT_MAX" "0 \<le> j"
  shows "run_statement (\<lambda>_. SOME_KIND_OF_LOG_EVERY_N n) xs (j, every_n_counter n j)
    = (if xs = [] \<or> j + int (length xs) \<le> INT_MAX
       then Some (map (\<lambda>i. if n dvd (j + int i) then Some (j + int i + 1) else None) [0..<length xs]) else None)"
  using assms(3)
proof (induction xs arbitrary: j)
  case (Cons x xs)
  have up: "[0..<length (x # xs)] = 0 # map Suc [0..<length xs]" by (simp add: upt_conv_Cons map_Suc_upt del: upt_Suc)
  show ?case
    using Cons.IH [of "j + 1"] Cons.prems every_n_step [OF assms(1,2) Cons.prems] unfolding up
    by (auto simp: ac_simps)
qed simp

text \<open>C40. \<open>LOG_EVERY_N\<close> gives a message for the first of every \<open>n\<close> executions, with the number of the execution as its
  counter, up to \<open>2 ^ 31 - 1\<close> executions; the next one counts past the greatest \<open>int\<close>.\<close>

theorem log_every_n_rate:
  assumes "0 < n" "n < INT_MAX"
  shows "run_statement (\<lambda>_. SOME_KIND_OF_LOG_EVERY_N n) xs (0, 0)
    = (if int (length xs) \<le> INT_MAX
       then Some (map (\<lambda>i. if n dvd int i then Some (int i + 1) else None) [0..<length xs]) else None)"
  using every_n_runs [OF assms, of 0 xs] by (auto simp: every_n_counter_def INT_MAX_def)

theorem log_every_n_rate_witness:
  "run_statement (\<lambda>_. SOME_KIND_OF_LOG_EVERY_N 2) [(), (), ()] (0, 0)
    = (if int (length [(), (), ()]) \<le> INT_MAX
       then Some (map (\<lambda>i. if 2 dvd int i then Some (int i + 1) else None) [0..<length [(), (), ()]]) else None)"
  by (rule log_every_n_rate) (simp_all add: INT_MAX_def)

lemma if_every_n_step:
  assumes "0 < n" "n \<le> INT_MAX" "0 \<le> k" "j < INT_MAX"
  shows "SOME_KIND_OF_LOG_IF_EVERY_N n c (j, k mod n)
    = Some ((j + 1, (if c then k + 1 else k) mod n), if c \<and> n dvd k then Some (j + 1) else None)"
proof -
  have b: "0 \<le> k mod n" "k mod n < n" using assms(1) by simp_all
  have i: "incr (k mod n) = Some (k mod n + 1)" using b assms(2) by (simp add: incr_def)
  have m: "(k mod n + 1) smod n = (k + 1) mod n" "1 smod n = 1 mod n"
    using b assms(1) by (simp_all add: signed_modulo_int_def mod_simps)
  have "(k + 1) mod n = 1 mod n \<longleftrightarrow> n dvd k" by (simp add: mod_eq_dvd_iff)
  then show ?thesis using i m assms(1,4) by (auto simp: SOME_KIND_OF_LOG_IF_EVERY_N_def incr_def Let_def)
qed

lemma if_every_n_runs:
  assumes "0 < n" "n \<le> INT_MAX" "0 \<le> k" "j + int (length cs) \<le> INT_MAX"
  shows "run_statement (SOME_KIND_OF_LOG_IF_EVERY_N n) cs (j, k mod n)
    = Some (map (\<lambda>i. if cs ! i \<and> n dvd k + int (length (filter id (take i cs))) then Some (j + int i + 1) else None) [0..<length cs])"
  using assms(3,4)
proof (induction cs arbitrary: j k)
  case (Cons c cs)
  have up: "[0..<length (c # cs)] = 0 # map Suc [0..<length cs]" by (simp add: upt_conv_Cons map_Suc_upt del: upt_Suc)
  have "j < INT_MAX" using Cons.prems(2) by simp
  note step = if_every_n_step [OF assms(1,2) Cons.prems(1) this, of c]
  have "0 \<le> (if c then k + 1 else k)" "j + 1 + int (length cs) \<le> INT_MAX" using Cons.prems by auto
  note ih = Cons.IH [OF this]
  let ?k = "if c then k + 1 else k"
  let ?tail = "map (\<lambda>i. if cs ! i \<and> n dvd ?k + int (length (filter id (take i cs))) then Some (j + 1 + int i + 1) else None) [0..<length cs]"
  have "run_statement (SOME_KIND_OF_LOG_IF_EVERY_N n) (c # cs) (j, k mod n) = Some ((if c \<and> n dvd k then Some (j + 1) else None) # ?tail)"
    by (simp only: run_statement.simps step ih option.case prod.case option.map)
  also have "\<dots> = Some (map (\<lambda>i. if (c # cs) ! i \<and> n dvd k + int (length (filter id (take i (c # cs)))) then Some (j + int i + 1) else None)
      [0..<length (c # cs)])"
    unfolding up by (cases c) (simp_all add: comp_def add.assoc)
  finally show ?case .
qed simp

text \<open>\<open>LOG_IF_EVERY_N\<close> gives a message for the first of every \<open>n\<close> executions in which the condition holds; its
  counter is the number of the execution, those without the condition counted.\<close>

theorem log_if_every_n_rate:
  assumes "0 < n" "n \<le> INT_MAX" "int (length cs) \<le> INT_MAX"
  shows "run_statement (SOME_KIND_OF_LOG_IF_EVERY_N n) cs (0, 0)
    = Some (map (\<lambda>i. if cs ! i \<and> n dvd int (length (filter id (take i cs))) then Some (int i + 1) else None) [0..<length cs])"
  using if_every_n_runs [OF assms(1,2), of 0 0 cs] assms(3) by simp

theorem log_if_every_n_rate_witness:
  "run_statement (SOME_KIND_OF_LOG_IF_EVERY_N 2) [False, True, True, True] (0, 0)
    = Some (map (\<lambda>i. if [False, True, True, True] ! i \<and> 2 dvd int (length (filter id (take i [False, True, True, True])))
        then Some (int i + 1) else None) [0..<length [False, True, True, True]])"
  by (rule log_if_every_n_rate) (simp_all add: INT_MAX_def)

lemma first_n_runs:
  assumes "n < INT_MAX" "0 \<le> j" "j \<le> n + 1"
  shows "run_statement (\<lambda>_. SOME_KIND_OF_LOG_FIRST_N n) xs j
    = Some (map (\<lambda>i. if j + int i < n then Some (j + int i + 1) else None) [0..<length xs])"
  using assms(2,3)
proof (induction xs arbitrary: j)
  case (Cons x xs)
  have up: "[0..<length (x # xs)] = 0 # map Suc [0..<length xs]" by (simp add: upt_conv_Cons map_Suc_upt del: upt_Suc)
  let ?j = "if j \<le> n then j + 1 else j"
  have step: "SOME_KIND_OF_LOG_FIRST_N n j = Some (?j, if j < n then Some (j + 1) else None)"
    using assms(1) by (simp add: SOME_KIND_OF_LOG_FIRST_N_def incr_def)
  show ?case
    using Cons.IH [of ?j] Cons.prems unfolding up by (auto simp: step ac_simps)
qed simp

text \<open>\<open>LOG_FIRST_N\<close> gives a message for the first \<open>n\<close> executions and for none after them, however many: its counter
  stops.\<close>

theorem log_first_n_rate:
  assumes "0 \<le> n" "n < INT_MAX"
  shows "run_statement (\<lambda>_. SOME_KIND_OF_LOG_FIRST_N n) xs 0
    = Some (map (\<lambda>i. if int i < n then Some (int i + 1) else None) [0..<length xs])"
  using first_n_runs [of n 0 xs] assms by simp

theorem log_first_n_rate_witness:
  "run_statement (\<lambda>_. SOME_KIND_OF_LOG_FIRST_N 2) [(), (), ()] 0
    = Some (map (\<lambda>i. if int i < 2 then Some (int i + 1) else None) [0..<length [(), (), ()]])"
  by (rule log_first_n_rate) (simp_all add: INT_MAX_def)

subsection \<open>Checks\<close>

text \<open>A check goes on exactly where its condition holds, and then without a trace; in every build, also those that
  strip the messages, a failed check ends the program.\<close>

theorem checks_stop:
  "(CHECK b lib c_text c t w = Running w' \<longleftrightarrow> c \<and> w' = w)
    \<and> (CHECK_EQ b lib show t1 v1 t2 v2 t w = Running w' \<longleftrightarrow> v1 = v2 \<and> w' = w)
    \<and> (CHECK_LT b lib show t1 (i::int) t2 j t w = Running w' \<longleftrightarrow> i < j \<and> w' = w)
    \<and> (CHECK_INDEX b lib i_text a_text k a t w = Running w' \<longleftrightarrow> k < length a \<and> w' = w)
    \<and> (CHECK_NEAR b lib show_int t1 i t2 j m_text m w = Running w' \<longleftrightarrow> \<bar>i - j\<bar> \<le> m \<and> w' = w)"
  by (auto simp: CHECK_def LOG_IF_def LOG_def CHECK_EQ_def CHECK_LT_def CHECK_INDEX_def CHECK_NEAR_def CHECK_LE_def CHECK_GE_def
      CHECK_OP_def CHECK_OP_LOG_def Check_Impl_def)

text \<open>A build without debug checks runs neither the condition nor the statement, and a build that strips a severity
  makes no message of it.\<close>

theorem stripped_nothing:
  "(\<not> DCHECK_IS_ON b \<longrightarrow> DCHECK b lib c_text c t w = Running w \<and> DLOG b lib l t w = Running w)
    \<and> (0 < GOOGLE_STRIP_LOG b \<longrightarrow> LOG b lib INFO t w = Running w)
    \<and> (1 < GOOGLE_STRIP_LOG b \<longrightarrow> LOG b lib WARNING t w = Running w)
    \<and> (2 < GOOGLE_STRIP_LOG b \<longrightarrow> LOG b lib ERROR t w = Running w)
    \<and> (3 < GOOGLE_STRIP_LOG b \<longrightarrow> LOG b lib FATAL t w = Exited w)"
  by (simp add: DCHECK_def DLOG_def LOG_def)

subsection \<open>The text of a message\<close>

lemma sputs_fits:
  assumes "epptr a = int e" "e \<le> length (array a)" "pptr a \<le> e"
  shows "sputs t a = Inr (a\<lparr>array := take (pptr a) (array a) @ take (e - pptr a) t @ drop (pptr a + length (take (e - pptr a) t)) (array a),
      pptr := pptr a + length (take (e - pptr a) t)\<rparr>)"
  using assms
proof (induction t arbitrary: a)
  case (Cons c t)
  show ?case
  proof (cases "pptr a < e")
    case True
    then obtain k where k: "e - pptr a = Suc k" by (metis Suc_diff_Suc)
    have len: "pptr a < length (array a)" using True Cons.prems(2) by simp
    let ?a = "a\<lparr>array := (array a)[pptr a := c], pptr := pptr a + 1\<rparr>"
    have "sputc c a = Inr ?a" using True Cons.prems len by (simp add: sputc_def)
    moreover have "take (Suc (pptr a)) ((array a)[pptr a := c]) = take (pptr a) (array a) @ [c]"
      using len by (simp add: take_Suc_conv_app_nth)
    moreover have "e - Suc (pptr a) = k" using k by simp
    ultimately show ?thesis using Cons.IH [of ?a] Cons.prems True k by (simp add: bindE_def)
  next
    case False
    then show ?thesis using Cons.IH [of a] Cons.prems by (simp add: sputc_def bindE_def)
  qed
qed simp

lemma drop_past: "length xs = k \<Longrightarrow> k \<le> m \<Longrightarrow> drop m (xs @ drop k ys) = drop m ys"
  by simp

lemma length_patched: "length xs = k \<Longrightarrow> k \<le> length ys \<Longrightarrow> length (xs @ drop k ys) = length ys"
  by simp

text \<open>The stream of a message holds the first \<open>len - 2\<close> characters of what is streamed, drops the rest without an
  error, and leaves the last two places of the buffer alone.\<close>

theorem message_buffer_keeps:
  assumes "2 \<le> len" "len \<le> length buf"
  shows "\<exists>a. sputs t (LogStreamBuf buf (int len)) = Inr a \<and> pcount a = min (length t) (len - 2)
    \<and> take (pcount a) (array a) = take (len - 2) t \<and> drop (len - 2) (array a) = drop (len - 2) buf \<and> length (array a) = length buf"
proof -
  let ?k = "length (take (len - 2) t)"
  have "sputs t (LogStreamBuf buf (int len)) = Inr \<lparr>array = take (len - 2) t @ drop ?k buf, pptr = ?k, epptr = int len - 2\<rparr>"
    using sputs_fits [of "LogStreamBuf buf (int len)" "len - 2" t] assms by (simp add: LogStreamBuf_def of_nat_diff)
  moreover have "drop (len - 2) (take (len - 2) t @ drop ?k buf) = drop (len - 2) buf" by (rule drop_past) simp_all
  moreover have "length (take (len - 2) t @ drop ?k buf) = length buf" by (rule length_patched) (use assms in simp_all)
  ultimately show ?thesis
    using assms by (intro exI [of _ "\<lparr>array = take (len - 2) t @ drop ?k buf, pptr = ?k, epptr = int len - 2\<rparr>"]) (simp add: pcount_def del: length_append length_take; simp add: min_def)
qed

theorem message_buffer_keeps_witness:
  "\<exists>a. sputs ''abcd'' (LogStreamBuf ''....!'' (int 5)) = Inr a \<and> pcount a = min (length ''abcd'') (5 - 2)
    \<and> take (pcount a) (array a) = take (5 - 2) ''abcd'' \<and> drop (5 - 2) (array a) = drop (5 - 2) ''....!'' \<and> length (array a) = length ''....!''"
  by (rule message_buffer_keeps) simp_all

text \<open>The buffer of a \<open>NullStream\<close> is handed on with the length 1, where the class asks for 2 at least: the put area
  ends before it starts.\<close>

theorem null_stream_area:
  "epptr (streambuf (new_NullStream buf)) = -1 \<and> pptr (streambuf (new_NullStream buf)) = 0"
  by (simp add: new_NullStream_def LogStream_def LogStreamBuf_def)

lemma print_elements_split:
  "i \<le> 100 \<Longrightarrow> print_elements show i xs
    = (concat (map (\<lambda>(j, x). (if 0 < i + j then '' '' else '''') @ show x) (zip [0..<100 - i] xs)), drop (100 - i) xs)"
proof (induction xs arbitrary: i)
  case (Cons x xs)
  show ?case
  proof (cases "i < 100")
    case True
    then obtain k where k: "100 - i = Suc k" by (metis Suc_diff_Suc)
    have up: "[0..<Suc k] = 0 # map Suc [0..<k]" by (simp add: upt_conv_Cons map_Suc_upt del: upt_Suc)
    have "99 - i = k" using k by simp
    then show ?thesis using Cons.IH [of "i + 1"] True k
      by (simp add: up zip_map1 Let_def comp_def split_def del: upt_Suc)
  qed (use Cons.prems in simp)
qed simp

text \<open>A container is printed by its first 100 elements with one blank between two of them, and dots behind them
  where it has more.\<close>

theorem print_sequence_bounded:
  "PrintSequence show xs
    = concat (map (\<lambda>(i, x). (if 0 < i then '' '' else '''') @ show x) (zip [0..<100] (take 100 xs))) @ (if 100 < length xs then '' ...'' else '''')"
proof -
  have "zip [0..<100] (take 100 xs) = zip [0..<100] xs" by (rule nth_equalityI) simp_all
  then show ?thesis using print_elements_split [of 0 "show" xs] by (simp add: PrintSequence_def Let_def)
qed

end
