(* ===== verification/GlogTest.thy ===== *)
theory GlogTest
  imports Server GlogProps
begin

text \<open>
  \<open>src/glog_test/test.cpp\<close>, the trial of the logging: the flags it sets, and the messages it writes through the
  macros of theory \<open>Glog\<close>.
\<close>

definition test_log_info_init :: "string \<Rightarrow> string option \<Rightarrow> glog_flags \<Rightarrow> fault + glog_flags" where
  "test_log_info_init exec_path log_path f =
     (case log_path of
        None \<Rightarrow> Inl NullDeref
      | Some log_path \<Rightarrow>
          let f = f\<lparr>log_dir := log_path, program := Some exec_path\<rparr>
          in bindE (set_destination ''INFO'' ''INFO_MESSAGE_'' (zbuf 264) f) (\<lambda>a.
             bindE (set_destination ''WARNING'' ''WARNING_MESSAGE_'' (fst a) (snd a)) (\<lambda>a.
             bindE (set_destination ''ERROR'' ''ERROR_MESSAGE_'' (fst a) (snd a)) (\<lambda>a.
             Inr ((snd a)\<lparr>stderrthreshold := 3, log_prefix := True, logbuflevel := 2, logbufsecs := 5, max_log_size := 50\<rparr>)))))"

text \<open>\<open>test11\<close> with its static counters.\<close>

definition test11 :: "build \<Rightarrow> 'w glog_lib \<Rightarrow> int \<times> int \<Rightarrow> 'w \<Rightarrow> ((int \<times> int) \<times> 'w run) option" where
  "test11 b lib st w = LOG_EVERY_N b lib INFO 10 (\<lambda>c. ''Got the '' @ fmt_d c @ ''th exec this func'') st w"

definition hello :: "build \<Rightarrow> 'w glog_lib \<Rightarrow> 'w \<Rightarrow> 'w run" where
  "hello b lib w =
     and_then (LOG b lib INFO ''Hello,GOOGLE!'' w) (\<lambda>w.
     and_then (LOG b lib WARNING ''warning test'' w) (\<lambda>w.
     LOG b lib ERROR ''ERROR, GOOGLE!'' w))"

fun hello_loop :: "build \<Rightarrow> 'w glog_lib \<Rightarrow> nat \<Rightarrow> 'w \<Rightarrow> 'w run" where
  "hello_loop b lib 0 w = Running w"
| "hello_loop b lib (Suc k) w = and_then (hello b lib w) (hello_loop b lib k)"

fun test11_loop :: "build \<Rightarrow> 'w glog_lib \<Rightarrow> nat \<Rightarrow> int \<times> int \<Rightarrow> 'w \<Rightarrow> 'w run option" where
  "test11_loop b lib 0 st w = Some (Running w)"
| "test11_loop b lib (Suc k) st w =
     (case test11 b lib st w of
        None \<Rightarrow> None
      | Some (st, Exited w) \<Rightarrow> Some (Exited w)
      | Some (st, Running w) \<Rightarrow> test11_loop b lib k st w)"

definition test_messages :: "build \<Rightarrow> 'w glog_lib \<Rightarrow> nat \<Rightarrow> 'w \<Rightarrow> 'w run option" where
  "test_messages b lib iterations w =
     (case and_then (hello_loop b lib iterations w) (\<lambda>w. let num = 9 in LOG_IF b lib INFO (num > (10::int)) (''num is:'' @ fmt_d num) w) of
        Exited w \<Rightarrow> Some (Exited w)
      | Running w \<Rightarrow> test11_loop b lib 30 (0, 0) w)"

text \<open>\<open>main\<close>: \<open>log_path\<close> is \<open>argv[1]\<close>, null where there is no argument.\<close>

definition test_main :: "build \<Rightarrow> 'w glog_lib \<Rightarrow> string \<Rightarrow> string option \<Rightarrow> glog_flags \<Rightarrow> 'w \<Rightarrow> fault + glog_flags \<times> 'w run option" where
  "test_main b lib exec_path log_path f w =
     bindE (test_log_info_init exec_path log_path f) (\<lambda>f. Inr (f, test_messages b lib 10000000 w))"

subsection \<open>The messages\<close>

text \<open>A library that writes down the messages.\<close>

definition recorder :: "(log_object \<times> string) list glog_lib" where
  "recorder = \<lparr>destroy = (\<lambda>obj t w. Running (w @ [(obj, t)]))\<rparr>"

lemma hello_recorded:
  assumes "GOOGLE_STRIP_LOG b = 0"
  shows "hello_loop b recorder k w = Running (w @ concat (replicate k
    [(LogMessage 0 0 SendToLog, ''Hello,GOOGLE!''), (LogMessage 1 0 SendToLog, ''warning test''), (LogMessage 2 0 SendToLog, ''ERROR, GOOGLE!'')]))"
  by (induction k arbitrary: w)
    (simp_all add: hello_def LOG_def recorder_def assms GLOG_INFO_def GLOG_WARNING_def GLOG_ERROR_def)

lemma test11_wrap:
  "i < INT_MAX \<Longrightarrow> test11 b recorder (i, 10) w =
     Some ((i + 1, 1), Running (w @ [(LogMessage 0 (i + 1) SendToLog, ''Got the '' @ fmt_d (i + 1) @ ''th exec this func'')]))"
  by (simp add: test11_def LOG_EVERY_N_def SOME_KIND_OF_LOG_EVERY_N_def incr_def INT_MAX_def emit_def recorder_def GLOG_INFO_def Let_def)

lemma test11_steps: "i < INT_MAX \<Longrightarrow> m < 10 \<Longrightarrow> test11 b recorder (i, m) w =
    Some ((i + 1, m + 1), Running (if m = 0 then w @ [(LogMessage 0 (i + 1) SendToLog, ''Got the '' @ fmt_d (i + 1) @ ''th exec this func'')] else w))"
  by (simp add: test11_def LOG_EVERY_N_def SOME_KIND_OF_LOG_EVERY_N_def incr_def INT_MAX_def emit_def recorder_def GLOG_INFO_def Let_def)

lemma test11_loop_num:
  "test11_loop b lib (numeral k) st w =
     (case test11 b lib st w of
        None \<Rightarrow> None
      | Some (st, Exited w) \<Rightarrow> Some (Exited w)
      | Some (st, Running w) \<Rightarrow> test11_loop b lib (pred_numeral k) st w)"
  by (simp add: numeral_eq_Suc)

lemma test11_recorded:
  "test11_loop b recorder 30 (0, 0) w = Some (Running (w @
     [(LogMessage 0 1 SendToLog, ''Got the '' @ fmt_d 1 @ ''th exec this func''),
      (LogMessage 0 11 SendToLog, ''Got the '' @ fmt_d 11 @ ''th exec this func''),
      (LogMessage 0 21 SendToLog, ''Got the '' @ fmt_d 21 @ ''th exec this func'')]))"
  by (simp add: test11_loop_num test11_steps test11_wrap INT_MAX_def)

text \<open>The trial writes each of its three messages as often as its loop runs, no message for the number 9, and of the
  30 executions that count the first, the eleventh and the twenty-first, as its comment says.\<close>

theorem test_messages_written:
  assumes "GOOGLE_STRIP_LOG b = 0"
  shows "test_messages b recorder k [] = Some (Running (concat (replicate k
      [(LogMessage 0 0 SendToLog, ''Hello,GOOGLE!''), (LogMessage 1 0 SendToLog, ''warning test''), (LogMessage 2 0 SendToLog, ''ERROR, GOOGLE!'')])
    @ map (\<lambda>c. (LogMessage 0 c SendToLog, ''Got the '' @ fmt_d c @ ''th exec this func'')) [1, 11, 21]))"
  using hello_recorded [OF assms, of k "[]"] test11_recorded by (simp add: test_messages_def LOG_IF_def)

theorem test_messages_written_witness:
  "test_messages \<lparr>NDEBUG = False, DCHECK_ALWAYS_ON = False, GOOGLE_STRIP_LOG = 0, STRIP_LOG = 0\<rparr> recorder 2 [] = Some (Running (concat (replicate 2
      [(LogMessage 0 0 SendToLog, ''Hello,GOOGLE!''), (LogMessage 1 0 SendToLog, ''warning test''), (LogMessage 2 0 SendToLog, ''ERROR, GOOGLE!'')])
    @ map (\<lambda>c. (LogMessage 0 c SendToLog, ''Got the '' @ fmt_d c @ ''th exec this func'')) [1, 11, 21]))"
  by (rule test_messages_written) simp

text \<open>Without an argument the trial copies a string from a null pointer.\<close>

theorem test_needs_argument: "test_main b lib exec_path None f w = Inl NullDeref"
  by (simp add: test_main_def test_log_info_init_def bindE_def)

end
