(* ===== verification/Spec2Isabelle.thy ===== *)
theory Spec2Isabelle
  imports RaidAllFile FileInfo Common Json Sock SendFeedback WriteBuf BufXor SocketRead Connect GroupSafe GroupRace GroupMemory GroupOrder GroupStart GroupProgress GroupEvents GroupShared GroupCounter Server PlogLog GlogTest
begin

text \<open>
  A model of oRaid server in Isabelle/HOL. The server answers a JSON request in an HTTP message: it XORs
  a group of files, byte by byte, into a parity file from which any one of them can be computed back. The files lie
  on the machine of the server, or on a data server that sends them over one connection per file.

  \<^bold>\<open>How the parts work together.\<close> \<open>main\<close> (\<open>src/src/oraid_server.cpp\<close>) listens; \<open>on_accept\<close> starts a thread per
  client, whose event loop calls \<open>buffered_on_read\<close> for each block of bytes. The handler takes the HTTP message apart
  (\<open>common.cpp\<close>) and reads the JSON request (\<open>json.cpp\<close>). Where the request names the server itself, \<open>open_file\<close>
  and \<open>s_riad\<close> (\<open>raid_all_file.cpp\<close>) XOR the files. Otherwise the file server is asked for the sizes
  (\<open>send_feedback_info.cpp\<close>, with the JSON texts of \<open>json.cpp\<close>), and \<open>create_client_connect_data_server\<close>
  (\<open>get_data_client_file_data.cpp\<close>) starts a thread per file. Each thread sends a header (\<open>file_info.h\<close>), receives the
  messages of the data server (\<open>socket_read_file_data\<close>) and puts their bytes into one of its two buffers
  (\<open>write_buf\<close>); the main thread waits until a buffer of all files is full and XORs it
  (\<open>judge_xor_condition\<close>, \<open>buf_xor\<close>). The code of the result is sent back as JSON (\<open>json.cpp\<close>, \<open>common.cpp\<close>,
  \<open>send_feedback_info.cpp\<close>). All of them log through \<open>glog\<close>.

  \<^bold>\<open>Theories.\<close> Each models the file of the source named with it; definitions carry the names of the functions.

  \<^item> \<open>Prelude\<close>: faults, results, the loop combinator \<open>run_loop\<close>. \<open>CString\<close>: text in fixed arrays. \<open>Streams\<close>: files of
    \<open>stdio.h\<close>. \<open>DirScan\<close>: the directory loop that \<open>json.cpp\<close> and \<open>sock.cpp\<close> share.
  \<^item> \<open>XorSpec\<close>: the specification \<open>parity\<close> and the interface \<open>xor_kernel\<close> of a routine that computes it. Its two
    providers are interpreted in \<open>RaidAllFile\<close> (\<open>s_riad\<close>) and \<open>BufXor\<close> (\<open>buf_xor\<close>).
  \<^item> \<open>ReturnCodes\<close> (\<open>send_message.h\<close>, \<open>error_info.h\<close>); \<open>FileInfo\<close> (\<open>file_info.h\<close>), with the interface \<open>packed\<close>,
    interpreted on each message; \<open>Common\<close> (\<open>common.cpp\<close>); \<open>Json\<close> (\<open>json.cpp\<close>); \<open>Sock\<close> (\<open>sock.cpp\<close>); \<open>SendFeedback\<close>
    (\<open>send_feedback_info.cpp\<close>), with the interface \<open>retry_writer\<close>, interpreted there and in \<open>SocketRead\<close>.
  \<^item> \<open>RaidAllFile\<close> (\<open>raid_all_file.cpp\<close>): the state of the loop is the record \<open>riad\<close>, its streams, buffers, and the
    counters \<open>num0\<close> and \<open>xor_total_size\<close> (\<open>xored\<close>).
  \<^item> \<open>GroupState\<close>, \<open>WriteBuf\<close>, \<open>BufXor\<close>, \<open>SocketRead\<close>, \<open>Connect\<close> (\<open>get_data_client_file_data.cpp\<close>): the global
    \<open>g_tgroupFile\<close> is the record \<open>tGroupFileInfo\<close>, with the C names of the fields. \<open>GroupRun\<close> puts the threads beside
    each other as a step relation on it; \<open>GroupSafe\<close>, \<open>GroupRace\<close>, \<open>GroupMemory\<close> and \<open>GroupOrder\<close> look at its runs. In
    \<open>GroupStart\<close> the threads also start there (\<open>process_in_new_thread_file_num\<close>), at any time while the consumer polls;
    \<open>GroupProgress\<close> builds runs that end. In all of these the connections deliver their files; \<open>GroupEvents\<close> adds the other
    calls of the handler: a failed \<open>recv\<close>, its timeout, the end of a connection, and the freeing of the buffers of a group that has
    ended. \<open>GroupShared\<close> puts a second request beside the first, and \<open>GroupCounter\<close> divides the increments of a counter.
  \<^item> \<open>Server\<close> (\<open>oraid_server.cpp\<close>): a client is the record \<open>client\<close>, an answered request an \<open>outcome\<close>; what is done to
    sockets and events is a list of actions. The threads of several clients are steps on the record \<open>clients\<close>.
  \<^item> \<open>Glog\<close>, \<open>GlogText\<close>, \<open>GlogProps\<close> (\<open>include/glog\<close>): the macros the server logs with. \<open>GlogTest\<close>: the trial program
    \<open>glog_test/test.cpp\<close>.
  \<^item> \<open>PlogUtil\<close>, \<open>PlogFormat\<close>, \<open>PlogRolling\<close>, \<open>PlogLog\<close> (\<open>include/plog\<close>): the second logging library the repository
    carries in source form, for Linux, with the interface \<open>appender\<close>, interpreted on the consoles. Its use in \<open>raid_all_file.cpp\<close> and \<open>oraid_server.cpp\<close> is under \<open>#if 0\<close> or in comments.

  \<^bold>\<open>What the lemmas show.\<close> Both XOR routines write the parity (\<open>open_file_parity\<close>, \<open>buf_xor_appends_parity\<close>,
  \<open>xor_routines_agree\<close> in this theory, which puts the two halves of the program together), and which groups of files
  they do not end for or refuse (\<open>s_riad_verdict\<close>, \<open>open_file_short_files_hang\<close>). Bytes received in pieces are
  neither lost nor moved (\<open>socket_read_reassembles\<close>, \<open>write_buf_appends\<close>, \<open>write_buf_splits\<close>). A group whose files fit
  into one buffer is safe and can always end, under every interleaving (\<open>GroupSafe\<close>, by an invariant of the steps);
  larger groups can end with a wrong file or never (\<open>GroupRace\<close>, by two runs). For files of any size no
  interleaving in which the connections deliver touches memory it must not, and success is reported only when everything has been
  written (\<open>GroupMemory\<close>, by an account of where every byte is); the output is the parity unless one of two races has happened, a buffer taken by
  the consumer or opened by a thread out of turn (\<open>GroupOrder\<close>). This holds too for threads that start while the consumer polls, by a
  simulation, and a thread that fails to start is never reported as success (\<open>GroupStart\<close>). With connections that fail, end or time out
  the memory is safe until a handler frees buffers, which happens at the end of a group, where it is always a second time, and
  where an error is recorded; an error ends the group with its code, and nothing but an error ends one of empty files
  (\<open>GroupEvents\<close>, by a simulation up to the error flag and a measure of the consumer). Every group of files that are not empty has a run
  without a race, to success (\<open>GroupProgress\<close>, by a schedule of rounds); a second request takes the group away from the threads of the first, which crash or put
  their bytes into its files (\<open>GroupShared\<close>). An increment of \<open>buf_full_num\<close> can be lost, so that a complete group is not XORed and
  ends with an error when a connection times out (\<open>GroupCounter\<close>). Parsers equal a specification by lines
  (\<open>get_input_is_line_parser\<close>), texts and messages round trip, every early return has its code. \<open>Server\<close> composes these
  into the answer to a whole request, and \<open>nonlocal_request_parity\<close> in this theory follows one from its bytes to the output file. The logging keeps whole records within its limits. Where the code faults
  on an input, the theorem says for which.

  \<^bold>\<open>Bounds and loops.\<close> Machine integers have their width where the code can reach it: bytes and words of the files, the
  64-bit lengths of the messages, \<open>int\<close> through \<open>to_int32\<close> and \<open>atoi\<close>, \<open>size_t\<close> differences. No definition has fuel:
  a loop is \<open>run_loop\<close>, whose value \<open>None\<close> is divergence, so a theorem that gives \<open>Some\<close> says that the loop ends.
  \<open>READ_BUF_SIZE\<close> is the parameter \<open>cap\<close>; all theorems hold for every value of it, the runs of \<open>GroupRace\<close> take 2
  bytes. Arrays have their length, and a read or write outside is the value \<open>Inl\<close> of a fault.

  \<^bold>\<open>Parameters.\<close> The operating system, libevent, cJSON, RestClient and the compiled part of glog are not part of the
  repository in source form: they are arguments (\<open>write_os\<close>, \<open>net_os\<close>, \<open>posix\<close>, \<open>cjson\<close>, \<open>post\<close>, \<open>glog_lib\<close>,
  \<open>file_os\<close>), and a theorem that relies on them names what it relies on as a premise.

  \<^bold>\<open>Not modelled.\<close> Code under \<open>#if 0\<close>; the texts printed to the terminal and the log lines of the server, except where
  they read an array; \<open>setsockopt\<close> (its arguments are recorded, its effect is not), \<open>truncate\<close> of the fresh output
  file, and the mutex around two assignments in \<open>buf_xor\<close>, which no other code takes.
  The memory is sequentially consistent. A timeout is a call of the handler whose \<open>recv\<close> fails, possible at any time. A step of a thread is
  not divided, neither the increment of \<open>buf_full_num\<close> in the step that fills a buffer (\<open>GroupCounter\<close> divides it) nor
  the two tests of \<open>rotate_bufs\<close> (\<open>divided_rotation\<close> in \<open>GroupOrder\<close> shows the race this leaves out), nor the test of the flags before \<open>recv\<close>; what is
  said of runs, of \<open>only_races_spoil\<close> in particular, is said of these steps. \<open>num0\<close> of \<open>buf_xor\<close> is a natural number, and the length of its
  \<open>in_buf_full[100]\<close> is checked in the caller; with 50 files of at most 100 MB per buffer neither matters.
  A piece of a run has a byte at least; a header that arrives alone, which calls \<open>write_buf\<close> with length 0, is left to \<open>SocketRead\<close>.
  \<open>buf_xor\<close> is one step of a run; \<open>buf_xor_undisturbed\<close> in \<open>GroupEvents\<close> shows that nothing changes what it reads unless an error has been recorded before. Of glog the flags and
  \<open>CHECK_DOUBLE_EQ\<close>, of plog the branches for Windows, Android, RTEMS and wide characters. Of libevent, cJSON and
  RestClient the repository has declarations only.
\<close>

text \<open>C20. The two XOR routines of the program agree: for files that both accept, the bytes that \<open>s_riad\<close> writes
  for files of this machine are the bytes the threads and the consumer of \<open>get_data_client_file_data.cpp\<close> write
  for the same files received from a data server, whatever the pieces and the interleaving.\<close>

theorem xor_routines_agree:
  assumes "group_ok cap (map concat pieces) out0" "\<forall>ps \<in> set pieces. [] \<notin> set ps"
    and "steps cap (start cap out0 pieces) s" "consumer s = Done r"
    and "no_ff_tail (hd (map concat pieces))" "\<forall>i < length pieces. alloc i"
  shows "\<exists>f. s_riad alloc \<lparr>written = [], room = room out0\<rparr> (int (length (hd (map concat pieces)))) (map (at 0) (map concat pieces))
      = Some (Inr (RIGHT, f)) \<and> written (out s) = written out0 @ written f"
proof -
  let ?fs = "map concat pieces" and ?w = "\<lparr>written = [], room = room out0\<rparr>"
  have ok: "?fs \<noteq> []" "same_length (length (hd ?fs)) ?fs" "length (hd ?fs) \<le> room out0"
    using assms(1) by (simp_all add: group_ok_def)
  have a: "s_riad alloc ?w (int (length (hd ?fs))) (map (at 0) ?fs) = Some (Inr (RIGHT, out_after ?w (parity ?fs)))"
    using s_riad_right [OF ok(1,2) _ assms(5)] assms(6) by simp
  have b: "written (out s) = written out0 @ parity ?fs"
    using inv_done [OF inv_reached [OF assms(1) fresh_group_fresh assms(2) assms(3) [unfolded start_def]] assms(4)] assms(1)
    by (force simp: group_ok_def)
  have c: "written (out_after ?w (parity ?fs)) = parity ?fs"
    using out_after_fits [of "parity ?fs" ?w] ok(3) by (simp add: parity_def)
  show ?thesis by (rule exI, rule conjI [OF a]) (simp only: b c)
qed

theorem xor_routines_agree_witness:
  "\<exists>s f. steps 2 (start 2 \<lparr>written = [9], room = 4\<rparr> two_small_files) s \<and> consumer s = Done RIGHT
    \<and> s_riad (\<lambda>_. True) \<lparr>written = [], room = 4\<rparr> 2 (map (at 0) [[1, 2], [4, 8]]) = Some (Inr (RIGHT, f))
    \<and> written (out s) = [9] @ written f"
proof -
  obtain s where s: "exec_all 2 small_run (start 2 \<lparr>written = [9], room = 4\<rparr> two_small_files) = Some s" "consumer s = Done RIGHT"
    using small_run_result by auto
  have "no_ff_tail (hd (map concat two_small_files))" by (simp add: no_ff_tail_def two_small_files_def)
  then show ?thesis
    using xor_routines_agree [OF two_small_files_ok(1,3) exec_all_steps [OF s(1)] s(2), of "\<lambda>_. True"] exec_all_steps [OF s(1)] s(2)
    by (fastforce simp: two_small_files_def)
qed

text \<open>C1. A request for files of a data server, from its bytes to the answer and the output: the server reads the request, asks for the
  sizes, sets the group up, starts a thread per file, and polls while they connect and receive. If no step of them has been a race
  when \<open>judge_xor_condition\<close> returns, the answer to the client is the code for success and the output file has
  got the parity of the files that the data server sent.\<close>

theorem nonlocal_request_parity:
  assumes "request_wf verb path version hs body" "server_wf server" "answers env"
    and "json_request (json_library env) body ip port meth outname paths" "ip \<noteq> local_addr env" "length outname < 1000"
    and "length (nonlocal_content paths) < BUF_MAX"
    and "answer (post_file_server env (ip @ '':'' @ port @ ''/'' @ meth) (nonlocal_content paths)) = Some resp"
    and "NUL \<notin> set (resp_body resp)" "length (resp_body resp) < BUF_MAX"
    and "get_json_nonlocal_file_attribute_info (json_library env) (resp_body resp) 0 = Inr (RIGHT, int (length (concat (hd pieces))))"
    and "parse_http env server (recv_array (request_text verb path version hs body)) = Some (Inr (h, RIGHT, q))"
    and "fopen_out (group_os env) (''/home/file/'' @ outname) = Some out0"
    and "\<forall>i < length paths. malloc_arg (group_os env) i \<and> pthread_create_ret (group_os env) i = 0"
    and "start_ok cap os (q_server q) paths pieces g0" "length (concat (hd pieces)) \<le> room out0"
    and "calm_start_steps cap os (q_server q) (all_waiting g0 out0 pieces) st" "consumer (inner st) = Done ret"
    and "judge_threads env out0 g0 = Some (Inr (ret, out (inner st), group (inner st)))"
  shows "(\<exists>o'. handle_http env server (recv_array (request_text verb path version hs body)) = Some (Inr o')
      \<and> ret_code o' = RIGHT \<and> sent o' = answer_text env RIGHT version (last_content_type '''' hs))
    \<and> written (out (inner st)) = written out0 @ parity (map concat pieces)"
proof -
  have made: "group_made cap os paths pieces g0" using start_okD(1) [OF assms(15)] .
  then have init: "group_init (int (length (concat (hd pieces)))) paths = Inr g0" and names: "\<forall>f \<in> set paths. NUL \<notin> set f"
    unfolding group_made_def by blast+
  have res: "ret = RIGHT \<and> written (out (inner st)) = written out0 @ parity (map concat pieces)"
    using calm_inv_written(3) [OF calm_group [OF start_okD(2) [OF assms(15)] set_up_fresh [OF made] assms(16) calm_start_reached [OF assms(15,17)]]]
      assms(18) by simp
  have outname: "NUL \<notin> set outname" using assms(4) by (auto simp: json_request_def)
  note run = create_client_runs [OF init outname assms(6,13,14), of "judge_threads env", unfolded assms(19)]
  show ?thesis
    using nonlocal_answer [OF assms(1-5) names assms(7-11) run [simplified], of] res by (auto simp: RIGHT_def)
qed

text \<open>Two files of five bytes over two connections, an output device with room for nine bytes.\<close>

definition demo_group_os :: "ostream \<Rightarrow> create_os" where
  "demo_group_os out0 = \<lparr>fopen_out = (\<lambda>_. Some out0), malloc_arg = (\<lambda>_. True), pthread_create_ret = (\<lambda>_. 0)\<rparr>"

lemma nonlocal_request_parity_witness:
  "\<exists>(env :: json server_env) (st :: starting) o'. handle_http env no_data_server (recv_array (request_text ''POST'' ''xor'' ''HTTP/1.1'' [] ''R'')) = Some (Inr o')
    \<and> ret_code o' = RIGHT \<and> sent o' = answer_text env RIGHT ''HTTP/1.1'' '''' \<and> written (out (inner st)) = [7, 5, 11, 13, 15]
    \<and> (\<forall>out0 g. judge_threads env out0 g = Some (Inr (RIGHT, out (inner st), group (inner st))))"
proof -
  let ?out = "\<lparr>written = [], room = 9\<rparr>" and ?req = "recv_array (request_text ''POST'' ''xor'' ''HTTP/1.1'' [] ''R'')"
  define env0 where "env0 = demo_env\<lparr>group_os := demo_group_os ?out\<rparr>"
  have lib: "json_library env0 = json_library demo_env" by (simp add: env0_def)
  obtain h q where p: "parse_http env0 no_data_server ?req = Some (Inr (h, RIGHT, q))"
      "holds (data_server_ip (q_server q)) 32 ''10.0.0.2''" "holds (data_server_port (q_server q)) 16 ''99''"
    using http_request_parsed [OF demo_request_wf [OF demo_letters(3,4)] no_data_server_wf demo_remote [folded lib]] by blast
  obtain g0 where "start_ok 8 sample_threads no_data_server [''a'', ''b''] two_pieces g0" using sample_start_ok by blast
  then have made: "group_made 8 sample_threads [''a'', ''b''] two_pieces g0" by (rule start_okD)
  have "starts_ok sample_threads (q_server q) (length two_pieces)"
    unfolding starts_ok_def using p(2,3)
    by (auto simp: sample_threads_def sample_thread_def good_net_def connected_def EINPROGRESS_def FD_SETSIZE_def)
  then have ok: "start_ok 8 sample_threads (q_server q) [''a'', ''b''] two_pieces g0" using made unfolding start_ok_def by blast
  obtain st where st: "calm_start_steps 8 sample_threads (q_server q) (all_waiting g0 ?out two_pieces) st" "consumer (inner st) = Done RIGHT"
    using start_ends [OF ok sample_group_ok(1) start_refl] by blast
  define env where "env = env0\<lparr>judge_threads := (\<lambda>_ _. Some (Inr (RIGHT, out (inner st), group (inner st))))\<rparr>"
  have env: "json_library env = json_library demo_env" "group_os env = demo_group_os ?out" "post_file_server env = post_file_server demo_env"
      "local_addr env = local_addr demo_env"
      "judge_threads env = (\<lambda>_ _. Some (Inr (RIGHT, out (inner st), group (inner st))))"
    by (simp_all add: env_def env0_def)
  have ans: "answers env" using demo_env_answers by (simp add: answers_def env_def env0_def)
  have p': "parse_http env no_data_server ?req = Some (Inr (h, RIGHT, q))" using p(1) by (simp add: parse_http_def env lib)
  have n: "length (nonlocal_content [''a'', ''b'']) < BUF_MAX" "''10.0.0.2'' \<noteq> local_addr env" "NUL \<notin> set ''S''" "length ''S'' < BUF_MAX"
      "length ''o'' < 1000"
    by (simp_all add: nonlocal_content_def name_object_def QUOTE_def BUF_MAX_def env demo_env_def) (simp add: NUL_def)
  have a: "answer (post_file_server env (''10.0.0.2'' @ '':'' @ ''99'' @ ''/'' @ ''size'') (nonlocal_content [''a'', ''b'']))
      = Some \<lparr>resp_code = 200, resp_body = ''S''\<rparr>"
    by (simp add: env demo_env_def answer_def)
  have b: "get_json_nonlocal_file_attribute_info (json_library env) ''S'' 0 = Inr (RIGHT, int (length (concat (hd two_pieces))))"
    unfolding sample_group_ok(2) env using demo_size by simp
  have r: "length (concat (hd two_pieces)) \<le> room ?out" using sample_group_ok(2) by simp
  have f: "fopen_out (group_os env) (''/home/file/'' @ ''o'') = Some ?out"
      "\<forall>i < length [''a'', ''b'']. malloc_arg (group_os env) i \<and> pthread_create_ret (group_os env) i = 0"
    by (simp_all add: env demo_group_os_def)
  from nonlocal_request_parity [OF demo_request_wf [OF demo_letters(3,4)] no_data_server_wf ans demo_remote [folded env(1)] n(2,5,1) a _ _ _ p' f ok r st]
  obtain o' where o: "handle_http env no_data_server ?req = Some (Inr o')" "ret_code o' = RIGHT"
      "sent o' = answer_text env RIGHT ''HTTP/1.1'' ''''" "written (out (inner st)) = [7, 5, 11, 13, 15]"
    using n(3,4) b sample_group_ok(3) env(5) by auto
  have "\<forall>out0 g. judge_threads env out0 g = Some (Inr (RIGHT, out (inner st), group (inner st)))" by (simp add: env(5))
  then show ?thesis by (intro exI [of _ env] exI [of _ st] exI [of _ o'] conjI o)
qed

end
